theory Spec2Isabelle
  imports Main
begin

section \<open>Values, edit scripts and host arrays\<close>

text \<open>
  The library is a graph of trackers driven by one process-wide phase record
  (\<^verbatim>\<open>stateData\<close> in \<^verbatim>\<open>core.ts\<close>).  Trackers live in an arena and are addressed by
  natural numbers; a JavaScript \<^verbatim>\<open>Set\<close> is a duplicate-free list in insertion order
  (which is the order a \<^verbatim>\<open>for ... of\<close> loop and the destructuring \<^verbatim>\<open>[first] = set\<close>
  observe).

  Tracker values are numbers or edit-script objects (\<^verbatim>\<open>Changes\<close> of \<^verbatim>\<open>array.ts\<close>).
  The library never computes with a value; all it does is compare two of them with
  \<^verbatim>\<open>!==\<close>.  The numbers are the integers (in the range where a double is exact) and
  \<^verbatim>\<open>-0\<close>: \<^verbatim>\<open>0 === -0\<close> holds although the two are told apart by \<^verbatim>\<open>1 / x\<close> and
  \<^verbatim>\<open>Object.is\<close>.  Fractions, infinities and \<^verbatim>\<open>NaN\<close> are not values of the model.  An
  object is compared by its identity alone.  An object value carries, next to the
  identity, the contents the object had when the value was stored in the tracker
  holding it: a mutation in place through one tracker shows in the value held by
  another tracker only once that tracker is stored again.  The recompute law is
  proved for graphs in which every object is held by one tracker (\<open>owned\<close>), where
  the contents carried are the contents of the object.
\<close>

datatype Change =
    Insert int "int list"
  | Delete int int
  | Move int int
  | Replace int int

record Changes =
  changes :: "Change list"
  newLength :: int

datatype val = Num int | NegZero | Obj nat Changes

text \<open>\<^verbatim>\<open>a === b\<close>; the library uses its negation \<^verbatim>\<open>a !== b\<close>.\<close>

fun strict_eq :: "val \<Rightarrow> val \<Rightarrow> bool" where
  "strict_eq (Num a) (Num b) = (a = b)"
| "strict_eq (Num a) NegZero = (a = 0)"
| "strict_eq NegZero (Num b) = (b = 0)"
| "strict_eq NegZero NegZero = True"
| "strict_eq (Obj i c) (Obj j d) = (i = j)"
| "strict_eq (Num a) (Obj j d) = False"
| "strict_eq NegZero (Obj j d) = False"
| "strict_eq (Obj i c) (Num b) = False"
| "strict_eq (Obj i c) NegZero = False"

text \<open>
  A JavaScript array of numbers: the indexed slots (\<open>None\<close> is an empty slot, read
  as \<^verbatim>\<open>undefined\<close>) and the properties stored under negative keys, which an
  assignment \<^verbatim>\<open>a[-1] = v\<close> creates without touching the slots or the length.
\<close>

record jsarray =
  elems :: "int option list"
  props :: "int \<Rightarrow> int option"

definition js_of_list :: "int list \<Rightarrow> jsarray" where
  "js_of_list xs = \<lparr>elems = map Some xs, props = (\<lambda>k. None)\<rparr>"

definition js_length :: "jsarray \<Rightarrow> int" where
  "js_length a = int (length (elems a))"

definition js_get :: "jsarray \<Rightarrow> int \<Rightarrow> int option" where
  "js_get a i =
     (if 0 \<le> i then (if i < js_length a then elems a ! nat i else None)
      else props a i)"

definition js_set :: "jsarray \<Rightarrow> int \<Rightarrow> int \<Rightarrow> jsarray" where
  "js_set a i v =
     (if 0 \<le> i then
        (if i < js_length a then a\<lparr>elems := (elems a)[nat i := Some v]\<rparr>
         else a\<lparr>elems := elems a @ replicate (nat i - length (elems a)) None @ [Some v]\<rparr>)
      else a\<lparr>props := (props a)(i := Some v)\<rparr>)"

definition js_splice :: "jsarray \<Rightarrow> int \<Rightarrow> int \<Rightarrow> int list \<Rightarrow> jsarray" where
  "js_splice a start deleteCount items =
     (let len = js_length a;
          s = (if start < 0 then max (len + start) 0 else min start len);
          dc = min (max deleteCount 0) (len - s)
      in a\<lparr>elems := take (nat s) (elems a) @ map Some items @ drop (nat (s + dc)) (elems a)\<rparr>)"

definition js_map :: "(int \<Rightarrow> int) \<Rightarrow> jsarray \<Rightarrow> jsarray" where
  "js_map f a = \<lparr>elems = map (map_option f) (elems a), props = (\<lambda>k. None)\<rparr>"

datatype error =
    PhaseViolation
  | RangeViolation
  | UnimplementedOperation
  | Unreachable
  | TypeError
  | OutOfFuel

fun updateArrayFromChange :: "Change list \<Rightarrow> jsarray \<Rightarrow> error option \<times> jsarray" where
  "updateArrayFromChange [] a = (None, a)"
| "updateArrayFromChange (Delete startIndex len # cs) a =
     updateArrayFromChange cs (js_splice a startIndex len [])"
| "updateArrayFromChange (Insert index vs # cs) a =
     updateArrayFromChange cs (js_splice a index 0 vs)"
| "updateArrayFromChange (Move oldIndex newIndex # cs) a = (Some UnimplementedOperation, a)"
| "updateArrayFromChange (Replace index newValue # cs) a =
     updateArrayFromChange cs (js_set a index newValue)"

definition updateArrayFromChanges :: "jsarray \<Rightarrow> Changes \<Rightarrow> error option \<times> jsarray" where
  "updateArrayFromChanges a c = updateArrayFromChange (changes c) a"

section \<open>Trackers and the phase record\<close>

datatype TrackerType = State | Derived

datatype Mode =
    Normal
  | UpdatingState
  | CreatingEffect
  | RunningEffects
  | CreatingDerivedSignal
  | UpdatingDerivedSignals

text \<open>
  The function of a derived tracker is user code.  It is embedded as the tree of
  the library calls it makes: reading \<^verbatim>\<open>.value\<close> or
  \<^verbatim>\<open>.hasChangedSinceLastDerivationExecution\<close> of a handle and continuing with the
  answer, allocating the result object of the \<^verbatim>\<open>map\<close> derivation, applying an edit
  script to a projection's backing array, throwing, or returning.
\<close>

datatype prog =
    Return val
  | Throw error
  | GetValue nat "val \<Rightarrow> prog"
  | GetHasChanged nat "bool \<Rightarrow> prog"
  | NewObject Changes "val \<Rightarrow> prog"
  | ApplyChanges nat Changes prog

record tracker =
  ttype :: TrackerType
  tvalue :: val
  hasChanged :: bool
  downstreamSignals :: "nat list"
  downstreamEffects :: "nat list"
  upstreamSignals :: "nat list"
  func :: prog

text \<open>
  Calls of user code are observable; the model records them in \<open>trace\<close>: a run of a
  derivation's function, and a call of an effect's callback with the
  \<^verbatim>\<open>{value, hasChanged}\<close> records it receives.
\<close>

datatype event = FuncRan nat | EffectRan nat "(val \<times> bool) list"

text \<open>
  \<^verbatim>\<open>stateData\<close> is a tagged union; the fields a variant does not carry are kept
  empty here.  \<open>registry\<close> holds the derived trackers whose handle is registered with
  the \<^verbatim>\<open>FinalizationRegistry\<close> and has not been reclaimed yet; \<open>effects\<close> gives the
  sources captured by each effect's \<^verbatim>\<open>run\<close> closure.
\<close>

record world =
  mode :: Mode
  changedSignals :: "nat list"
  staleDerivedSignals :: "nat list"
  staleEffects :: "nat list"
  freshDerivedSignals :: "nat list"
  derivationsBeingComputed :: "nat list"
  trackers :: "nat \<Rightarrow> tracker"
  ntrackers :: nat
  effects :: "nat \<Rightarrow> nat list"
  neffects :: nat
  registry :: "nat list"
  arrays :: "nat \<Rightarrow> jsarray"
  narrays :: nat
  nobjects :: nat
  trace :: "event list"

datatype 'a result = Ok 'a world | Err error world

definition set_add :: "nat \<Rightarrow> nat list \<Rightarrow> nat list" where
  "set_add x xs = (if x \<in> set xs then xs else xs @ [x])"

definition set_delete :: "nat \<Rightarrow> nat list \<Rightarrow> nat list" where
  "set_delete x xs = removeAll x xs"

definition set_add_all :: "nat list \<Rightarrow> nat list \<Rightarrow> nat list" where
  "set_add_all ys xs = fold set_add ys xs"

definition upd_tracker :: "nat \<Rightarrow> (tracker \<Rightarrow> tracker) \<Rightarrow> world \<Rightarrow> world" where
  "upd_tracker t f \<sigma> = \<sigma>\<lparr>trackers := (trackers \<sigma>)(t := f (trackers \<sigma> t))\<rparr>"

definition emptyWorld :: world where
  "emptyWorld = \<lparr>mode = Normal, changedSignals = [], staleDerivedSignals = [],
     staleEffects = [], freshDerivedSignals = [], derivationsBeingComputed = [],
     trackers = (\<lambda>t. \<lparr>ttype = State, tvalue = Num 0, hasChanged = False,
        downstreamSignals = [], downstreamEffects = [], upstreamSignals = [],
        func = Return (Num 0)\<rparr>),
     ntrackers = 0, effects = (\<lambda>e. []), neffects = 0, registry = [],
     arrays = (\<lambda>a. js_of_list []), narrays = 0, nobjects = 0, trace = []\<rparr>"

definition getDerivationBeingComputed :: "world \<Rightarrow> nat option" where
  "getDerivationBeingComputed \<sigma> =
     (if (mode \<sigma> = CreatingDerivedSignal \<or> mode \<sigma> = UpdatingDerivedSignals)
         \<and> derivationsBeingComputed \<sigma> \<noteq> []
      then Some (last (derivationsBeingComputed \<sigma>)) else None)"

fun removeDependencies :: "nat \<Rightarrow> nat list \<Rightarrow> world \<Rightarrow> unit result" where
  "removeDependencies d [] \<sigma> = Ok () \<sigma>"
| "removeDependencies d (u # us) \<sigma> =
     (if d \<in> set (downstreamSignals (trackers \<sigma> u))
      then removeDependencies d us
             (upd_tracker u (\<lambda>tr. tr\<lparr>downstreamSignals := set_delete d (downstreamSignals tr)\<rparr>) \<sigma>)
      else Err Unreachable \<sigma>)"

definition removeTrackerDependencies :: "nat \<Rightarrow> world \<Rightarrow> unit result" where
  "removeTrackerDependencies d \<sigma> =
     (case removeDependencies d (upstreamSignals (trackers \<sigma> d)) \<sigma> of
        Err e \<sigma>1 \<Rightarrow> Err e \<sigma>1
      | Ok u \<sigma>1 \<Rightarrow> Ok () (upd_tracker d (\<lambda>tr. tr\<lparr>upstreamSignals := []\<rparr>) \<sigma>1))"

definition handleDerivationLinking :: "nat \<Rightarrow> world \<Rightarrow> world" where
  "handleDerivationLinking t \<sigma> =
     (case getDerivationBeingComputed \<sigma> of
        None \<Rightarrow> \<sigma>
      | Some d \<Rightarrow>
          upd_tracker d (\<lambda>tr. tr\<lparr>upstreamSignals := set_add t (upstreamSignals tr)\<rparr>)
            (upd_tracker t (\<lambda>tr. tr\<lparr>downstreamSignals := set_add d (downstreamSignals tr)\<rparr>) \<sigma>))"

text \<open>
  The tail of \<^verbatim>\<open>updateDerivedSignal\<close> after the function has returned \<open>v\<close>: store it,
  pop the stack, clear the stale mark, and propagate if the value changed.
\<close>

definition finishDerivedSignal :: "nat \<Rightarrow> val \<Rightarrow> val \<Rightarrow> world \<Rightarrow> unit result" where
  "finishDerivedSignal d oldValue v \<sigma> =
     (let \<sigma>1 = upd_tracker d (\<lambda>tr. tr\<lparr>tvalue := v\<rparr>) \<sigma>;
          \<sigma>2 = \<sigma>1\<lparr>derivationsBeingComputed := butlast (derivationsBeingComputed \<sigma>1),
                  staleDerivedSignals := set_delete d (staleDerivedSignals \<sigma>1)\<rparr>
      in if \<not> strict_eq v oldValue then
           (if hasChanged (trackers \<sigma>2 d) then Err Unreachable \<sigma>2
            else Ok ()
              ((upd_tracker d (\<lambda>tr. tr\<lparr>hasChanged := True\<rparr>) \<sigma>2)
                 \<lparr>changedSignals := changedSignals \<sigma>2 @ [d],
                  staleDerivedSignals :=
                    set_add_all (downstreamSignals (trackers \<sigma>2 d)) (staleDerivedSignals \<sigma>2),
                  staleEffects :=
                    set_add_all (downstreamEffects (trackers \<sigma>2 d)) (staleEffects \<sigma>2)\<rparr>))
         else Ok () \<sigma>2)"

text \<open>
  The getters of a handle, \<^verbatim>\<open>updateSignal\<close>, \<^verbatim>\<open>updateDerivedSignal\<close> and the run of a
  derivation's function call each other.  The knot is tied in \<open>updateSignal\<close>: the
  other functions take the \<^verbatim>\<open>updateSignal\<close> they may call as their first argument
  \<open>upd\<close>.  JavaScript gives no bound on the nesting of \<^verbatim>\<open>updateSignal\<close> (the library
  does not detect circular dependencies), so \<open>updateSignal\<close> carries the nesting
  depth still allowed and answers \<open>Err OutOfFuel\<close> when none is left.
\<close>

text \<open>
  User code reaches a tracker through a handle only.  The handle of a state tracker
  exists as long as the tracker; the handle of a derived tracker exists from the
  moment \<^verbatim>\<open>derive\<close> returns it (and registers it) until the host reclaims it.
  Using anything else as a handle is a \<^verbatim>\<open>TypeError\<close> of the host.
\<close>

definition isStateHandle :: "nat \<Rightarrow> world \<Rightarrow> bool" where
  "isStateHandle t \<sigma> = (t < ntrackers \<sigma> \<and> ttype (trackers \<sigma> t) = State)"

definition isDerivedHandle :: "nat \<Rightarrow> world \<Rightarrow> bool" where
  "isDerivedHandle t \<sigma> =
     (t < ntrackers \<sigma> \<and> ttype (trackers \<sigma> t) = Derived \<and> t \<in> set (registry \<sigma>))"

definition getValue :: "(nat \<Rightarrow> world \<Rightarrow> unit result) \<Rightarrow> nat \<Rightarrow> world \<Rightarrow> val result" where
  "getValue upd t \<sigma> =
     (if isStateHandle t \<sigma> then
        Ok (tvalue (trackers \<sigma> t)) (handleDerivationLinking t \<sigma>)
      else if \<not> isDerivedHandle t \<sigma> then Err TypeError \<sigma>
      else if mode \<sigma> = UpdatingState then Err PhaseViolation \<sigma>
      else if mode \<sigma> = UpdatingDerivedSignals then
        (case upd t (handleDerivationLinking t \<sigma>) of
           Err e \<sigma>2 \<Rightarrow> Err e \<sigma>2
         | Ok u \<sigma>2 \<Rightarrow> Ok (tvalue (trackers \<sigma>2 t)) \<sigma>2)
      else Ok (tvalue (trackers \<sigma> t)) (handleDerivationLinking t \<sigma>))"

definition hasChangedSinceLastDerivationExecution ::
  "(nat \<Rightarrow> world \<Rightarrow> unit result) \<Rightarrow> nat \<Rightarrow> world \<Rightarrow> bool result" where
  "hasChangedSinceLastDerivationExecution upd t \<sigma> =
     (if isStateHandle t \<sigma> then
        (if mode \<sigma> \<noteq> CreatingDerivedSignal \<and> mode \<sigma> \<noteq> UpdatingDerivedSignals
            \<and> mode \<sigma> \<noteq> Normal
         then Err PhaseViolation \<sigma>
         else Ok (hasChanged (trackers \<sigma> t)) \<sigma>)
      else if \<not> isDerivedHandle t \<sigma> then Err TypeError \<sigma>
      else if mode \<sigma> = UpdatingDerivedSignals then
        (case upd t \<sigma> of
           Err e \<sigma>2 \<Rightarrow> Err e \<sigma>2
         | Ok u \<sigma>2 \<Rightarrow> Ok (hasChanged (trackers \<sigma>2 t)) \<sigma>2)
      else if mode \<sigma> \<noteq> CreatingDerivedSignal then Err PhaseViolation \<sigma>
      else Ok (hasChanged (trackers \<sigma> t)) \<sigma>)"

primrec run :: "(nat \<Rightarrow> world \<Rightarrow> unit result) \<Rightarrow> prog \<Rightarrow> world \<Rightarrow> val result" where
  "run upd (Return v) = (\<lambda>\<sigma>. Ok v \<sigma>)"
| "run upd (Throw e) = (\<lambda>\<sigma>. Err e \<sigma>)"
| "run upd (GetValue t k) = (\<lambda>\<sigma>.
     case getValue upd t \<sigma> of
       Err e \<sigma>1 \<Rightarrow> Err e \<sigma>1
     | Ok v \<sigma>1 \<Rightarrow> run upd (k v) \<sigma>1)"
| "run upd (GetHasChanged t k) = (\<lambda>\<sigma>.
     case hasChangedSinceLastDerivationExecution upd t \<sigma> of
       Err e \<sigma>1 \<Rightarrow> Err e \<sigma>1
     | Ok b \<sigma>1 \<Rightarrow> run upd (k b) \<sigma>1)"
| "run upd (NewObject c k) = (\<lambda>\<sigma>.
     run upd (k (Obj (nobjects \<sigma>) c)) (\<sigma>\<lparr>nobjects := Suc (nobjects \<sigma>)\<rparr>))"
| "run upd (ApplyChanges a c p) = (\<lambda>\<sigma>.
     case updateArrayFromChanges (arrays \<sigma> a) c of
       (Some e, a') \<Rightarrow> Err e (\<sigma>\<lparr>arrays := (arrays \<sigma>)(a := a')\<rparr>)
     | (None, a') \<Rightarrow> run upd p (\<sigma>\<lparr>arrays := (arrays \<sigma>)(a := a')\<rparr>))"

definition updateDerivedSignal :: "(nat \<Rightarrow> world \<Rightarrow> unit result) \<Rightarrow> nat \<Rightarrow> world \<Rightarrow> unit result" where
  "updateDerivedSignal upd d \<sigma> =
     (if mode \<sigma> \<noteq> UpdatingDerivedSignals then Err Unreachable \<sigma>
      else
        (case removeTrackerDependencies d \<sigma> of
           Err e \<sigma>1 \<Rightarrow> Err e \<sigma>1
         | Ok u \<sigma>1 \<Rightarrow>
            (case run upd (func (trackers \<sigma>1 d))
                    (\<sigma>1\<lparr>derivationsBeingComputed := derivationsBeingComputed \<sigma>1 @ [d],
                        trace := trace \<sigma>1 @ [FuncRan d]\<rparr>) of
               Err e \<sigma>2 \<Rightarrow> Err e \<sigma>2
             | Ok v \<sigma>2 \<Rightarrow> finishDerivedSignal d (tvalue (trackers \<sigma>1 d)) v \<sigma>2)))"

primrec updateUpstreamSignals :: "(nat \<Rightarrow> world \<Rightarrow> unit result) \<Rightarrow> nat list \<Rightarrow> world \<Rightarrow> unit result" where
  "updateUpstreamSignals upd [] = (\<lambda>\<sigma>. Ok () \<sigma>)"
| "updateUpstreamSignals upd (s # ss) = (\<lambda>\<sigma>.
     if ttype (trackers \<sigma> s) = Derived then
       (case upd s \<sigma> of
          Err e \<sigma>1 \<Rightarrow> Err e \<sigma>1
        | Ok u \<sigma>1 \<Rightarrow> updateUpstreamSignals upd ss \<sigma>1)
     else updateUpstreamSignals upd ss \<sigma>)"

primrec updateSignal :: "nat \<Rightarrow> nat \<Rightarrow> world \<Rightarrow> unit result" where
  "updateSignal 0 = (\<lambda>t \<sigma>. Err OutOfFuel \<sigma>)"
| "updateSignal (Suc n) = (\<lambda>t \<sigma>.
     if mode \<sigma> \<noteq> UpdatingDerivedSignals then Err Unreachable \<sigma>
     else if t \<in> set (freshDerivedSignals \<sigma>) then Ok () \<sigma>
     else
       (case updateUpstreamSignals (updateSignal n) (upstreamSignals (trackers \<sigma> t)) \<sigma> of
          Err e \<sigma>1 \<Rightarrow> Err e \<sigma>1
        | Ok u \<sigma>1 \<Rightarrow>
           (if t \<in> set (staleDerivedSignals \<sigma>1) then
              (case updateDerivedSignal (updateSignal n) t \<sigma>1 of
                 Err e \<sigma>2 \<Rightarrow> Err e \<sigma>2
               | Ok u \<sigma>2 \<Rightarrow>
                   Ok () (\<sigma>2\<lparr>freshDerivedSignals := set_add t (freshDerivedSignals \<sigma>2)\<rparr>))
            else Ok () (\<sigma>1\<lparr>freshDerivedSignals := set_add t (freshDerivedSignals \<sigma>1)\<rparr>))))"

section \<open>State handles\<close>

text \<open>
  The methods of the handle returned by \<^verbatim>\<open>state\<close>.  The callback of \<^verbatim>\<open>update\<close> mutates
  the object it is given in place: it is a function on the contents of an object and
  leaves a primitive as it is.
\<close>

definition newStateTracker :: "val \<Rightarrow> tracker" where
  "newStateTracker v = \<lparr>ttype = State, tvalue = v, hasChanged = False,
     downstreamSignals = [], downstreamEffects = [], upstreamSignals = [],
     func = Throw TypeError\<rparr>"

definition state :: "val \<Rightarrow> world \<Rightarrow> nat result" where
  "state v \<sigma> =
     Ok (ntrackers \<sigma>)
        (\<sigma>\<lparr>trackers := (trackers \<sigma>)(ntrackers \<sigma> := newStateTracker v),
           ntrackers := Suc (ntrackers \<sigma>)\<rparr>)"

definition handleValueChange :: "nat \<Rightarrow> world \<Rightarrow> unit result" where
  "handleValueChange t \<sigma> =
     (if mode \<sigma> \<noteq> UpdatingState then Err PhaseViolation \<sigma>
      else if \<not> hasChanged (trackers \<sigma> t) then
        Ok ()
          ((upd_tracker t (\<lambda>tr. tr\<lparr>hasChanged := True\<rparr>) \<sigma>)
             \<lparr>changedSignals := changedSignals \<sigma> @ [t],
              staleDerivedSignals :=
                set_add_all (downstreamSignals (trackers \<sigma> t)) (staleDerivedSignals \<sigma>),
              staleEffects :=
                set_add_all (downstreamEffects (trackers \<sigma> t)) (staleEffects \<sigma>)\<rparr>)
      else Ok () \<sigma>)"

definition set_value :: "nat \<Rightarrow> val \<Rightarrow> world \<Rightarrow> unit result" where
  "set_value t newValue \<sigma> =
     (if mode \<sigma> \<noteq> UpdatingState then Err PhaseViolation \<sigma>
      else if \<not> strict_eq (tvalue (trackers \<sigma> t)) newValue then
        handleValueChange t (upd_tracker t (\<lambda>tr. tr\<lparr>tvalue := newValue\<rparr>) \<sigma>)
      else Ok () \<sigma>)"

fun in_place :: "(Changes \<Rightarrow> Changes) \<Rightarrow> val \<Rightarrow> val" where
  "in_place callback (Num n) = Num n"
| "in_place callback NegZero = NegZero"
| "in_place callback (Obj i c) = Obj i (callback c)"

definition state_update :: "nat \<Rightarrow> (Changes \<Rightarrow> Changes) \<Rightarrow> world \<Rightarrow> unit result" where
  "state_update t callback \<sigma> =
     (if mode \<sigma> \<noteq> UpdatingState then Err PhaseViolation \<sigma>
      else handleValueChange t
             (upd_tracker t (\<lambda>tr. tr\<lparr>tvalue := in_place callback (tvalue tr)\<rparr>) \<sigma>))"

definition hasChangedWhileUpdatingState :: "nat \<Rightarrow> world \<Rightarrow> bool result" where
  "hasChangedWhileUpdatingState t \<sigma> =
     (if mode \<sigma> \<noteq> UpdatingState then Err PhaseViolation \<sigma>
      else Ok (hasChanged (trackers \<sigma> t)) \<sigma>)"

section \<open>Derived handles, effects and reclamation\<close>

text \<open>
  \<^verbatim>\<open>derive\<close> runs the function once on the new tracker before the handle exists;
  the handle is created and registered when the function has returned.  (The
  tracker's value is \<^verbatim>\<open>null\<close> until then; nothing can read it.)
\<close>

definition newDerivedTracker :: "prog \<Rightarrow> tracker" where
  "newDerivedTracker p = \<lparr>ttype = Derived, tvalue = Num 0, hasChanged = False,
     downstreamSignals = [], downstreamEffects = [], upstreamSignals = [], func = p\<rparr>"

definition derive :: "nat \<Rightarrow> prog \<Rightarrow> world \<Rightarrow> nat result" where
  "derive n p \<sigma> =
     (if mode \<sigma> = Normal then
        (case run (updateSignal n) p
                (\<sigma>\<lparr>mode := CreatingDerivedSignal,
                    derivationsBeingComputed := [ntrackers \<sigma>],
                    trackers := (trackers \<sigma>)(ntrackers \<sigma> := newDerivedTracker p),
                    ntrackers := Suc (ntrackers \<sigma>),
                    trace := trace \<sigma> @ [FuncRan (ntrackers \<sigma>)]\<rparr>) of
           Err e \<sigma>1 \<Rightarrow> Err e \<sigma>1
         | Ok v \<sigma>1 \<Rightarrow>
             Ok (ntrackers \<sigma>)
                ((upd_tracker (ntrackers \<sigma>) (\<lambda>tr. tr\<lparr>tvalue := v\<rparr>) \<sigma>1)
                   \<lparr>mode := Normal, derivationsBeingComputed := [],
                    registry := set_add (ntrackers \<sigma>) (registry \<sigma>1)\<rparr>))
      else Err PhaseViolation \<sigma>)"

text \<open>
  The callback the \<^verbatim>\<open>FinalizationRegistry\<close> runs once the host has reclaimed the
  handle of derived tracker \<open>d\<close>.
\<close>

definition finalize :: "nat \<Rightarrow> world \<Rightarrow> unit result" where
  "finalize d \<sigma> = removeTrackerDependencies d (\<sigma>\<lparr>registry := set_delete d (registry \<sigma>)\<rparr>)"

primrec effectArguments ::
  "(nat \<Rightarrow> world \<Rightarrow> unit result) \<Rightarrow> nat list \<Rightarrow> world \<Rightarrow> (val \<times> bool) list result" where
  "effectArguments upd [] = (\<lambda>\<sigma>. Ok [] \<sigma>)"
| "effectArguments upd (f # fs) = (\<lambda>\<sigma>.
     case getValue upd f \<sigma> of
       Err e \<sigma>1 \<Rightarrow> Err e \<sigma>1
     | Ok v \<sigma>1 \<Rightarrow>
        (case effectArguments upd fs \<sigma>1 of
           Err e \<sigma>2 \<Rightarrow> Err e \<sigma>2
         | Ok args \<sigma>2 \<Rightarrow> Ok ((v, hasChanged (trackers \<sigma>1 f)) # args) \<sigma>2))"

definition runEffect :: "(nat \<Rightarrow> world \<Rightarrow> unit result) \<Rightarrow> nat \<Rightarrow> world \<Rightarrow> unit result" where
  "runEffect upd e \<sigma> =
     (case effectArguments upd (effects \<sigma> e) \<sigma> of
        Err x \<sigma>1 \<Rightarrow> Err x \<sigma>1
      | Ok args \<sigma>1 \<Rightarrow> Ok () (\<sigma>1\<lparr>trace := trace \<sigma>1 @ [EffectRan e args]\<rparr>))"

primrec addDownstreamEffect :: "nat \<Rightarrow> nat list \<Rightarrow> world \<Rightarrow> world" where
  "addDownstreamEffect e [] \<sigma> = \<sigma>"
| "addDownstreamEffect e (s # ss) \<sigma> =
     addDownstreamEffect e ss
       (upd_tracker s (\<lambda>tr. tr\<lparr>downstreamEffects := set_add e (downstreamEffects tr)\<rparr>) \<sigma>)"

text \<open>\<^verbatim>\<open>effect\<close> has no \<^verbatim>\<open>return\<close> statement: its result is \<^verbatim>\<open>undefined\<close>, the unit value.\<close>

definition effect :: "nat \<Rightarrow> nat list \<Rightarrow> world \<Rightarrow> unit result" where
  "effect n from \<sigma> =
     (if mode \<sigma> \<noteq> Normal then Err PhaseViolation \<sigma>
      else
        (case runEffect (updateSignal n) (neffects \<sigma>)
                (\<sigma>\<lparr>effects := (effects \<sigma>)(neffects \<sigma> := from),
                    neffects := Suc (neffects \<sigma>), mode := CreatingEffect\<rparr>) of
           Err x \<sigma>1 \<Rightarrow> Err x \<sigma>1
         | Ok u \<sigma>1 \<Rightarrow> Ok () (addDownstreamEffect (neffects \<sigma>) from (\<sigma>1\<lparr>mode := Normal\<rparr>))))"

section \<open>Array state\<close>

record ImmutableArray =
  avalue :: nat
  achanges :: nat

definition arrayState :: "jsarray \<Rightarrow> world \<Rightarrow> ImmutableArray result" where
  "arrayState v \<sigma> =
     (case state (Obj (nobjects \<sigma>) \<lparr>changes = [], newLength = js_length v\<rparr>)
             (\<sigma>\<lparr>arrays := (arrays \<sigma>)(narrays \<sigma> := v), narrays := Suc (narrays \<sigma>),
                 nobjects := Suc (nobjects \<sigma>)\<rparr>) of
        Err e \<sigma>1 \<Rightarrow> Err e \<sigma>1
      | Ok t \<sigma>1 \<Rightarrow> Ok \<lparr>avalue = narrays \<sigma>, achanges = t\<rparr> \<sigma>1)"

text \<open>
  Every mutating method starts with the same statement,
  \<^verbatim>\<open>if (this.changes.hasChangedWhileUpdatingState === false) this.changes.value = {changes: [], newLength: this.value.length}\<close>.
\<close>

definition resetChanges :: "ImmutableArray \<Rightarrow> world \<Rightarrow> unit result" where
  "resetChanges A \<sigma> =
     (case hasChangedWhileUpdatingState (achanges A) \<sigma> of
        Err e \<sigma>1 \<Rightarrow> Err e \<sigma>1
      | Ok b \<sigma>1 \<Rightarrow>
         (if b = False then
            set_value (achanges A)
              (Obj (nobjects \<sigma>1) \<lparr>changes = [], newLength = js_length (arrays \<sigma>1 (avalue A))\<rparr>)
              (\<sigma>1\<lparr>nobjects := Suc (nobjects \<sigma>1)\<rparr>)
          else Ok () \<sigma>1))"

definition splice_value :: "ImmutableArray \<Rightarrow> int \<Rightarrow> int \<Rightarrow> int list \<Rightarrow> world \<Rightarrow> world" where
  "splice_value A start deleteCount items \<sigma> =
     \<sigma>\<lparr>arrays := (arrays \<sigma>)(avalue A := js_splice (arrays \<sigma> (avalue A)) start deleteCount items)\<rparr>"

definition insertAt :: "ImmutableArray \<Rightarrow> int \<Rightarrow> int list \<Rightarrow> world \<Rightarrow> unit result" where
  "insertAt A index vs \<sigma> =
     (if index < 0 \<or> index > js_length (arrays \<sigma> (avalue A)) then Err RangeViolation \<sigma>
      else
        (case resetChanges A \<sigma> of
           Err e \<sigma>1 \<Rightarrow> Err e \<sigma>1
         | Ok u \<sigma>1 \<Rightarrow>
            (case state_update (achanges A)
                    (\<lambda>c. \<lparr>changes = changes c @ [Insert index vs],
                          newLength = newLength c + int (length vs)\<rparr>) \<sigma>1 of
               Err e \<sigma>2 \<Rightarrow> Err e \<sigma>2
             | Ok u \<sigma>2 \<Rightarrow> Ok () (splice_value A index 0 vs \<sigma>2))))"

definition arr_append :: "ImmutableArray \<Rightarrow> int list \<Rightarrow> world \<Rightarrow> unit result" where
  "arr_append A vs \<sigma> = insertAt A (js_length (arrays \<sigma> (avalue A))) vs \<sigma>"

definition arr_insert :: "ImmutableArray \<Rightarrow> int list \<Rightarrow> world \<Rightarrow> unit result" where
  "arr_insert A vs \<sigma> = insertAt A 0 vs \<sigma>"

definition arr_delete :: "ImmutableArray \<Rightarrow> int \<Rightarrow> int option \<Rightarrow> world \<Rightarrow> unit result" where
  "arr_delete A startIndex endIndexOpt \<sigma> =
     (if startIndex < 0 then Err RangeViolation \<sigma>
      else
        (let endIndex = (case endIndexOpt of None \<Rightarrow> startIndex | Some e \<Rightarrow> e) in
         if endIndex < startIndex \<or> endIndex > js_length (arrays \<sigma> (avalue A)) - 1
         then Err RangeViolation \<sigma>
         else
           (case resetChanges A \<sigma> of
              Err e \<sigma>1 \<Rightarrow> Err e \<sigma>1
            | Ok u \<sigma>1 \<Rightarrow>
               (case state_update (achanges A)
                       (\<lambda>c. \<lparr>changes = changes c @ [Delete startIndex (endIndex - startIndex + 1)],
                             newLength = newLength c - (endIndex - startIndex + 1)\<rparr>) \<sigma>1 of
                  Err e \<sigma>2 \<Rightarrow> Err e \<sigma>2
                | Ok u \<sigma>2 \<Rightarrow>
                    Ok () (splice_value A startIndex (endIndex - startIndex + 1) [] \<sigma>2)))))"

text \<open>
  \<^verbatim>\<open>update(index, func)\<close> hands the element to \<^verbatim>\<open>func\<close>, which may mutate an object
  in place; the elements here are numbers, which it cannot change.
\<close>

definition arr_update :: "ImmutableArray \<Rightarrow> int \<Rightarrow> world \<Rightarrow> unit result" where
  "arr_update A index \<sigma> =
     (case js_get (arrays \<sigma> (avalue A)) index of
        None \<Rightarrow> Err RangeViolation \<sigma>
      | Some elem \<Rightarrow>
         (case resetChanges A \<sigma> of
            Err e \<sigma>1 \<Rightarrow> Err e \<sigma>1
          | Ok u \<sigma>1 \<Rightarrow>
              state_update (achanges A)
                (\<lambda>c. c\<lparr>changes := changes c @ [Replace index elem]\<rparr>) \<sigma>1))"

definition arr_replace :: "ImmutableArray \<Rightarrow> int \<Rightarrow> int \<Rightarrow> world \<Rightarrow> unit result" where
  "arr_replace A index newValue \<sigma> =
     (case resetChanges A \<sigma> of
        Err e \<sigma>1 \<Rightarrow> Err e \<sigma>1
      | Ok u \<sigma>1 \<Rightarrow>
          state_update (achanges A)
            (\<lambda>c. c\<lparr>changes := changes c @ [Replace index newValue]\<rparr>)
            (\<sigma>1\<lparr>arrays := (arrays \<sigma>1)(avalue A := js_set (arrays \<sigma>1 (avalue A)) index newValue)\<rparr>))"

definition arr_move :: "ImmutableArray \<Rightarrow> int \<Rightarrow> int \<Rightarrow> world \<Rightarrow> unit result" where
  "arr_move A oldIndex newIndex \<sigma> =
     (case resetChanges A \<sigma> of
        Err e \<sigma>1 \<Rightarrow> Err e \<sigma>1
      | Ok u \<sigma>1 \<Rightarrow> Err UnimplementedOperation \<sigma>1)"

section \<open>The map projection\<close>

fun mapChange :: "(int \<Rightarrow> int) \<Rightarrow> Change \<Rightarrow> Change" where
  "mapChange f (Insert index vs) = Insert index (map f vs)"
| "mapChange f (Replace index newValue) = Replace index (f newValue)"
| "mapChange f (Delete startIndex len) = Delete startIndex len"
| "mapChange f (Move oldIndex newIndex) = Move oldIndex newIndex"

text \<open>
  The function handed to \<^verbatim>\<open>derive\<close> by \<^verbatim>\<open>map\<close>: it reads \<^verbatim>\<open>inChanges.value\<close> twice,
  builds the rewritten script \<^verbatim>\<open>out\<close>, applies it to the projection's array and
  returns it.  Reading \<^verbatim>\<open>.changes\<close> of a number is a \<^verbatim>\<open>TypeError\<close>.
\<close>

definition mapDerivation :: "nat \<Rightarrow> nat \<Rightarrow> (int \<Rightarrow> int) \<Rightarrow> prog" where
  "mapDerivation a inChanges f =
     GetValue inChanges (\<lambda>v1. case v1 of
        Num x \<Rightarrow> Throw TypeError
      | NegZero \<Rightarrow> Throw TypeError
      | Obj i c1 \<Rightarrow>
          GetValue inChanges (\<lambda>v2. case v2 of
             Num x \<Rightarrow> Throw TypeError
           | NegZero \<Rightarrow> Throw TypeError
           | Obj j c2 \<Rightarrow>
               NewObject \<lparr>changes = map (mapChange f) (changes c1), newLength = newLength c2\<rparr>
                 (\<lambda>out. ApplyChanges a
                     \<lparr>changes = map (mapChange f) (changes c1), newLength = newLength c2\<rparr>
                     (Return out))))"

definition mapArray :: "nat \<Rightarrow> ImmutableArray \<Rightarrow> (int \<Rightarrow> int) \<Rightarrow> world \<Rightarrow> ImmutableArray result" where
  "mapArray n A f \<sigma> =
     (case derive n (mapDerivation (narrays \<sigma>) (achanges A) f)
             (\<sigma>\<lparr>arrays := (arrays \<sigma>)(narrays \<sigma> := js_map f (arrays \<sigma> (avalue A))),
                 narrays := Suc (narrays \<sigma>)\<rparr>) of
        Err e \<sigma>1 \<Rightarrow> Err e \<sigma>1
      | Ok d \<sigma>1 \<Rightarrow> Ok \<lparr>avalue = narrays \<sigma>, achanges = d\<rparr> \<sigma>1)"

definition array_value :: "ImmutableArray \<Rightarrow> world \<Rightarrow> jsarray result" where
  "array_value A \<sigma> =
     (if mode \<sigma> \<noteq> Normal then Err PhaseViolation \<sigma> else Ok (arrays \<sigma> (avalue A)) \<sigma>)"

section \<open>Batches\<close>

text \<open>
  The callback handed to \<^verbatim>\<open>updateState\<close> is user code as well: the tree of the calls
  it makes on state handles and array states.  A call on something that is not a
  handle given out by \<^verbatim>\<open>state\<close> (or an array state built on one) is a
  \<^verbatim>\<open>TypeError\<close> of the host.
\<close>

datatype batch =
    Finish
  | ReadValue nat "val \<Rightarrow> batch"
  | SetValue nat val batch
  | UpdateValue nat "Changes \<Rightarrow> Changes" batch
  | InsertAt ImmutableArray int "int list" batch
  | InsertFirst ImmutableArray "int list" batch
  | Append ImmutableArray "int list" batch
  | DeleteRange ImmutableArray int "int option" batch
  | UpdateAt ImmutableArray int batch
  | ReplaceAt ImmutableArray int int batch
  | MoveTo ImmutableArray int int batch

definition andThen :: "unit result \<Rightarrow> (world \<Rightarrow> unit result) \<Rightarrow> unit result" where
  "andThen r k = (case r of Err e \<sigma>1 \<Rightarrow> Err e \<sigma>1 | Ok u \<sigma>1 \<Rightarrow> k \<sigma>1)"

primrec runBatch :: "(nat \<Rightarrow> world \<Rightarrow> unit result) \<Rightarrow> batch \<Rightarrow> world \<Rightarrow> unit result" where
  "runBatch upd Finish = (\<lambda>\<sigma>. Ok () \<sigma>)"
| "runBatch upd (ReadValue t k) = (\<lambda>\<sigma>.
     case getValue upd t \<sigma> of
       Err e \<sigma>1 \<Rightarrow> Err e \<sigma>1
     | Ok v \<sigma>1 \<Rightarrow> runBatch upd (k v) \<sigma>1)"
| "runBatch upd (SetValue t v b) = (\<lambda>\<sigma>.
     if \<not> isStateHandle t \<sigma> then Err TypeError \<sigma>
     else andThen (set_value t v \<sigma>) (runBatch upd b))"
| "runBatch upd (UpdateValue t callback b) = (\<lambda>\<sigma>.
     if \<not> isStateHandle t \<sigma> then Err TypeError \<sigma>
     else andThen (state_update t callback \<sigma>) (runBatch upd b))"
| "runBatch upd (InsertAt A index vs b) = (\<lambda>\<sigma>.
     if \<not> isStateHandle (achanges A) \<sigma> then Err TypeError \<sigma>
     else andThen (insertAt A index vs \<sigma>) (runBatch upd b))"
| "runBatch upd (InsertFirst A vs b) = (\<lambda>\<sigma>.
     if \<not> isStateHandle (achanges A) \<sigma> then Err TypeError \<sigma>
     else andThen (arr_insert A vs \<sigma>) (runBatch upd b))"
| "runBatch upd (Append A vs b) = (\<lambda>\<sigma>.
     if \<not> isStateHandle (achanges A) \<sigma> then Err TypeError \<sigma>
     else andThen (arr_append A vs \<sigma>) (runBatch upd b))"
| "runBatch upd (DeleteRange A startIndex endIndex b) = (\<lambda>\<sigma>.
     if \<not> isStateHandle (achanges A) \<sigma> then Err TypeError \<sigma>
     else andThen (arr_delete A startIndex endIndex \<sigma>) (runBatch upd b))"
| "runBatch upd (UpdateAt A index b) = (\<lambda>\<sigma>.
     if \<not> isStateHandle (achanges A) \<sigma> then Err TypeError \<sigma>
     else andThen (arr_update A index \<sigma>) (runBatch upd b))"
| "runBatch upd (ReplaceAt A index newValue b) = (\<lambda>\<sigma>.
     if \<not> isStateHandle (achanges A) \<sigma> then Err TypeError \<sigma>
     else andThen (arr_replace A index newValue \<sigma>) (runBatch upd b))"
| "runBatch upd (MoveTo A oldIndex newIndex b) = (\<lambda>\<sigma>.
     if \<not> isStateHandle (achanges A) \<sigma> then Err TypeError \<sigma>
     else andThen (arr_move A oldIndex newIndex \<sigma>) (runBatch upd b))"

section \<open>The update cycle\<close>

text \<open>
  The \<^verbatim>\<open>while (true)\<close> loop of \<^verbatim>\<open>updateState\<close>; its first argument bounds the number of
  iterations, the second the nesting of \<^verbatim>\<open>updateSignal\<close> inside each.
\<close>

primrec updateStaleSignals :: "nat \<Rightarrow> nat \<Rightarrow> world \<Rightarrow> unit result" where
  "updateStaleSignals 0 = (\<lambda>n \<sigma>.
     case staleDerivedSignals \<sigma> of [] \<Rightarrow> Ok () \<sigma> | first # rest \<Rightarrow> Err OutOfFuel \<sigma>)"
| "updateStaleSignals (Suc k) = (\<lambda>n \<sigma>.
     case staleDerivedSignals \<sigma> of
       [] \<Rightarrow> Ok () \<sigma>
     | first # rest \<Rightarrow>
        (case updateDerivedSignal (updateSignal n) first \<sigma> of
           Err e \<sigma>1 \<Rightarrow> Err e \<sigma>1
         | Ok u \<sigma>1 \<Rightarrow>
             updateStaleSignals k n
               (\<sigma>1\<lparr>freshDerivedSignals := set_add first (freshDerivedSignals \<sigma>1)\<rparr>)))"

primrec runEffects :: "(nat \<Rightarrow> world \<Rightarrow> unit result) \<Rightarrow> nat list \<Rightarrow> world \<Rightarrow> unit result" where
  "runEffects upd [] = (\<lambda>\<sigma>. Ok () \<sigma>)"
| "runEffects upd (e # es) = (\<lambda>\<sigma>. andThen (runEffect upd e \<sigma>) (runEffects upd es))"

primrec clearChanged :: "nat list \<Rightarrow> world \<Rightarrow> unit result" where
  "clearChanged [] = (\<lambda>\<sigma>. Ok () \<sigma>)"
| "clearChanged (s # ss) = (\<lambda>\<sigma>.
     if \<not> hasChanged (trackers \<sigma> s) then Err Unreachable \<sigma>
     else clearChanged ss (upd_tracker s (\<lambda>tr. tr\<lparr>hasChanged := False\<rparr>) \<sigma>))"

definition updateState :: "nat \<Rightarrow> batch \<Rightarrow> world \<Rightarrow> unit result" where
  "updateState n b \<sigma> =
     (if mode \<sigma> \<noteq> Normal then Err PhaseViolation \<sigma>
      else
        andThen (runBatch (updateSignal n) b
                   (\<sigma>\<lparr>mode := UpdatingState, changedSignals := [],
                       staleDerivedSignals := [], staleEffects := []\<rparr>))
        (\<lambda>\<sigma>1. andThen (updateStaleSignals n n
                   (\<sigma>1\<lparr>mode := UpdatingDerivedSignals, derivationsBeingComputed := [],
                        freshDerivedSignals := []\<rparr>))
        (\<lambda>\<sigma>2. if derivationsBeingComputed \<sigma>2 \<noteq> [] then Err Unreachable \<sigma>2
              else andThen (runEffects (updateSignal n) (staleEffects \<sigma>2)
                       (\<sigma>2\<lparr>mode := RunningEffects, staleDerivedSignals := [],
                            staleEffects := [], freshDerivedSignals := [],
                            derivationsBeingComputed := []\<rparr>))
        (\<lambda>\<sigma>3. andThen (clearChanged (changedSignals \<sigma>3) \<sigma>3)
        (\<lambda>\<sigma>4. Ok () (\<sigma>4\<lparr>mode := Normal, changedSignals := []\<rparr>))))))"

section \<open>Worked scenarios\<close>

definition world_of :: "'a result \<Rightarrow> world" where
  "world_of r = (case r of Ok x \<sigma> \<Rightarrow> \<sigma> | Err e \<sigma> \<Rightarrow> \<sigma>)"

definition error_of :: "'a result \<Rightarrow> error option" where
  "error_of r = (case r of Ok x \<sigma> \<Rightarrow> None | Err e \<sigma> \<Rightarrow> Some e)"

text \<open>
  JavaScript's \<^verbatim>\<open>%\<close> takes the sign of the dividend, also when the result is zero:
  \<^verbatim>\<open>-4 % 4\<close> is \<^verbatim>\<open>-0\<close>.  The divisor is a non-zero integer constant.
\<close>

definition js_rem :: "int \<Rightarrow> int \<Rightarrow> val" where
  "js_rem a b =
     (if a < 0 \<and> \<bar>a\<bar> mod \<bar>b\<bar> = 0 then NegZero else Num (sgn a * (\<bar>a\<bar> mod \<bar>b\<bar>)))"

text \<open>
  A derivation that returns a number computed from one reading: \<open>f\<close> gives the
  result for an integer, \<open>z\<close> the result for \<^verbatim>\<open>-0\<close>.  For an object operand the
  arithmetic of the scenarios below gives \<^verbatim>\<open>NaN\<close>, which is not a value of the model;
  no scenario reads an object there, and the model fails in that case.
\<close>

definition onNum :: "(int \<Rightarrow> val) \<Rightarrow> val \<Rightarrow> val \<Rightarrow> prog" where
  "onNum f z v = (case v of Num c \<Rightarrow> Return (f c) | NegZero \<Rightarrow> Return z | Obj i c \<Rightarrow> Throw TypeError)"

text \<open>
  The diamond of the test suite: \<^verbatim>\<open>count = state(1)\<close> is tracker 0,
  \<^verbatim>\<open>doubled = derive(() => count.value * 2)\<close> tracker 1,
  \<^verbatim>\<open>modulo = derive(() => count.value % 4)\<close> tracker 2,
  \<^verbatim>\<open>doubleModulo = derive(() => modulo.value * 2)\<close> tracker 3, and
  \<^verbatim>\<open>effect(doubleModulo, ...)\<close> effect 0.
\<close>

definition diamond1 :: world where
  "diamond1 = world_of (state (Num 1) emptyWorld)"

definition diamond2 :: world where
  "diamond2 = world_of (derive 5 (GetValue 0 (onNum (\<lambda>c. Num (c * 2)) NegZero)) diamond1)"

definition diamond3 :: world where
  "diamond3 = world_of (derive 5 (GetValue 0 (onNum (\<lambda>c. js_rem c 4) NegZero)) diamond2)"

definition diamond4 :: world where
  "diamond4 = world_of (derive 5 (GetValue 2 (onNum (\<lambda>m. Num (m * 2)) NegZero)) diamond3)"

definition diamond :: world where
  "diamond = world_of (effect 5 [3] diamond4)"

text \<open>
  The batch \<^verbatim>\<open>count.value += 2; count.value += 2\<close>, for a count that is a number
  (\<^verbatim>\<open>-0 + 2\<close> is \<open>2\<close>).
\<close>

definition addTwo :: "batch \<Rightarrow> batch" where
  "addTwo b = ReadValue 0 (\<lambda>v. case v of
       Num c \<Rightarrow> SetValue 0 (Num (c + 2)) b
     | NegZero \<Rightarrow> SetValue 0 (Num 2) b
     | Obj i c \<Rightarrow> b)"

definition diamondBatch :: batch where
  "diamondBatch = addTwo (addTwo Finish)"

definition valuesOf :: "world \<Rightarrow> nat list \<Rightarrow> val list" where
  "valuesOf \<sigma> ts = map (\<lambda>t. tvalue (trackers \<sigma> t)) ts"

text \<open>
  An array state \<^verbatim>\<open>arrayState([1, 2, 3, 4])\<close> (array 0, changes tracker 0), the
  batch \<^verbatim>\<open>array.delete(1)\<close>, and \<^verbatim>\<open>array.map(e => e)\<close> created after it.
\<close>

definition theArray :: ImmutableArray where
  "theArray = \<lparr>avalue = 0, achanges = 0\<rparr>"

definition array1 :: world where
  "array1 = world_of (arrayState (js_of_list [1, 2, 3, 4]) emptyWorld)"

definition array2 :: world where
  "array2 = world_of (updateState 5 (DeleteRange theArray 1 None Finish) array1)"

definition array3 :: world where
  "array3 = world_of (mapArray 5 theArray (\<lambda>e. e) array2)"

definition scriptOf :: "world \<Rightarrow> nat \<Rightarrow> Change list" where
  "scriptOf \<sigma> t = (case tvalue (trackers \<sigma> t) of Obj i c \<Rightarrow> changes c | _ \<Rightarrow> [])"

definition newLengthOf :: "world \<Rightarrow> nat \<Rightarrow> int" where
  "newLengthOf \<sigma> t = (case tvalue (trackers \<sigma> t) of Obj i c \<Rightarrow> newLength c | _ \<Rightarrow> 0)"

text \<open>A state with one derivation and one effect on it, inside a batch.\<close>

definition counter1 :: world where
  "counter1 = world_of (derive 5 (GetValue 0 Return) (world_of (state (Num 1) emptyWorld)))"

definition counter :: world where
  "counter = world_of (effect 5 [0] counter1)"

definition counterInBatch :: world where
  "counterInBatch = counter\<lparr>mode := UpdatingState\<rparr>"






















section \<open>Properties stated about the model\<close>

text \<open>
  What a recorded change of tracker \<open>t\<close> looks like, going from \<open>\<sigma>\<close> to \<open>\<sigma>'\<close>: the
  flag is set, and, unless it was set before, \<open>t\<close> has been appended to the batch's
  list of changed trackers and its downstream derived trackers and effects have been
  added to the stale sets.
\<close>

definition changeRecorded :: "nat \<Rightarrow> world \<Rightarrow> world \<Rightarrow> bool" where
  "changeRecorded t \<sigma> \<sigma>' =
     (hasChanged (trackers \<sigma>' t)
      \<and> changedSignals \<sigma>' =
          (if hasChanged (trackers \<sigma> t) then changedSignals \<sigma> else changedSignals \<sigma> @ [t])
      \<and> set (staleDerivedSignals \<sigma>') =
          (if hasChanged (trackers \<sigma> t) then set (staleDerivedSignals \<sigma>)
           else set (staleDerivedSignals \<sigma>) \<union> set (downstreamSignals (trackers \<sigma> t)))
      \<and> set (staleEffects \<sigma>') =
          (if hasChanged (trackers \<sigma> t) then set (staleEffects \<sigma>)
           else set (staleEffects \<sigma>) \<union> set (downstreamEffects (trackers \<sigma> t))))"

text \<open>
  Adjacency symmetry: \<open>a\<close> is in the upstream set of \<open>b\<close> exactly when \<open>b\<close> is in the
  downstream set of \<open>a\<close>.
\<close>

definition adjacency_symmetric :: "world \<Rightarrow> bool" where
  "adjacency_symmetric \<sigma> =
     (\<forall>a b. (a \<in> set (upstreamSignals (trackers \<sigma> b))) = (b \<in> set (downstreamSignals (trackers \<sigma> a))))"

text \<open>
  The invariant the symmetry is proved with: the upstream sets have no duplicates,
  and the downstream sets, the stale set and the stack of derivations being computed
  hold allocated trackers only.
\<close>

definition graph_inv :: "world \<Rightarrow> bool" where
  "graph_inv \<sigma> =
     (adjacency_symmetric \<sigma>
      \<and> (\<forall>d. distinct (upstreamSignals (trackers \<sigma> d)))
      \<and> (\<forall>a x. x \<in> set (downstreamSignals (trackers \<sigma> a)) \<longrightarrow> a < ntrackers \<sigma> \<and> x < ntrackers \<sigma>)
      \<and> (\<forall>x \<in> set (staleDerivedSignals \<sigma>). x < ntrackers \<sigma>)
      \<and> (\<forall>x \<in> set (derivationsBeingComputed \<sigma>). x < ntrackers \<sigma>))"

text \<open>
  The public operations, as a caller outside any library call can issue them: the
  exported functions, the getters of a handle, the mutators called outside
  \<^verbatim>\<open>updateState\<close>, and the host running the cleanup registered for a derived tracker.
  \<open>perform\<close> gives the world an operation leaves behind, whether it returned or threw;
  \<open>reachable\<close> are the worlds between operations.
\<close>

datatype operation =
    CallState val
  | CallDerive prog
  | CallEffect "nat list"
  | CallUpdateState batch
  | GetHandleValue nat
  | GetHandleHasChanged nat
  | CallOutsideBatch batch
  | CallArrayState jsarray
  | CallMap ImmutableArray "int \<Rightarrow> int"
  | GetArrayValue ImmutableArray
  | Reclaim nat

definition perform :: "nat \<Rightarrow> operation \<Rightarrow> world \<Rightarrow> world" where
  "perform n op \<sigma> =
     (case op of
        CallState v \<Rightarrow> world_of (state v \<sigma>)
      | CallDerive p \<Rightarrow> world_of (derive n p \<sigma>)
      | CallEffect from \<Rightarrow> world_of (effect n from \<sigma>)
      | CallUpdateState b \<Rightarrow> world_of (updateState n b \<sigma>)
      | GetHandleValue t \<Rightarrow> world_of (getValue (updateSignal n) t \<sigma>)
      | GetHandleHasChanged t \<Rightarrow>
          world_of (hasChangedSinceLastDerivationExecution (updateSignal n) t \<sigma>)
      | CallOutsideBatch b \<Rightarrow> world_of (runBatch (updateSignal n) b \<sigma>)
      | CallArrayState v \<Rightarrow> world_of (arrayState v \<sigma>)
      | CallMap A f \<Rightarrow> world_of (mapArray n A f \<sigma>)
      | GetArrayValue A \<Rightarrow> world_of (array_value A \<sigma>)
      | Reclaim d \<Rightarrow> world_of (finalize d \<sigma>))"

inductive reachable :: "world \<Rightarrow> bool" where
  reachable_empty: "reachable emptyWorld"
| reachable_perform: "reachable \<sigma> \<Longrightarrow> reachable (perform n op \<sigma>)"

text \<open>The world after \<^verbatim>\<open>removeTrackerDependencies(d)\<close> has removed every edge into \<open>d\<close>.\<close>

definition unlinked :: "nat \<Rightarrow> world \<Rightarrow> world" where
  "unlinked d \<sigma> = \<sigma>\<lparr>trackers := (\<lambda>x.
        (trackers \<sigma> x)\<lparr>downstreamSignals :=
             (if x \<in> set (upstreamSignals (trackers \<sigma> d))
              then set_delete d (downstreamSignals (trackers \<sigma> x))
              else downstreamSignals (trackers \<sigma> x)),
           upstreamSignals := (if x = d then [] else upstreamSignals (trackers \<sigma> x))\<rparr>)\<rparr>"

text \<open>What the proofs ask of the \<^verbatim>\<open>updateSignal\<close> handed to the getters.\<close>

definition keeps_graph :: "(nat \<Rightarrow> world \<Rightarrow> unit result) \<Rightarrow> bool" where
  "keeps_graph upd =
     (\<forall>t \<sigma>. graph_inv \<sigma> \<and> t < ntrackers \<sigma> \<longrightarrow>
        graph_inv (world_of (upd t \<sigma>)) \<and> ntrackers (world_of (upd t \<sigma>)) = ntrackers \<sigma>)"

text \<open>
  The idempotent-recompute law compares the cached value of a derived tracker with
  what its function computes when it is evaluated against the world as it stands:
  every read of \<^verbatim>\<open>.value\<close> answers the tracker's current value, every read of
  \<^verbatim>\<open>.hasChangedSinceLastDerivationExecution\<close> its current flag.  \<open>valuesRead\<close> are the
  trackers whose value that evaluation reads.
\<close>

primrec evaluatedFresh :: "world \<Rightarrow> prog \<Rightarrow> val option" where
  "evaluatedFresh \<sigma> (Return v) = Some v"
| "evaluatedFresh \<sigma> (Throw e) = None"
| "evaluatedFresh \<sigma> (GetValue t k) = evaluatedFresh \<sigma> (k (tvalue (trackers \<sigma> t)))"
| "evaluatedFresh \<sigma> (GetHasChanged t k) = evaluatedFresh \<sigma> (k (hasChanged (trackers \<sigma> t)))"
| "evaluatedFresh \<sigma> (NewObject c k) = evaluatedFresh \<sigma> (k (Obj (nobjects \<sigma>) c))"
| "evaluatedFresh \<sigma> (ApplyChanges a c p) = evaluatedFresh \<sigma> p"

primrec valuesRead :: "world \<Rightarrow> prog \<Rightarrow> nat set" where
  "valuesRead \<sigma> (Return v) = {}"
| "valuesRead \<sigma> (Throw e) = {}"
| "valuesRead \<sigma> (GetValue t k) = insert t (valuesRead \<sigma> (k (tvalue (trackers \<sigma> t))))"
| "valuesRead \<sigma> (GetHasChanged t k) = valuesRead \<sigma> (k (hasChanged (trackers \<sigma> t)))"
| "valuesRead \<sigma> (NewObject c k) = valuesRead \<sigma> (k (Obj (nobjects \<sigma>) c))"
| "valuesRead \<sigma> (ApplyChanges a c p) = valuesRead \<sigma> p"

text \<open>
  The graphs the law is proved for.  \<open>D\<close> is any class of primitive values the graph
  stays in (for the diamond: the numbers from 0 on); objects held by states are
  admitted as they are.  A derivation's function only reads \<^verbatim>\<open>.value\<close>, of any
  handles in any order, and whenever what it reads is admitted it returns a value
  of \<open>D\<close> that is a number other than \<^verbatim>\<open>-0\<close> (it may also throw).  A batch reads
  states, sets them to primitive values of \<open>D\<close>, updates them in place and uses the
  array operations.  So no derived tracker holds an object, and no object is held by
  two states: the contents an object value carries are the contents of the object.
\<close>

fun isPrimitive :: "val \<Rightarrow> bool" where
  "isPrimitive (Num x) = True"
| "isPrimitive NegZero = True"
| "isPrimitive (Obj i c) = False"

fun plain :: "val \<Rightarrow> bool" where
  "plain (Num x) = True"
| "plain NegZero = False"
| "plain (Obj i c) = False"

definition admits :: "(val \<Rightarrow> bool) \<Rightarrow> val \<Rightarrow> bool" where
  "admits D v = (D v \<or> \<not> isPrimitive v)"

primrec pureOn :: "(val \<Rightarrow> bool) \<Rightarrow> prog \<Rightarrow> bool" where
  "pureOn D (Return v) = (plain v \<and> D v)"
| "pureOn D (Throw e) = True"
| "pureOn D (GetValue t k) = (\<forall>v. admits D v \<longrightarrow> pureOn D (k v))"
| "pureOn D (GetHasChanged t k) = False"
| "pureOn D (NewObject c k) = False"
| "pureOn D (ApplyChanges a c p) = False"

primrec plainBatch :: "(val \<Rightarrow> bool) \<Rightarrow> batch \<Rightarrow> bool" where
  "plainBatch D Finish = True"
| "plainBatch D (ReadValue t k) = (\<forall>v. admits D v \<longrightarrow> plainBatch D (k v))"
| "plainBatch D (SetValue t v b) = (isPrimitive v \<and> D v \<and> plainBatch D b)"
| "plainBatch D (UpdateValue t callback b) = plainBatch D b"
| "plainBatch D (InsertAt A index vs b) = plainBatch D b"
| "plainBatch D (InsertFirst A vs b) = plainBatch D b"
| "plainBatch D (Append A vs b) = plainBatch D b"
| "plainBatch D (DeleteRange A startIndex endIndex b) = plainBatch D b"
| "plainBatch D (UpdateAt A index b) = plainBatch D b"
| "plainBatch D (ReplaceAt A index newValue b) = plainBatch D b"
| "plainBatch D (MoveTo A oldIndex newIndex b) = plainBatch D b"


text \<open>
  The worlds in which such a graph is at rest: built from the empty world by calls of
  \<^verbatim>\<open>state\<close> (on a primitive value of \<open>D\<close> or on an object created for it),
  \<^verbatim>\<open>arrayState\<close>, \<^verbatim>\<open>derive\<close>, \<^verbatim>\<open>effect\<close> and \<^verbatim>\<open>updateState\<close> that returned, and by the
  host reclaiming derived handles.
\<close>

inductive settled :: "(val \<Rightarrow> bool) \<Rightarrow> world \<Rightarrow> bool" for D :: "val \<Rightarrow> bool" where
  settled_empty: "settled D emptyWorld"
| settled_state:
    "settled D \<sigma> \<Longrightarrow> isPrimitive v \<Longrightarrow> D v \<Longrightarrow> state v \<sigma> = Ok t \<sigma>' \<Longrightarrow> settled D \<sigma>'"
| settled_objectState:
    "settled D \<sigma> \<Longrightarrow>
     state (Obj (nobjects \<sigma>) c) (\<sigma>\<lparr>nobjects := Suc (nobjects \<sigma>)\<rparr>) = Ok t \<sigma>' \<Longrightarrow> settled D \<sigma>'"
| settled_arrayState: "settled D \<sigma> \<Longrightarrow> arrayState a \<sigma> = Ok A \<sigma>' \<Longrightarrow> settled D \<sigma>'"
| settled_derive: "settled D \<sigma> \<Longrightarrow> pureOn D p \<Longrightarrow> derive n p \<sigma> = Ok d \<sigma>' \<Longrightarrow> settled D \<sigma>'"
| settled_effect: "settled D \<sigma> \<Longrightarrow> effect n from \<sigma> = Ok u \<sigma>' \<Longrightarrow> settled D \<sigma>'"
| settled_updateState:
    "settled D \<sigma> \<Longrightarrow> plainBatch D b \<Longrightarrow> updateState n b \<sigma> = Ok u \<sigma>' \<Longrightarrow> settled D \<sigma>'"
| settled_finalize: "settled D \<sigma> \<Longrightarrow> finalize d \<sigma> = Ok u \<sigma>' \<Longrightarrow> settled D \<sigma>'"

text \<open>
  The invariants of the proof.  \<open>consistent\<close>: the cached value of \<open>d\<close> is what its
  function evaluates to now, and every tracker that evaluation reads is among the
  upstream trackers of \<open>d\<close>.  \<open>wellFormed\<close>: the shape of such a graph in any phase.
\<close>

definition consistent :: "world \<Rightarrow> nat \<Rightarrow> bool" where
  "consistent \<sigma> d =
     (evaluatedFresh \<sigma> (func (trackers \<sigma> d)) = Some (tvalue (trackers \<sigma> d))
      \<and> valuesRead \<sigma> (func (trackers \<sigma> d)) \<subseteq> set (upstreamSignals (trackers \<sigma> d)))"

definition readable :: "world \<Rightarrow> nat \<Rightarrow> bool" where
  "readable \<sigma> t =
     (isStateHandle t \<sigma> \<or> isDerivedHandle t \<sigma>
      \<or> (\<exists>x. t \<in> set (upstreamSignals (trackers \<sigma> x))))"

definition wellFormed :: "(val \<Rightarrow> bool) \<Rightarrow> world \<Rightarrow> bool" where
  "wellFormed D \<sigma> =
     (graph_inv \<sigma>
      \<and> (\<forall>t. readable \<sigma> t \<longrightarrow> admits D (tvalue (trackers \<sigma> t)))
      \<and> (\<forall>d. d < ntrackers \<sigma> \<and> ttype (trackers \<sigma> d) = Derived \<longrightarrow>
             plain (tvalue (trackers \<sigma> d)) \<and> pureOn D (func (trackers \<sigma> d)))
      \<and> (\<forall>d u. u \<in> set (upstreamSignals (trackers \<sigma> d)) \<longrightarrow> ttype (trackers \<sigma> d) = Derived)
      \<and> (\<forall>d \<in> set (registry \<sigma>). d < ntrackers \<sigma> \<and> ttype (trackers \<sigma> d) = Derived)
      \<and> (\<forall>d \<in> set (staleDerivedSignals \<sigma>). ttype (trackers \<sigma> d) = Derived)
      \<and> (\<forall>t. hasChanged (trackers \<sigma> t) \<longrightarrow> t \<in> set (changedSignals \<sigma>)))"

definition atRest :: "(val \<Rightarrow> bool) \<Rightarrow> world \<Rightarrow> bool" where
  "atRest D \<sigma> =
     (mode \<sigma> = Normal \<and> wellFormed D \<sigma>
      \<and> changedSignals \<sigma> = [] \<and> derivationsBeingComputed \<sigma> = []
      \<and> (\<forall>d \<in> set (registry \<sigma>). consistent \<sigma> d))"

definition collecting :: "(val \<Rightarrow> bool) \<Rightarrow> world \<Rightarrow> bool" where
  "collecting D \<sigma> =
     (mode \<sigma> = UpdatingState \<and> wellFormed D \<sigma>
      \<and> derivationsBeingComputed \<sigma> = []
      \<and> (\<forall>t. hasChanged (trackers \<sigma> t) \<longrightarrow>
             set (downstreamSignals (trackers \<sigma> t)) \<subseteq> set (staleDerivedSignals \<sigma>))
      \<and> (\<forall>d \<in> set (registry \<sigma>). d \<in> set (staleDerivedSignals \<sigma>) \<or> consistent \<sigma> d))"

text \<open>
  While derived trackers are resolved, a registered derived tracker is stale, being
  computed, or consistent; and a tracker that is fresh in this batch is not stale and
  all its upstream derived trackers are fresh.
\<close>

definition resolving :: "(val \<Rightarrow> bool) \<Rightarrow> world \<Rightarrow> bool" where
  "resolving D \<sigma> =
     (mode \<sigma> = UpdatingDerivedSignals \<and> wellFormed D \<sigma>
      \<and> (\<forall>d \<in> set (derivationsBeingComputed \<sigma>). ttype (trackers \<sigma> d) = Derived)
      \<and> (\<forall>d \<in> set (registry \<sigma>).
             d \<in> set (staleDerivedSignals \<sigma>) \<or> d \<in> set (derivationsBeingComputed \<sigma>)
             \<or> consistent \<sigma> d)
      \<and> (\<forall>x \<in> set (freshDerivedSignals \<sigma>).
             x \<notin> set (staleDerivedSignals \<sigma>)
             \<and> (\<forall>u \<in> set (upstreamSignals (trackers \<sigma> x)).
                    ttype (trackers \<sigma> u) = Derived \<longrightarrow> u \<in> set (freshDerivedSignals \<sigma>))))"

text \<open>
  The trackers a call of \<^verbatim>\<open>updateSignal\<close> is made for are pending: the derivations on
  the stack and the trackers whose upstream loop is under way.  \<open>leadsTo \<sigma> P t\<close>: the
  pending trackers \<open>P\<close> are derived and not fresh, and each has an upstream tracker
  that is pending or the tracker \<open>t\<close> about to be updated.  \<open>waiting \<sigma> P d\<close>: the same
  while the function of \<open>d\<close> runs and has not read yet.  A call that returns leaves
  the pending trackers alone (\<open>leaves\<close>): it keeps their value and their upstream set
  and does not make them fresh; and it keeps every type and function, the value of
  every state tracker, the value and freshness of every fresh tracker, and it
  creates no object.
\<close>

definition leadsTo :: "world \<Rightarrow> nat set \<Rightarrow> nat \<Rightarrow> bool" where
  "leadsTo \<sigma> P t =
     (\<forall>p \<in> P. ttype (trackers \<sigma> p) = Derived \<and> p \<notin> set (freshDerivedSignals \<sigma>)
        \<and> (\<exists>q \<in> insert t P. q \<in> set (upstreamSignals (trackers \<sigma> p))))"

definition waiting :: "world \<Rightarrow> nat set \<Rightarrow> nat \<Rightarrow> bool" where
  "waiting \<sigma> P d =
     (\<forall>p \<in> P. ttype (trackers \<sigma> p) = Derived \<and> p \<notin> set (freshDerivedSignals \<sigma>)
        \<and> (p = d \<or> (\<exists>q \<in> P. q \<in> set (upstreamSignals (trackers \<sigma> p)))))"

definition leaves :: "nat set \<Rightarrow> world \<Rightarrow> world \<Rightarrow> bool" where
  "leaves P \<sigma> \<sigma>' =
     (mode \<sigma>' = mode \<sigma> \<and> ntrackers \<sigma>' = ntrackers \<sigma> \<and> registry \<sigma>' = registry \<sigma>
      \<and> derivationsBeingComputed \<sigma>' = derivationsBeingComputed \<sigma>
      \<and> nobjects \<sigma>' = nobjects \<sigma>
      \<and> (\<forall>x. ttype (trackers \<sigma>' x) = ttype (trackers \<sigma> x)
              \<and> func (trackers \<sigma>' x) = func (trackers \<sigma> x))
      \<and> (\<forall>x. ttype (trackers \<sigma> x) = State \<longrightarrow> tvalue (trackers \<sigma>' x) = tvalue (trackers \<sigma> x))
      \<and> (\<forall>x \<in> set (freshDerivedSignals \<sigma>).
             x \<in> set (freshDerivedSignals \<sigma>') \<and> tvalue (trackers \<sigma>' x) = tvalue (trackers \<sigma> x))
      \<and> (\<forall>p \<in> P. tvalue (trackers \<sigma>' p) = tvalue (trackers \<sigma> p)
             \<and> upstreamSignals (trackers \<sigma>' p) = upstreamSignals (trackers \<sigma> p)
             \<and> (p \<in> set (freshDerivedSignals \<sigma>') \<longrightarrow> p \<in> set (freshDerivedSignals \<sigma>))))"

text \<open>
  What the proof asks of the \<^verbatim>\<open>updateSignal\<close> handed to a getter while resolving.  A
  call for a pending tracker does not return: it is on a cycle of upstream trackers
  none of which is fresh.
\<close>

definition resolves :: "(val \<Rightarrow> bool) \<Rightarrow> (nat \<Rightarrow> world \<Rightarrow> unit result) \<Rightarrow> bool" where
  "resolves D upd =
     (\<forall>P t \<sigma> \<sigma>'. resolving D \<sigma> \<and> leadsTo \<sigma> P t \<and> t < ntrackers \<sigma>
         \<and> ttype (trackers \<sigma> t) = Derived \<and> upd t \<sigma> = Ok () \<sigma>' \<longrightarrow>
         resolving D \<sigma>' \<and> leaves P \<sigma> \<sigma>' \<and> t \<in> set (freshDerivedSignals \<sigma>') \<and> t \<notin> P)"

text \<open>
  An object value carries a copy of the object's contents.  The copy is the object
  as long as no two trackers hold the same object, which is what \<open>owned\<close> says; it
  holds in every settled world.
\<close>

definition owned :: "world \<Rightarrow> bool" where
  "owned \<sigma> =
     (\<forall>t i c. t < ntrackers \<sigma> \<and> tvalue (trackers \<sigma> t) = Obj i c \<longrightarrow>
        i < nobjects \<sigma>
        \<and> (\<forall>t' c'. t' < ntrackers \<sigma> \<and> tvalue (trackers \<sigma> t') = Obj i c' \<longrightarrow> t' = t))"
section \<open>Sets as lists\<close>

lemma set_set_add [simp]: "set (set_add x xs) = insert x (set xs)"
  by (auto simp: set_add_def)

lemma set_set_add_all [simp]: "set (set_add_all ys xs) = set xs \<union> set ys"
  unfolding set_add_all_def by (induction ys arbitrary: xs) auto

lemma set_set_delete [simp]: "set (set_delete x xs) = set xs - {x}"
  by (simp add: set_delete_def)

lemma distinct_set_add [simp]: "distinct (set_add x xs) = distinct xs"
  by (auto simp: set_add_def)

lemma distinct_set_delete [simp]: "distinct xs \<Longrightarrow> distinct (set_delete x xs)"
  by (simp add: set_delete_def distinct_removeAll)

lemma strict_eq_in_place [simp]: "strict_eq (in_place callback v) v"
  by (cases v) auto

section \<open>The adjacency invariant\<close>

lemma world_of_simps [simp]: "world_of (Ok x \<sigma>) = \<sigma>" "world_of (Err e \<sigma>) = \<sigma>"
  by (simp_all add: world_of_def)

lemma error_of_simps [simp]: "error_of (Ok x \<sigma>) = None" "error_of (Err e \<sigma>) = Some e"
  by (simp_all add: error_of_def)

lemma graph_inv_field_updates [simp]:
  "graph_inv (\<sigma>\<lparr>mode := m\<rparr>) = graph_inv \<sigma>"
  "graph_inv (\<sigma>\<lparr>changedSignals := l1\<rparr>) = graph_inv \<sigma>"
  "graph_inv (\<sigma>\<lparr>staleEffects := l3\<rparr>) = graph_inv \<sigma>"
  "graph_inv (\<sigma>\<lparr>freshDerivedSignals := l4\<rparr>) = graph_inv \<sigma>"
  "graph_inv (\<sigma>\<lparr>effects := ef\<rparr>) = graph_inv \<sigma>"
  "graph_inv (\<sigma>\<lparr>neffects := n2\<rparr>) = graph_inv \<sigma>"
  "graph_inv (\<sigma>\<lparr>registry := l6\<rparr>) = graph_inv \<sigma>"
  "graph_inv (\<sigma>\<lparr>arrays := ar\<rparr>) = graph_inv \<sigma>"
  "graph_inv (\<sigma>\<lparr>narrays := n3\<rparr>) = graph_inv \<sigma>"
  "graph_inv (\<sigma>\<lparr>nobjects := n4\<rparr>) = graph_inv \<sigma>"
  "graph_inv (\<sigma>\<lparr>trace := tr\<rparr>) = graph_inv \<sigma>"
  by (simp_all add: graph_inv_def adjacency_symmetric_def)

lemma graph_inv_andThen:
  "graph_inv (world_of r) \<Longrightarrow> (\<And>\<sigma>. graph_inv \<sigma> \<Longrightarrow> graph_inv (world_of (k \<sigma>))) \<Longrightarrow>
   graph_inv (world_of (andThen r k))"
  by (cases r) (simp_all add: andThen_def)

lemma graph_inv_guarded:
  "graph_inv \<sigma> \<Longrightarrow> graph_inv (world_of r) \<Longrightarrow>
   (\<And>\<sigma>'. graph_inv \<sigma>' \<Longrightarrow> graph_inv (world_of (k \<sigma>'))) \<Longrightarrow>
   graph_inv (world_of (if c then Err TypeError \<sigma> else andThen r k))"
  by (simp add: graph_inv_andThen)

lemma graph_inv_stale:
  "graph_inv \<sigma> \<Longrightarrow> \<forall>x \<in> set l. x < ntrackers \<sigma> \<Longrightarrow> graph_inv (\<sigma>\<lparr>staleDerivedSignals := l\<rparr>)"
  by (simp add: graph_inv_def adjacency_symmetric_def)

lemma graph_inv_stack:
  "graph_inv \<sigma> \<Longrightarrow> \<forall>x \<in> set l. x < ntrackers \<sigma> \<Longrightarrow> graph_inv (\<sigma>\<lparr>derivationsBeingComputed := l\<rparr>)"
  by (simp add: graph_inv_def adjacency_symmetric_def)

lemma upd_tracker_same_adjacency:
  assumes "upstreamSignals (f (trackers \<sigma> t)) = upstreamSignals (trackers \<sigma> t)"
      and "downstreamSignals (f (trackers \<sigma> t)) = downstreamSignals (trackers \<sigma> t)"
  shows "upstreamSignals (trackers (upd_tracker t f \<sigma>) x) = upstreamSignals (trackers \<sigma> x)"
    and "downstreamSignals (trackers (upd_tracker t f \<sigma>) x) = downstreamSignals (trackers \<sigma> x)"
  using assms by (simp_all add: upd_tracker_def)

lemma upd_tracker_fields [simp]:
  "mode (upd_tracker t f \<sigma>) = mode \<sigma>"
  "changedSignals (upd_tracker t f \<sigma>) = changedSignals \<sigma>"
  "staleDerivedSignals (upd_tracker t f \<sigma>) = staleDerivedSignals \<sigma>"
  "staleEffects (upd_tracker t f \<sigma>) = staleEffects \<sigma>"
  "freshDerivedSignals (upd_tracker t f \<sigma>) = freshDerivedSignals \<sigma>"
  "derivationsBeingComputed (upd_tracker t f \<sigma>) = derivationsBeingComputed \<sigma>"
  "ntrackers (upd_tracker t f \<sigma>) = ntrackers \<sigma>"
  "effects (upd_tracker t f \<sigma>) = effects \<sigma>"
  "neffects (upd_tracker t f \<sigma>) = neffects \<sigma>"
  "registry (upd_tracker t f \<sigma>) = registry \<sigma>"
  "arrays (upd_tracker t f \<sigma>) = arrays \<sigma>"
  "narrays (upd_tracker t f \<sigma>) = narrays \<sigma>"
  "nobjects (upd_tracker t f \<sigma>) = nobjects \<sigma>"
  "trace (upd_tracker t f \<sigma>) = trace \<sigma>"
  by (simp_all add: upd_tracker_def)

lemma graph_inv_upd_tracker_same:
  assumes "upstreamSignals (f (trackers \<sigma> t)) = upstreamSignals (trackers \<sigma> t)"
      and "downstreamSignals (f (trackers \<sigma> t)) = downstreamSignals (trackers \<sigma> t)"
  shows "graph_inv (upd_tracker t f \<sigma>) = graph_inv \<sigma>"
  unfolding graph_inv_def adjacency_symmetric_def
  by (simp only: upd_tracker_same_adjacency [where f = f and \<sigma> = \<sigma> and t = t, OF assms]
        upd_tracker_fields)

lemma graph_inv_upd_tracker_simps [simp]:
  "graph_inv (upd_tracker t (\<lambda>tr. tr\<lparr>tvalue := v\<rparr>) \<sigma>) = graph_inv \<sigma>"
  "graph_inv (upd_tracker t (\<lambda>tr. tr\<lparr>hasChanged := b\<rparr>) \<sigma>) = graph_inv \<sigma>"
  "graph_inv (upd_tracker t (\<lambda>tr. tr\<lparr>tvalue := g (tvalue tr)\<rparr>) \<sigma>) = graph_inv \<sigma>"
  "graph_inv (upd_tracker t (\<lambda>tr. tr\<lparr>downstreamEffects := h (downstreamEffects tr)\<rparr>) \<sigma>) = graph_inv \<sigma>"
  by (simp_all add: graph_inv_upd_tracker_same)

lemma graph_inv_upstream_bound:
  "graph_inv \<sigma> \<Longrightarrow> x \<in> set (upstreamSignals (trackers \<sigma> a)) \<Longrightarrow> x < ntrackers \<sigma> \<and> a < ntrackers \<sigma>"
  unfolding graph_inv_def adjacency_symmetric_def by blast

lemma graph_inv_downstream_bound:
  "graph_inv \<sigma> \<Longrightarrow> x \<in> set (downstreamSignals (trackers \<sigma> a)) \<Longrightarrow> x < ntrackers \<sigma> \<and> a < ntrackers \<sigma>"
  unfolding graph_inv_def by blast

lemma graph_inv_stale_bound:
  "graph_inv \<sigma> \<Longrightarrow> x \<in> set (staleDerivedSignals \<sigma>) \<Longrightarrow> x < ntrackers \<sigma>"
  unfolding graph_inv_def by blast

lemma graph_inv_handleDerivationLinking:
  "graph_inv \<sigma> \<Longrightarrow> t < ntrackers \<sigma> \<Longrightarrow> graph_inv (handleDerivationLinking t \<sigma>)"
  unfolding handleDerivationLinking_def graph_inv_def adjacency_symmetric_def upd_tracker_def
    getDerivationBeingComputed_def
  by (auto split: option.splits)

lemma ntrackers_handleDerivationLinking [simp]:
  "ntrackers (handleDerivationLinking t \<sigma>) = ntrackers \<sigma>"
  by (simp add: handleDerivationLinking_def split: option.splits)

lemma removeDependencies_ok:
  "distinct us \<Longrightarrow> \<forall>u \<in> set us. d \<in> set (downstreamSignals (trackers \<sigma> u)) \<Longrightarrow>
   removeDependencies d us \<sigma> =
     Ok () (\<sigma>\<lparr>trackers := (\<lambda>x. if x \<in> set us
        then (trackers \<sigma> x)\<lparr>downstreamSignals := set_delete d (downstreamSignals (trackers \<sigma> x))\<rparr>
        else trackers \<sigma> x)\<rparr>)"
proof (induction us arbitrary: \<sigma>)
  case Nil
  then show ?case by simp
next
  case (Cons u us)
  let ?\<sigma>1 = "upd_tracker u (\<lambda>tr. tr\<lparr>downstreamSignals := set_delete d (downstreamSignals tr)\<rparr>) \<sigma>"
  have 1: "\<forall>x \<in> set us. d \<in> set (downstreamSignals (trackers ?\<sigma>1 x))"
    using Cons.prems by (auto simp: upd_tracker_def)
  have "removeDependencies d us ?\<sigma>1 = Ok () (?\<sigma>1\<lparr>trackers := (\<lambda>x. if x \<in> set us
        then (trackers ?\<sigma>1 x)\<lparr>downstreamSignals := set_delete d (downstreamSignals (trackers ?\<sigma>1 x))\<rparr>
        else trackers ?\<sigma>1 x)\<rparr>)"
    using Cons.IH [OF _ 1] Cons.prems by simp
  moreover have "(\<lambda>x. if x \<in> set us
        then (trackers ?\<sigma>1 x)\<lparr>downstreamSignals := set_delete d (downstreamSignals (trackers ?\<sigma>1 x))\<rparr>
        else trackers ?\<sigma>1 x) = (\<lambda>x. if x \<in> set (u # us)
        then (trackers \<sigma> x)\<lparr>downstreamSignals := set_delete d (downstreamSignals (trackers \<sigma> x))\<rparr>
        else trackers \<sigma> x)"
    using Cons.prems by (auto simp: upd_tracker_def fun_eq_iff)
  ultimately show ?case using Cons.prems by (simp add: upd_tracker_def)
qed

lemma removeTrackerDependencies_ok:
  assumes "graph_inv \<sigma>"
  shows "removeTrackerDependencies d \<sigma> = Ok () (unlinked d \<sigma>)"
proof -
  have d: "distinct (upstreamSignals (trackers \<sigma> d))"
    using assms by (simp add: graph_inv_def)
  have m: "\<forall>u \<in> set (upstreamSignals (trackers \<sigma> d)). d \<in> set (downstreamSignals (trackers \<sigma> u))"
    using assms by (simp add: graph_inv_def adjacency_symmetric_def)
  show ?thesis
    unfolding removeTrackerDependencies_def removeDependencies_ok [OF d m] unlinked_def
    by (auto simp: upd_tracker_def fun_eq_iff intro!: arg_cong [where f = "\<lambda>f. \<sigma>\<lparr>trackers := f\<rparr>"])
qed

lemma graph_inv_unlinked:
  assumes "graph_inv \<sigma>"
  shows "graph_inv (unlinked d \<sigma>)"
  using assms
  by (auto simp: graph_inv_def adjacency_symmetric_def unlinked_def)

lemma unlinked_fields [simp]:
  "ntrackers (unlinked d \<sigma>) = ntrackers \<sigma>"
  "mode (unlinked d \<sigma>) = mode \<sigma>"
  "staleDerivedSignals (unlinked d \<sigma>) = staleDerivedSignals \<sigma>"
  "derivationsBeingComputed (unlinked d \<sigma>) = derivationsBeingComputed \<sigma>"
  "freshDerivedSignals (unlinked d \<sigma>) = freshDerivedSignals \<sigma>"
  "registry (unlinked d \<sigma>) = registry \<sigma>"
  by (simp_all add: unlinked_def)

lemma graph_inv_finishDerivedSignal:
  assumes "graph_inv \<sigma>"
  shows "graph_inv (world_of (finishDerivedSignal d old v \<sigma>))"
  using assms
  unfolding finishDerivedSignal_def graph_inv_def adjacency_symmetric_def upd_tracker_def Let_def
  by (auto dest: in_set_butlastD)

lemma ntrackers_finishDerivedSignal [simp]:
  "ntrackers (world_of (finishDerivedSignal d old v \<sigma>)) = ntrackers \<sigma>"
  by (simp add: finishDerivedSignal_def Let_def)

lemma keeps_graphD:
  "keeps_graph upd \<Longrightarrow> graph_inv \<sigma> \<Longrightarrow> t < ntrackers \<sigma> \<Longrightarrow>
   graph_inv (world_of (upd t \<sigma>)) \<and> ntrackers (world_of (upd t \<sigma>)) = ntrackers \<sigma>"
  by (simp add: keeps_graph_def)

lemma graph_inv_getValue:
  assumes "keeps_graph upd" "graph_inv \<sigma>"
  shows "graph_inv (world_of (getValue upd t \<sigma>))
         \<and> ntrackers (world_of (getValue upd t \<sigma>)) = ntrackers \<sigma>"
proof (cases "t < ntrackers \<sigma>")
  case False
  then show ?thesis
    using assms by (simp add: getValue_def isStateHandle_def isDerivedHandle_def)
next
  case True
  have l: "graph_inv (handleDerivationLinking t \<sigma>)"
    using assms True by (simp add: graph_inv_handleDerivationLinking)
  have u: "graph_inv (world_of (upd t (handleDerivationLinking t \<sigma>)))
           \<and> ntrackers (world_of (upd t (handleDerivationLinking t \<sigma>))) = ntrackers \<sigma>"
    using keeps_graphD [OF assms(1) l, of t] True by simp
  show ?thesis
    using assms l u
    by (cases "upd t (handleDerivationLinking t \<sigma>)") (simp_all add: getValue_def)
qed

lemma graph_inv_hasChanged:
  assumes "keeps_graph upd" "graph_inv \<sigma>"
  shows "graph_inv (world_of (hasChangedSinceLastDerivationExecution upd t \<sigma>))
         \<and> ntrackers (world_of (hasChangedSinceLastDerivationExecution upd t \<sigma>)) = ntrackers \<sigma>"
proof (cases "t < ntrackers \<sigma>")
  case False
  then show ?thesis
    using assms
    by (simp add: hasChangedSinceLastDerivationExecution_def isStateHandle_def isDerivedHandle_def)
next
  case True
  have u: "graph_inv (world_of (upd t \<sigma>)) \<and> ntrackers (world_of (upd t \<sigma>)) = ntrackers \<sigma>"
    using keeps_graphD [OF assms True] .
  show ?thesis
    using assms u
    by (cases "upd t \<sigma>") (simp_all add: hasChangedSinceLastDerivationExecution_def)
qed

lemma graph_inv_run:
  assumes "keeps_graph upd"
  shows "graph_inv \<sigma> \<Longrightarrow>
         graph_inv (world_of (run upd p \<sigma>)) \<and> ntrackers (world_of (run upd p \<sigma>)) = ntrackers \<sigma>"
proof (induction p arbitrary: \<sigma>)
  case (GetValue t k)
  have "graph_inv (world_of (getValue upd t \<sigma>))
        \<and> ntrackers (world_of (getValue upd t \<sigma>)) = ntrackers \<sigma>"
    using graph_inv_getValue [OF assms GetValue.prems] .
  then show ?case
    using GetValue.IH by (cases "getValue upd t \<sigma>") simp_all
next
  case (GetHasChanged t k)
  have "graph_inv (world_of (hasChangedSinceLastDerivationExecution upd t \<sigma>))
        \<and> ntrackers (world_of (hasChangedSinceLastDerivationExecution upd t \<sigma>)) = ntrackers \<sigma>"
    using graph_inv_hasChanged [OF assms GetHasChanged.prems] .
  then show ?case
    using GetHasChanged.IH
    by (cases "hasChangedSinceLastDerivationExecution upd t \<sigma>") simp_all
next
  case (NewObject c k)
  have "graph_inv (\<sigma>\<lparr>nobjects := Suc (nobjects \<sigma>)\<rparr>)"
    using NewObject.prems by simp
  from NewObject.IH [OF _ this] show ?case by simp
next
  case (ApplyChanges a c p)
  obtain e a' where u: "updateArrayFromChanges (arrays \<sigma> a) c = (e, a')"
    by (cases "updateArrayFromChanges (arrays \<sigma> a) c") auto
  have "graph_inv (\<sigma>\<lparr>arrays := (arrays \<sigma>)(a := a')\<rparr>)"
    using ApplyChanges.prems by simp
  from ApplyChanges.IH [OF this] show ?case
    using u ApplyChanges.prems by (cases e) simp_all
qed simp_all

lemma graph_inv_updateDerivedSignal:
  assumes "keeps_graph upd" "graph_inv \<sigma>" "d < ntrackers \<sigma>"
  shows "graph_inv (world_of (updateDerivedSignal upd d \<sigma>))
         \<and> ntrackers (world_of (updateDerivedSignal upd d \<sigma>)) = ntrackers \<sigma>"
proof -
  let ?\<sigma>1 = "unlinked d \<sigma>"
  have r: "removeTrackerDependencies d \<sigma> = Ok () ?\<sigma>1"
    using removeTrackerDependencies_ok [OF assms(2)] .
  have g1: "graph_inv ?\<sigma>1"
    using graph_inv_unlinked [OF assms(2)] .
  let ?\<sigma>2 = "?\<sigma>1\<lparr>derivationsBeingComputed := derivationsBeingComputed ?\<sigma>1 @ [d],
                 trace := trace ?\<sigma>1 @ [FuncRan d]\<rparr>"
  have g2: "graph_inv ?\<sigma>2"
    using g1 assms(3) by (simp add: graph_inv_def adjacency_symmetric_def)
  have g3: "graph_inv (world_of (run upd (func (trackers ?\<sigma>1 d)) ?\<sigma>2))
            \<and> ntrackers (world_of (run upd (func (trackers ?\<sigma>1 d)) ?\<sigma>2)) = ntrackers \<sigma>"
    using graph_inv_run [OF assms(1) g2] by simp
  show ?thesis
    using assms r g3
    by (cases "run upd (func (trackers ?\<sigma>1 d)) ?\<sigma>2")
       (simp_all add: updateDerivedSignal_def graph_inv_finishDerivedSignal)
qed

lemma graph_inv_updateUpstreamSignals:
  assumes "keeps_graph upd"
  shows "graph_inv \<sigma> \<Longrightarrow> \<forall>s \<in> set ss. s < ntrackers \<sigma> \<Longrightarrow>
         graph_inv (world_of (updateUpstreamSignals upd ss \<sigma>))
         \<and> ntrackers (world_of (updateUpstreamSignals upd ss \<sigma>)) = ntrackers \<sigma>"
proof (induction ss arbitrary: \<sigma>)
  case Nil
  then show ?case by simp
next
  case (Cons s ss)
  have "graph_inv (world_of (upd s \<sigma>)) \<and> ntrackers (world_of (upd s \<sigma>)) = ntrackers \<sigma>"
    using keeps_graphD [OF assms Cons.prems(1), of s] Cons.prems(2) by simp
  then show ?case
    using Cons by (cases "upd s \<sigma>") simp_all
qed

lemma keeps_graph_updateSignal: "keeps_graph (updateSignal n)"
proof (induction n)
  case 0
  show ?case by (simp add: keeps_graph_def)
next
  case (Suc n)
  show ?case
    unfolding keeps_graph_def
  proof (intro allI impI)
    fix t \<sigma> assume a: "graph_inv \<sigma> \<and> t < ntrackers \<sigma>"
    then have g: "graph_inv \<sigma>" and t: "t < ntrackers \<sigma>" by simp_all
    let ?r1 = "updateUpstreamSignals (updateSignal n) (upstreamSignals (trackers \<sigma> t)) \<sigma>"
    have b: "\<forall>s \<in> set (upstreamSignals (trackers \<sigma> t)). s < ntrackers \<sigma>"
      using graph_inv_upstream_bound [OF g] by blast
    have g1: "graph_inv (world_of ?r1) \<and> ntrackers (world_of ?r1) = ntrackers \<sigma>"
      using graph_inv_updateUpstreamSignals [OF Suc g b] .
    show "graph_inv (world_of (updateSignal (Suc n) t \<sigma>))
          \<and> ntrackers (world_of (updateSignal (Suc n) t \<sigma>)) = ntrackers \<sigma>"
    proof (cases ?r1)
      case (Err e \<sigma>1)
      then show ?thesis using g g1 by simp
    next
      case (Ok u \<sigma>1)
      have "graph_inv (world_of (updateDerivedSignal (updateSignal n) t \<sigma>1))
            \<and> ntrackers (world_of (updateDerivedSignal (updateSignal n) t \<sigma>1)) = ntrackers \<sigma>"
        using graph_inv_updateDerivedSignal [OF Suc, of \<sigma>1 t] g1 Ok t by simp
      then show ?thesis
        using g g1 Ok by (cases "updateDerivedSignal (updateSignal n) t \<sigma>1") simp_all
    qed
  qed
qed

lemma graph_inv_state: "graph_inv \<sigma> \<Longrightarrow> graph_inv (world_of (state v \<sigma>))"
  unfolding state_def graph_inv_def adjacency_symmetric_def newStateTracker_def
  by (auto simp: less_Suc_eq)

lemma graph_inv_derive:
  assumes "graph_inv \<sigma>"
  shows "graph_inv (world_of (derive n p \<sigma>))"
proof (cases "mode \<sigma> = Normal")
  case False
  then show ?thesis using assms by (simp add: derive_def)
next
  case True
  let ?\<sigma>0 = "\<sigma>\<lparr>mode := CreatingDerivedSignal,
                    derivationsBeingComputed := [ntrackers \<sigma>],
                    trackers := (trackers \<sigma>)(ntrackers \<sigma> := newDerivedTracker p),
                    ntrackers := Suc (ntrackers \<sigma>),
                    trace := trace \<sigma> @ [FuncRan (ntrackers \<sigma>)]\<rparr>"
  have g0: "graph_inv ?\<sigma>0"
    using assms unfolding graph_inv_def adjacency_symmetric_def newDerivedTracker_def
    by (auto simp: less_Suc_eq)
  have g1: "graph_inv (world_of (run (updateSignal n) p ?\<sigma>0))"
    using graph_inv_run [OF keeps_graph_updateSignal g0] by simp
  show ?thesis
    using True g1
    by (cases "run (updateSignal n) p ?\<sigma>0")
       (simp_all add: derive_def graph_inv_stack)
qed

lemma graph_inv_effectArguments:
  assumes "keeps_graph upd"
  shows "graph_inv \<sigma> \<Longrightarrow> graph_inv (world_of (effectArguments upd fs \<sigma>))"
proof (induction fs arbitrary: \<sigma>)
  case Nil
  then show ?case by simp
next
  case (Cons f fs)
  have g: "graph_inv (world_of (getValue upd f \<sigma>))"
    using graph_inv_getValue [OF assms Cons.prems] by simp
  show ?case
  proof (cases "getValue upd f \<sigma>")
    case (Err e \<sigma>1)
    then show ?thesis using g by simp
  next
    case (Ok v \<sigma>1)
    then have "graph_inv (world_of (effectArguments upd fs \<sigma>1))"
      using Cons.IH g by simp
    then show ?thesis
      using Ok by (cases "effectArguments upd fs \<sigma>1") simp_all
  qed
qed

lemma graph_inv_runEffect:
  assumes "keeps_graph upd" "graph_inv \<sigma>"
  shows "graph_inv (world_of (runEffect upd e \<sigma>))"
  using graph_inv_effectArguments [OF assms, of "effects \<sigma> e"]
  by (cases "effectArguments upd (effects \<sigma> e) \<sigma>") (simp_all add: runEffect_def)

lemma graph_inv_addDownstreamEffect:
  "graph_inv \<sigma> \<Longrightarrow> graph_inv (addDownstreamEffect e ss \<sigma>)"
  by (induction ss arbitrary: \<sigma>) simp_all

lemma graph_inv_effect:
  assumes "graph_inv \<sigma>"
  shows "graph_inv (world_of (effect n from \<sigma>))"
proof -
  let ?\<sigma>0 = "\<sigma>\<lparr>effects := (effects \<sigma>)(neffects \<sigma> := from),
                neffects := Suc (neffects \<sigma>), mode := CreatingEffect\<rparr>"
  have "graph_inv (world_of (runEffect (updateSignal n) (neffects \<sigma>) ?\<sigma>0))"
    using assms by (intro graph_inv_runEffect keeps_graph_updateSignal) simp
  then show ?thesis
    using assms
    by (cases "runEffect (updateSignal n) (neffects \<sigma>) ?\<sigma>0")
       (simp_all add: effect_def graph_inv_addDownstreamEffect)
qed

lemma graph_inv_handleValueChange:
  "graph_inv \<sigma> \<Longrightarrow> graph_inv (world_of (handleValueChange t \<sigma>))"
  unfolding handleValueChange_def graph_inv_def adjacency_symmetric_def upd_tracker_def
  by auto

lemma graph_inv_set_value:
  "graph_inv \<sigma> \<Longrightarrow> graph_inv (world_of (set_value t v \<sigma>))"
  by (simp add: set_value_def graph_inv_handleValueChange)

lemma graph_inv_state_update:
  "graph_inv \<sigma> \<Longrightarrow> graph_inv (world_of (state_update t callback \<sigma>))"
  by (simp add: state_update_def graph_inv_handleValueChange)

lemma graph_inv_resetChanges:
  "graph_inv \<sigma> \<Longrightarrow> graph_inv (world_of (resetChanges A \<sigma>))"
  by (simp add: resetChanges_def hasChangedWhileUpdatingState_def graph_inv_set_value)

lemma graph_inv_insertAt:
  assumes "graph_inv \<sigma>"
  shows "graph_inv (world_of (insertAt A index vs \<sigma>))"
proof -
  have r: "graph_inv (world_of (resetChanges A \<sigma>))"
    using assms by (rule graph_inv_resetChanges)
  show ?thesis
  proof (cases "resetChanges A \<sigma>")
    case (Err e \<sigma>1)
    then show ?thesis using assms r by (simp add: insertAt_def)
  next
    case (Ok u \<sigma>1)
    let ?u = "state_update (achanges A)
                    (\<lambda>c. \<lparr>changes = changes c @ [Insert index vs],
                          newLength = newLength c + int (length vs)\<rparr>) \<sigma>1"
    have "graph_inv (world_of ?u)"
      using r Ok by (simp add: graph_inv_state_update)
    then show ?thesis
      using assms Ok by (cases ?u) (simp_all add: insertAt_def splice_value_def)
  qed
qed

lemma graph_inv_arr_delete:
  assumes "graph_inv \<sigma>"
  shows "graph_inv (world_of (arr_delete A startIndex endIndex \<sigma>))"
proof -
  have r: "graph_inv (world_of (resetChanges A \<sigma>))"
    using assms by (rule graph_inv_resetChanges)
  show ?thesis
  proof (cases "resetChanges A \<sigma>")
    case (Err e \<sigma>1)
    then show ?thesis using assms r by (simp add: arr_delete_def Let_def)
  next
    case (Ok u \<sigma>1)
    define e where "e = (case endIndex of None \<Rightarrow> startIndex | Some e \<Rightarrow> e)"
    let ?u = "state_update (achanges A)
                       (\<lambda>c. \<lparr>changes = changes c @ [Delete startIndex (e - startIndex + 1)],
                             newLength = newLength c - (e - startIndex + 1)\<rparr>) \<sigma>1"
    have "graph_inv (world_of ?u)"
      using r Ok by (simp add: graph_inv_state_update)
    then show ?thesis
      using assms Ok
      by (cases ?u) (simp_all add: arr_delete_def Let_def splice_value_def e_def)
  qed
qed

lemma graph_inv_arr_update:
  assumes "graph_inv \<sigma>"
  shows "graph_inv (world_of (arr_update A index \<sigma>))"
proof -
  have r: "graph_inv (world_of (resetChanges A \<sigma>))"
    using assms by (rule graph_inv_resetChanges)
  show ?thesis
    using assms r
    by (cases "resetChanges A \<sigma>")
       (auto simp: arr_update_def graph_inv_state_update split: option.splits)
qed

lemma graph_inv_arr_replace:
  assumes "graph_inv \<sigma>"
  shows "graph_inv (world_of (arr_replace A index newValue \<sigma>))"
proof -
  have r: "graph_inv (world_of (resetChanges A \<sigma>))"
    using assms by (rule graph_inv_resetChanges)
  show ?thesis
    using assms r
    by (cases "resetChanges A \<sigma>")
       (auto simp: arr_replace_def graph_inv_state_update)
qed

lemma graph_inv_arr_move:
  assumes "graph_inv \<sigma>"
  shows "graph_inv (world_of (arr_move A oldIndex newIndex \<sigma>))"
  using assms graph_inv_resetChanges [OF assms, of A]
  by (cases "resetChanges A \<sigma>") (auto simp: arr_move_def)

lemma graph_inv_runBatch:
  assumes "keeps_graph upd"
  shows "graph_inv \<sigma> \<Longrightarrow> graph_inv (world_of (runBatch upd b \<sigma>))"
proof (induction b arbitrary: \<sigma>)
  case Finish
  then show ?case by simp
next
  case (ReadValue t k)
  have "graph_inv (world_of (getValue upd t \<sigma>))"
    using graph_inv_getValue [OF assms ReadValue.prems] by simp
  then show ?case
    using ReadValue.IH by (cases "getValue upd t \<sigma>") simp_all
next
  case (SetValue t v b)
  show ?case
    unfolding runBatch.simps
    by (rule graph_inv_guarded [OF SetValue.prems graph_inv_set_value [OF SetValue.prems] SetValue.IH])
next
  case (UpdateValue t callback b)
  show ?case
    unfolding runBatch.simps
    by (rule graph_inv_guarded [OF UpdateValue.prems graph_inv_state_update [OF UpdateValue.prems]
          UpdateValue.IH])
next
  case (InsertAt A index vs b)
  show ?case
    unfolding runBatch.simps
    by (rule graph_inv_guarded [OF InsertAt.prems graph_inv_insertAt [OF InsertAt.prems]
          InsertAt.IH])
next
  case (InsertFirst A vs b)
  show ?case
    unfolding runBatch.simps arr_insert_def
    by (rule graph_inv_guarded [OF InsertFirst.prems graph_inv_insertAt [OF InsertFirst.prems]
          InsertFirst.IH])
next
  case (Append A vs b)
  show ?case
    unfolding runBatch.simps arr_append_def
    by (rule graph_inv_guarded [OF Append.prems graph_inv_insertAt [OF Append.prems] Append.IH])
next
  case (DeleteRange A startIndex endIndex b)
  show ?case
    unfolding runBatch.simps
    by (rule graph_inv_guarded [OF DeleteRange.prems graph_inv_arr_delete [OF DeleteRange.prems]
          DeleteRange.IH])
next
  case (UpdateAt A index b)
  show ?case
    unfolding runBatch.simps
    by (rule graph_inv_guarded [OF UpdateAt.prems graph_inv_arr_update [OF UpdateAt.prems]
          UpdateAt.IH])
next
  case (ReplaceAt A index newValue b)
  show ?case
    unfolding runBatch.simps
    by (rule graph_inv_guarded [OF ReplaceAt.prems graph_inv_arr_replace [OF ReplaceAt.prems]
          ReplaceAt.IH])
next
  case (MoveTo A oldIndex newIndex b)
  show ?case
    unfolding runBatch.simps
    by (rule graph_inv_guarded [OF MoveTo.prems graph_inv_arr_move [OF MoveTo.prems] MoveTo.IH])
qed

lemma graph_inv_updateStaleSignals:
  "graph_inv \<sigma> \<Longrightarrow> graph_inv (world_of (updateStaleSignals k n \<sigma>))"
proof (induction k arbitrary: \<sigma>)
  case 0
  then show ?case by (simp split: list.splits)
next
  case (Suc k)
  show ?case
  proof (cases "staleDerivedSignals \<sigma>")
    case Nil
    then show ?thesis using Suc.prems by simp
  next
    case (Cons first rest)
    then have f: "first < ntrackers \<sigma>"
      using graph_inv_stale_bound [OF Suc.prems, of first] by simp
    have g: "graph_inv (world_of (updateDerivedSignal (updateSignal n) first \<sigma>))"
      using graph_inv_updateDerivedSignal [OF keeps_graph_updateSignal Suc.prems f] by simp
    show ?thesis
    proof (cases "updateDerivedSignal (updateSignal n) first \<sigma>")
      case (Err e \<sigma>1)
      then show ?thesis using g Cons by simp
    next
      case (Ok u \<sigma>1)
      then have "graph_inv (\<sigma>1\<lparr>freshDerivedSignals := set_add first (freshDerivedSignals \<sigma>1)\<rparr>)"
        using g by simp
      from Suc.IH [OF this] show ?thesis using Ok Cons by simp
    qed
  qed
qed

lemma graph_inv_runEffects:
  assumes "keeps_graph upd"
  shows "graph_inv \<sigma> \<Longrightarrow> graph_inv (world_of (runEffects upd es \<sigma>))"
proof (induction es arbitrary: \<sigma>)
  case Nil
  then show ?case by simp
next
  case (Cons e es)
  show ?case
    unfolding runEffects.simps
    by (rule graph_inv_andThen [OF graph_inv_runEffect [OF assms Cons.prems] Cons.IH])
qed

lemma graph_inv_clearChanged:
  "graph_inv \<sigma> \<Longrightarrow> graph_inv (world_of (clearChanged ss \<sigma>))"
  by (induction ss arbitrary: \<sigma>) simp_all

lemma graph_inv_updateState:
  assumes "graph_inv \<sigma>"
  shows "graph_inv (world_of (updateState n b \<sigma>))"
proof (cases "mode \<sigma> = Normal")
  case False
  then show ?thesis using assms by (simp add: updateState_def)
next
  case True
  have s: "graph_inv (\<sigma>\<lparr>mode := UpdatingState, changedSignals := [],
             staleDerivedSignals := [], staleEffects := []\<rparr>)"
    using assms by (simp add: graph_inv_def adjacency_symmetric_def)
  have 4: "graph_inv (world_of (Ok () (\<sigma>4\<lparr>mode := Normal, changedSignals := []\<rparr>)))"
    if "graph_inv \<sigma>4" for \<sigma>4
    using that by simp
  have 3: "graph_inv (world_of (andThen (clearChanged (changedSignals \<sigma>3) \<sigma>3)
        (\<lambda>\<sigma>4. Ok () (\<sigma>4\<lparr>mode := Normal, changedSignals := []\<rparr>))))"
    if "graph_inv \<sigma>3" for \<sigma>3
    by (rule graph_inv_andThen [OF graph_inv_clearChanged [OF that] 4])
  have 2: "graph_inv (world_of (if derivationsBeingComputed \<sigma>2 \<noteq> [] then Err Unreachable \<sigma>2
              else andThen (runEffects (updateSignal n) (staleEffects \<sigma>2)
                       (\<sigma>2\<lparr>mode := RunningEffects, staleDerivedSignals := [],
                            staleEffects := [], freshDerivedSignals := [],
                            derivationsBeingComputed := []\<rparr>))
        (\<lambda>\<sigma>3. andThen (clearChanged (changedSignals \<sigma>3) \<sigma>3)
        (\<lambda>\<sigma>4. Ok () (\<sigma>4\<lparr>mode := Normal, changedSignals := []\<rparr>)))))"
    if g2: "graph_inv \<sigma>2" for \<sigma>2
  proof -
    have "graph_inv (\<sigma>2\<lparr>mode := RunningEffects, staleDerivedSignals := [],
                            staleEffects := [], freshDerivedSignals := [],
                            derivationsBeingComputed := []\<rparr>)"
      using g2 by (simp add: graph_inv_def adjacency_symmetric_def)
    from graph_inv_andThen [OF graph_inv_runEffects [OF keeps_graph_updateSignal this] 3]
    show ?thesis using g2 by simp
  qed
  have 1: "graph_inv (world_of (andThen (updateStaleSignals n n
                   (\<sigma>1\<lparr>mode := UpdatingDerivedSignals, derivationsBeingComputed := [],
                        freshDerivedSignals := []\<rparr>))
        (\<lambda>\<sigma>2. if derivationsBeingComputed \<sigma>2 \<noteq> [] then Err Unreachable \<sigma>2
              else andThen (runEffects (updateSignal n) (staleEffects \<sigma>2)
                       (\<sigma>2\<lparr>mode := RunningEffects, staleDerivedSignals := [],
                            staleEffects := [], freshDerivedSignals := [],
                            derivationsBeingComputed := []\<rparr>))
        (\<lambda>\<sigma>3. andThen (clearChanged (changedSignals \<sigma>3) \<sigma>3)
        (\<lambda>\<sigma>4. Ok () (\<sigma>4\<lparr>mode := Normal, changedSignals := []\<rparr>))))))"
    if g1: "graph_inv \<sigma>1" for \<sigma>1
  proof -
    have "graph_inv (\<sigma>1\<lparr>mode := UpdatingDerivedSignals, derivationsBeingComputed := [],
                        freshDerivedSignals := []\<rparr>)"
      using g1 by (simp add: graph_inv_def adjacency_symmetric_def)
    from graph_inv_andThen [OF graph_inv_updateStaleSignals [OF this] 2]
    show ?thesis .
  qed
  show ?thesis
    unfolding updateState_def using True
    by (simp only: simp_thms if_False)
       (rule graph_inv_andThen [OF graph_inv_runBatch [OF keeps_graph_updateSignal s] 1])
qed

lemma graph_inv_finalize:
  "graph_inv \<sigma> \<Longrightarrow> graph_inv (world_of (finalize d \<sigma>))"
  by (simp add: finalize_def removeTrackerDependencies_ok graph_inv_unlinked)

lemma graph_inv_arrayState:
  "graph_inv \<sigma> \<Longrightarrow> graph_inv (world_of (arrayState v \<sigma>))"
proof -
  assume g: "graph_inv \<sigma>"
  let ?\<sigma>0 = "\<sigma>\<lparr>arrays := (arrays \<sigma>)(narrays \<sigma> := v), narrays := Suc (narrays \<sigma>),
                 nobjects := Suc (nobjects \<sigma>)\<rparr>"
  let ?s = "state (Obj (nobjects \<sigma>) \<lparr>changes = [], newLength = js_length v\<rparr>) ?\<sigma>0"
  have "graph_inv (world_of ?s)"
    using g by (intro graph_inv_state) simp
  then show ?thesis
    by (cases ?s) (simp_all add: arrayState_def)
qed

lemma graph_inv_mapArray:
  "graph_inv \<sigma> \<Longrightarrow> graph_inv (world_of (mapArray n A f \<sigma>))"
proof -
  assume g: "graph_inv \<sigma>"
  let ?\<sigma>0 = "\<sigma>\<lparr>arrays := (arrays \<sigma>)(narrays \<sigma> := js_map f (arrays \<sigma> (avalue A))),
                 narrays := Suc (narrays \<sigma>)\<rparr>"
  let ?d = "derive n (mapDerivation (narrays \<sigma>) (achanges A) f) ?\<sigma>0"
  have "graph_inv (world_of ?d)"
    using g by (intro graph_inv_derive) simp
  then show ?thesis
    by (cases ?d) (simp_all add: mapArray_def)
qed

lemma graph_inv_perform: "graph_inv \<sigma> \<Longrightarrow> graph_inv (perform n op \<sigma>)"
  using graph_inv_getValue [OF keeps_graph_updateSignal, of \<sigma> n]
    graph_inv_hasChanged [OF keeps_graph_updateSignal, of \<sigma> n]
  by (cases op)
     (simp_all add: perform_def graph_inv_state graph_inv_derive graph_inv_effect
        graph_inv_updateState graph_inv_runBatch [OF keeps_graph_updateSignal]
        graph_inv_arrayState graph_inv_mapArray graph_inv_finalize array_value_def)

lemma graph_inv_emptyWorld: "graph_inv emptyWorld"
  by (simp add: graph_inv_def adjacency_symmetric_def emptyWorld_def)

lemma reachable_graph_inv: "reachable \<sigma> \<Longrightarrow> graph_inv \<sigma>"
  by (induction rule: reachable.induct) (simp_all add: graph_inv_emptyWorld graph_inv_perform)

section \<open>The idempotent-recompute law\<close>

text \<open>
  The proof follows the phases of \<^verbatim>\<open>updateState\<close>.  While the batch callback runs
  (\<open>collecting\<close>), every derived tracker downstream of a changed state is in the stale
  set, and a registered derived tracker outside the stale set is consistent.  While
  derived trackers are resolved (\<open>resolving\<close>), a registered derived tracker is stale,
  on the stack, or consistent, and a fresh tracker stays as it is: a call of
  \<^verbatim>\<open>updateSignal\<close> that returns changes neither the states, nor the fresh trackers, nor
  the trackers that are pending (\<open>leaves\<close>), so what a running derivation has already
  read stays as it was read.  Dependencies are followed in whatever order the
  functions read them; a call that comes back to a pending tracker is on a cycle and
  does not return.  The loop ends with an empty stale set and an empty stack, and
  running the effects and clearing the flags changes no value.
\<close>

subsection \<open>Fresh evaluation\<close>

lemma strict_eq_plain: "plain v \<Longrightarrow> plain w \<Longrightarrow> strict_eq v w \<Longrightarrow> v = w"
  by (cases v; cases w) simp_all

lemma admits_in_place: "admits D v \<Longrightarrow> admits D (in_place callback v)"
  by (cases v) (simp_all add: admits_def)

lemma admits_Obj [simp]: "admits D (Obj i c)"
  by (simp add: admits_def)

lemma evaluatedFresh_depends:
  "pureOn D p \<Longrightarrow>
   \<forall>t \<in> valuesRead \<sigma> p. admits D (tvalue (trackers \<sigma> t))
        \<and> tvalue (trackers \<sigma>' t) = tvalue (trackers \<sigma> t) \<Longrightarrow>
   evaluatedFresh \<sigma>' p = evaluatedFresh \<sigma> p \<and> valuesRead \<sigma>' p = valuesRead \<sigma> p"
proof (induction p)
  case (GetValue t k)
  let ?w = "tvalue (trackers \<sigma> t)"
  have a: "admits D ?w" and e: "tvalue (trackers \<sigma>' t) = ?w"
    using GetValue.prems(2) by simp_all
  have "pureOn D (k ?w)" using GetValue.prems(1) a by simp
  moreover have "\<forall>u \<in> valuesRead \<sigma> (k ?w). admits D (tvalue (trackers \<sigma> u))
        \<and> tvalue (trackers \<sigma>' u) = tvalue (trackers \<sigma> u)"
    using GetValue.prems(2) by simp
  ultimately have "evaluatedFresh \<sigma>' (k ?w) = evaluatedFresh \<sigma> (k ?w)
      \<and> valuesRead \<sigma>' (k ?w) = valuesRead \<sigma> (k ?w)"
    using GetValue.IH [of "k ?w"] by simp
  then show ?case by (simp add: e)
qed simp_all

lemma evaluatedFresh_same_values:
  assumes "\<And>t. tvalue (trackers \<sigma>' t) = tvalue (trackers \<sigma> t)"
      and "\<And>t. hasChanged (trackers \<sigma>' t) = hasChanged (trackers \<sigma> t)"
      and "nobjects \<sigma>' = nobjects \<sigma>"
  shows "evaluatedFresh \<sigma>' p = evaluatedFresh \<sigma> p \<and> valuesRead \<sigma>' p = valuesRead \<sigma> p"
  by (induction p) (simp_all add: assms)

subsection \<open>Frames of a call of \<^verbatim>\<open>updateSignal\<close>\<close>

lemma leavesI:
  assumes "mode \<sigma>' = mode \<sigma>" "ntrackers \<sigma>' = ntrackers \<sigma>" "registry \<sigma>' = registry \<sigma>"
      and "derivationsBeingComputed \<sigma>' = derivationsBeingComputed \<sigma>"
      and "\<And>x. ttype (trackers \<sigma>' x) = ttype (trackers \<sigma> x)"
      and "\<And>x. func (trackers \<sigma>' x) = func (trackers \<sigma> x)"
      and "\<And>x. ttype (trackers \<sigma> x) = State \<Longrightarrow> tvalue (trackers \<sigma>' x) = tvalue (trackers \<sigma> x)"
      and "\<And>x. x \<in> set (freshDerivedSignals \<sigma>) \<Longrightarrow> x \<in> set (freshDerivedSignals \<sigma>')"
      and "\<And>x. x \<in> set (freshDerivedSignals \<sigma>) \<Longrightarrow>
             tvalue (trackers \<sigma>' x) = tvalue (trackers \<sigma> x)"
      and "\<And>p. p \<in> P \<Longrightarrow> tvalue (trackers \<sigma>' p) = tvalue (trackers \<sigma> p)"
      and "\<And>p. p \<in> P \<Longrightarrow> upstreamSignals (trackers \<sigma>' p) = upstreamSignals (trackers \<sigma> p)"
      and "\<And>p. p \<in> P \<Longrightarrow> p \<in> set (freshDerivedSignals \<sigma>') \<Longrightarrow>
             p \<in> set (freshDerivedSignals \<sigma>)"
      and "nobjects \<sigma>' = nobjects \<sigma>"
  shows "leaves P \<sigma> \<sigma>'"
  unfolding leaves_def using assms by blast

lemma leaves_basics:
  assumes "leaves P \<sigma> \<sigma>'"
  shows "mode \<sigma>' = mode \<sigma>" "ntrackers \<sigma>' = ntrackers \<sigma>" "registry \<sigma>' = registry \<sigma>"
    "derivationsBeingComputed \<sigma>' = derivationsBeingComputed \<sigma>"
    "nobjects \<sigma>' = nobjects \<sigma>"
  using assms by (simp_all add: leaves_def)

lemma leaves_type:
  assumes "leaves P \<sigma> \<sigma>'"
  shows "ttype (trackers \<sigma>' x) = ttype (trackers \<sigma> x)" "func (trackers \<sigma>' x) = func (trackers \<sigma> x)"
  using assms by (simp_all add: leaves_def)

lemma leaves_state:
  "leaves P \<sigma> \<sigma>' \<Longrightarrow> ttype (trackers \<sigma> x) = State \<Longrightarrow>
   tvalue (trackers \<sigma>' x) = tvalue (trackers \<sigma> x)"
  by (simp add: leaves_def)

lemma leaves_fresh:
  assumes "leaves P \<sigma> \<sigma>'" "x \<in> set (freshDerivedSignals \<sigma>)"
  shows "x \<in> set (freshDerivedSignals \<sigma>')" "tvalue (trackers \<sigma>' x) = tvalue (trackers \<sigma> x)"
  using assms by (simp_all add: leaves_def)

lemma leaves_pending:
  assumes "leaves P \<sigma> \<sigma>'" "p \<in> P"
  shows "tvalue (trackers \<sigma>' p) = tvalue (trackers \<sigma> p)"
    "upstreamSignals (trackers \<sigma>' p) = upstreamSignals (trackers \<sigma> p)"
    "p \<notin> set (freshDerivedSignals \<sigma>) \<Longrightarrow> p \<notin> set (freshDerivedSignals \<sigma>')"
  using assms unfolding leaves_def by blast+

lemma leaves_refl: "leaves P \<sigma> \<sigma>"
  by (rule leavesI) simp_all

lemma leaves_subset:
  assumes "leaves P \<sigma> \<sigma>'" "Q \<subseteq> P"
  shows "leaves Q \<sigma> \<sigma>'"
proof (rule leavesI)
  fix p assume "p \<in> Q"
  then have p: "p \<in> P" using assms(2) by auto
  show "tvalue (trackers \<sigma>' p) = tvalue (trackers \<sigma> p)"
    "upstreamSignals (trackers \<sigma>' p) = upstreamSignals (trackers \<sigma> p)"
    using leaves_pending(1,2) [OF assms(1) p] by simp_all
  show "p \<in> set (freshDerivedSignals \<sigma>') \<Longrightarrow> p \<in> set (freshDerivedSignals \<sigma>)"
    using leaves_pending(3) [OF assms(1) p] by auto
qed (simp_all add: leaves_basics [OF assms(1)] leaves_type [OF assms(1)]
      leaves_state [OF assms(1)] leaves_fresh [OF assms(1)])

lemma leaves_trans:
  assumes a: "leaves P \<sigma> \<sigma>1" and b: "leaves P \<sigma>1 \<sigma>2"
  shows "leaves P \<sigma> \<sigma>2"
proof (rule leavesI)
  fix x assume "ttype (trackers \<sigma> x) = State"
  then show "tvalue (trackers \<sigma>2 x) = tvalue (trackers \<sigma> x)"
    using leaves_state [OF a, of x] leaves_state [OF b, of x] leaves_type(1) [OF a, of x] by simp
next
  fix x assume "x \<in> set (freshDerivedSignals \<sigma>)"
  then show "x \<in> set (freshDerivedSignals \<sigma>2)" "tvalue (trackers \<sigma>2 x) = tvalue (trackers \<sigma> x)"
    using leaves_fresh [OF a, of x] leaves_fresh [OF b, of x] by simp_all
next
  fix p assume p: "p \<in> P"
  show "tvalue (trackers \<sigma>2 p) = tvalue (trackers \<sigma> p)"
    "upstreamSignals (trackers \<sigma>2 p) = upstreamSignals (trackers \<sigma> p)"
    using leaves_pending(1,2) [OF a p] leaves_pending(1,2) [OF b p] by simp_all
  show "p \<in> set (freshDerivedSignals \<sigma>2) \<Longrightarrow> p \<in> set (freshDerivedSignals \<sigma>)"
    using leaves_pending(3) [OF a p] leaves_pending(3) [OF b p] by auto
qed (simp_all add: leaves_basics [OF a] leaves_basics [OF b] leaves_type [OF a] leaves_type [OF b])

lemma leaves_add_fresh:
  assumes a: "leaves P \<sigma> \<sigma>'" and t: "t \<notin> P"
  shows "leaves P \<sigma> (\<sigma>'\<lparr>freshDerivedSignals := set_add t (freshDerivedSignals \<sigma>')\<rparr>)"
proof (rule leavesI)
  fix p assume p: "p \<in> P"
    "p \<in> set (freshDerivedSignals (\<sigma>'\<lparr>freshDerivedSignals := set_add t (freshDerivedSignals \<sigma>')\<rparr>))"
  then have "p \<in> set (freshDerivedSignals \<sigma>')" using t by auto
  then show "p \<in> set (freshDerivedSignals \<sigma>)"
    using leaves_pending(3) [OF a p(1)] by auto
qed (simp_all add: leaves_basics [OF a] leaves_type [OF a] leaves_state [OF a]
      leaves_fresh [OF a] leaves_pending(1,2) [OF a])

subsection \<open>Pending trackers\<close>

lemma leadsTo_leaves:
  assumes "leadsTo \<sigma> P t" "leaves P \<sigma> \<sigma>'"
  shows "leadsTo \<sigma>' P t"
  unfolding leadsTo_def
proof
  fix p assume p: "p \<in> P"
  have "ttype (trackers \<sigma> p) = Derived" "p \<notin> set (freshDerivedSignals \<sigma>)"
    "\<exists>q \<in> insert t P. q \<in> set (upstreamSignals (trackers \<sigma> p))"
    using assms(1) p unfolding leadsTo_def by blast+
  then show "ttype (trackers \<sigma>' p) = Derived \<and> p \<notin> set (freshDerivedSignals \<sigma>')
        \<and> (\<exists>q \<in> insert t P. q \<in> set (upstreamSignals (trackers \<sigma>' p)))"
    using leaves_pending [OF assms(2) p] leaves_type(1) [OF assms(2), of p] by simp
qed

lemma waiting_leaves:
  assumes "waiting \<sigma> P d" "leaves (P - {d}) \<sigma> \<sigma>'"
      and "d \<in> P \<Longrightarrow> d \<notin> set (freshDerivedSignals \<sigma>')"
  shows "waiting \<sigma>' P d"
  unfolding waiting_def
proof
  fix p assume p: "p \<in> P"
  have w: "ttype (trackers \<sigma> p) = Derived" "p \<notin> set (freshDerivedSignals \<sigma>)"
    "p = d \<or> (\<exists>q \<in> P. q \<in> set (upstreamSignals (trackers \<sigma> p)))"
    using assms(1) p unfolding waiting_def by blast+
  show "ttype (trackers \<sigma>' p) = Derived \<and> p \<notin> set (freshDerivedSignals \<sigma>')
        \<and> (p = d \<or> (\<exists>q \<in> P. q \<in> set (upstreamSignals (trackers \<sigma>' p))))"
  proof (cases "p = d")
    case True
    then show ?thesis using w assms(3) p leaves_type(1) [OF assms(2), of p] by simp
  next
    case False
    then have "p \<in> P - {d}" using p by simp
    from leaves_pending [OF assms(2) this] show ?thesis
      using w False leaves_type(1) [OF assms(2), of p] by simp
  qed
qed

lemma waiting_leadsTo:
  assumes "waiting \<sigma> P d" "d \<in> P \<Longrightarrow> t \<in> set (upstreamSignals (trackers \<sigma> d))"
  shows "leadsTo \<sigma> P t"
  unfolding leadsTo_def
proof
  fix p assume p: "p \<in> P"
  have w: "ttype (trackers \<sigma> p) = Derived" "p \<notin> set (freshDerivedSignals \<sigma>)"
    "p = d \<or> (\<exists>q \<in> P. q \<in> set (upstreamSignals (trackers \<sigma> p)))"
    using assms(1) p unfolding waiting_def by blast+
  have "\<exists>q \<in> insert t P. q \<in> set (upstreamSignals (trackers \<sigma> p))"
  proof (cases "p = d")
    case True
    then show ?thesis using assms(2) p by auto
  next
    case False
    then show ?thesis using w(3) by auto
  qed
  then show "ttype (trackers \<sigma> p) = Derived \<and> p \<notin> set (freshDerivedSignals \<sigma>)
        \<and> (\<exists>q \<in> insert t P. q \<in> set (upstreamSignals (trackers \<sigma> p)))"
    using w by simp
qed

lemma leadsTo_waiting:
  assumes "leadsTo \<sigma> P t" "ttype (trackers \<sigma> t) = Derived" "t \<notin> set (freshDerivedSignals \<sigma>)"
  shows "waiting \<sigma> (insert t P) t"
  unfolding waiting_def
proof
  fix p assume p: "p \<in> insert t P"
  show "ttype (trackers \<sigma> p) = Derived \<and> p \<notin> set (freshDerivedSignals \<sigma>)
        \<and> (p = t \<or> (\<exists>q \<in> insert t P. q \<in> set (upstreamSignals (trackers \<sigma> p))))"
  proof (cases "p = t")
    case True
    then show ?thesis using assms(2,3) by simp
  next
    case False
    then have "p \<in> P" using p by simp
    then show ?thesis using assms(1) unfolding leadsTo_def by blast
  qed
qed

subsection \<open>Well-formed graphs and linking\<close>

lemma wellFormedI:
  assumes "graph_inv \<sigma>"
      and "\<And>t. readable \<sigma> t \<Longrightarrow> admits D (tvalue (trackers \<sigma> t))"
      and "\<And>d. d < ntrackers \<sigma> \<Longrightarrow> ttype (trackers \<sigma> d) = Derived \<Longrightarrow>
             plain (tvalue (trackers \<sigma> d))"
      and "\<And>d. d < ntrackers \<sigma> \<Longrightarrow> ttype (trackers \<sigma> d) = Derived \<Longrightarrow>
             pureOn D (func (trackers \<sigma> d))"
      and "\<And>d u. u \<in> set (upstreamSignals (trackers \<sigma> d)) \<Longrightarrow> ttype (trackers \<sigma> d) = Derived"
      and "\<And>d. d \<in> set (registry \<sigma>) \<Longrightarrow> d < ntrackers \<sigma>"
      and "\<And>d. d \<in> set (registry \<sigma>) \<Longrightarrow> ttype (trackers \<sigma> d) = Derived"
      and "\<And>d. d \<in> set (staleDerivedSignals \<sigma>) \<Longrightarrow> ttype (trackers \<sigma> d) = Derived"
      and "\<And>t. hasChanged (trackers \<sigma> t) \<Longrightarrow> t \<in> set (changedSignals \<sigma>)"
  shows "wellFormed D \<sigma>"
  unfolding wellFormed_def using assms by blast

lemma wf_graph: "wellFormed D \<sigma> \<Longrightarrow> graph_inv \<sigma>"
  by (simp add: wellFormed_def)

lemma wf_admits: "wellFormed D \<sigma> \<Longrightarrow> readable \<sigma> t \<Longrightarrow> admits D (tvalue (trackers \<sigma> t))"
  by (simp add: wellFormed_def)

lemma wf_derived:
  assumes "wellFormed D \<sigma>" "d < ntrackers \<sigma>" "ttype (trackers \<sigma> d) = Derived"
  shows "plain (tvalue (trackers \<sigma> d))" "pureOn D (func (trackers \<sigma> d))"
  using assms by (simp_all add: wellFormed_def)

lemma wf_sym:
  "wellFormed D \<sigma> \<Longrightarrow>
   (a \<in> set (upstreamSignals (trackers \<sigma> b))) = (b \<in> set (downstreamSignals (trackers \<sigma> a)))"
  by (simp add: wellFormed_def graph_inv_def adjacency_symmetric_def)

lemma wf_down:
  assumes "wellFormed D \<sigma>" "x \<in> set (downstreamSignals (trackers \<sigma> a))"
  shows "ttype (trackers \<sigma> x) = Derived" "x < ntrackers \<sigma>" "a < ntrackers \<sigma>"
proof -
  have "a \<in> set (upstreamSignals (trackers \<sigma> x))"
    using assms wf_sym [OF assms(1), of a x] by simp
  then show "ttype (trackers \<sigma> x) = Derived"
    using assms(1) unfolding wellFormed_def by blast
  show "x < ntrackers \<sigma>" "a < ntrackers \<sigma>"
    using graph_inv_downstream_bound [OF wf_graph [OF assms(1)] assms(2)] by simp_all
qed

lemma wf_up:
  assumes "wellFormed D \<sigma>" "u \<in> set (upstreamSignals (trackers \<sigma> d))"
  shows "ttype (trackers \<sigma> d) = Derived" "d < ntrackers \<sigma>" "u < ntrackers \<sigma>"
    "admits D (tvalue (trackers \<sigma> u))"
proof -
  have "d \<in> set (downstreamSignals (trackers \<sigma> u))"
    using assms wf_sym [OF assms(1), of u d] by simp
  from wf_down [OF assms(1) this]
  show "ttype (trackers \<sigma> d) = Derived" "d < ntrackers \<sigma>" "u < ntrackers \<sigma>" by simp_all
  have "readable \<sigma> u" using assms(2) unfolding readable_def by blast
  then show "admits D (tvalue (trackers \<sigma> u))" using wf_admits [OF assms(1)] by simp
qed

lemma wf_registry:
  assumes "wellFormed D \<sigma>" "d \<in> set (registry \<sigma>)"
  shows "d < ntrackers \<sigma>" "ttype (trackers \<sigma> d) = Derived"
  using assms unfolding wellFormed_def by blast+

lemma wf_stale:
  assumes "wellFormed D \<sigma>" "d \<in> set (staleDerivedSignals \<sigma>)"
  shows "d < ntrackers \<sigma>" "ttype (trackers \<sigma> d) = Derived"
  using assms graph_inv_stale_bound [OF wf_graph [OF assms(1)], of d]
  unfolding wellFormed_def by blast+

lemma wf_flags: "wellFormed D \<sigma> \<Longrightarrow> hasChanged (trackers \<sigma> t) \<Longrightarrow> t \<in> set (changedSignals \<sigma>)"
  by (simp add: wellFormed_def)

lemma readable_cases:
  assumes "readable \<sigma>' t"
      and "ntrackers \<sigma>' = ntrackers \<sigma>" "set (registry \<sigma>') \<subseteq> set (registry \<sigma>)"
      and "\<And>x. ttype (trackers \<sigma>' x) = ttype (trackers \<sigma> x)"
      and "\<And>x. set (upstreamSignals (trackers \<sigma>' x)) \<subseteq> set (upstreamSignals (trackers \<sigma> x))"
  shows "readable \<sigma> t"
proof -
  from assms(1) consider "isStateHandle t \<sigma>'" | "isDerivedHandle t \<sigma>'"
    | x where "t \<in> set (upstreamSignals (trackers \<sigma>' x))"
    unfolding readable_def by blast
  then show ?thesis
  proof cases
    case 1
    then have "isStateHandle t \<sigma>" using assms(2,4) by (simp add: isStateHandle_def)
    then show ?thesis by (simp add: readable_def)
  next
    case 2
    then have "isDerivedHandle t \<sigma>" using assms(2,3,4) by (auto simp: isDerivedHandle_def)
    then show ?thesis by (simp add: readable_def)
  next
    case 3
    then have "t \<in> set (upstreamSignals (trackers \<sigma> x))" using assms(5) by blast
    then show ?thesis unfolding readable_def by blast
  qed
qed

lemma consistent_depends:
  assumes w: "wellFormed D \<sigma>"
      and d: "d < ntrackers \<sigma>" "ttype (trackers \<sigma> d) = Derived"
      and c: "consistent \<sigma> d"
      and f: "func (trackers \<sigma>' d) = func (trackers \<sigma> d)"
      and v: "tvalue (trackers \<sigma>' d) = tvalue (trackers \<sigma> d)"
      and u: "set (upstreamSignals (trackers \<sigma> d)) \<subseteq> set (upstreamSignals (trackers \<sigma>' d))"
      and s: "\<And>t. t \<in> set (upstreamSignals (trackers \<sigma> d)) \<Longrightarrow>
                tvalue (trackers \<sigma>' t) = tvalue (trackers \<sigma> t)"
  shows "consistent \<sigma>' d"
proof -
  have "\<forall>t \<in> valuesRead \<sigma> (func (trackers \<sigma> d)). admits D (tvalue (trackers \<sigma> t))
          \<and> tvalue (trackers \<sigma>' t) = tvalue (trackers \<sigma> t)"
  proof
    fix t assume "t \<in> valuesRead \<sigma> (func (trackers \<sigma> d))"
    then have t: "t \<in> set (upstreamSignals (trackers \<sigma> d))"
      using c by (auto simp: consistent_def)
    show "admits D (tvalue (trackers \<sigma> t)) \<and> tvalue (trackers \<sigma>' t) = tvalue (trackers \<sigma> t)"
      using wf_up(4) [OF w t] s [OF t] by simp
  qed
  from evaluatedFresh_depends [OF wf_derived(2) [OF w d] this] show ?thesis
    using c f v u by (auto simp: consistent_def)
qed

lemma wellFormed_transfer:
  assumes w: "wellFormed D \<sigma>"
      and t: "\<And>x. tvalue (trackers \<sigma>' x) = tvalue (trackers \<sigma> x)"
             "\<And>x. func (trackers \<sigma>' x) = func (trackers \<sigma> x)"
             "\<And>x. ttype (trackers \<sigma>' x) = ttype (trackers \<sigma> x)"
             "\<And>x. upstreamSignals (trackers \<sigma>' x) = upstreamSignals (trackers \<sigma> x)"
             "\<And>x. downstreamSignals (trackers \<sigma>' x) = downstreamSignals (trackers \<sigma> x)"
      and n: "ntrackers \<sigma>' = ntrackers \<sigma>"
      and r: "set (registry \<sigma>') \<subseteq> set (registry \<sigma>)"
      and s: "set (staleDerivedSignals \<sigma>') \<subseteq> set (staleDerivedSignals \<sigma>)"
      and k: "set (derivationsBeingComputed \<sigma>') \<subseteq> set (derivationsBeingComputed \<sigma>)"
      and f: "\<And>x. hasChanged (trackers \<sigma>' x) \<Longrightarrow> x \<in> set (changedSignals \<sigma>')"
  shows "wellFormed D \<sigma>'"
proof (rule wellFormedI)
  have g: "graph_inv \<sigma>" using wf_graph [OF w] .
  show "graph_inv \<sigma>'"
    unfolding graph_inv_def adjacency_symmetric_def
  proof (intro conjI allI ballI impI)
    fix a b
    show "(a \<in> set (upstreamSignals (trackers \<sigma>' b))) = (b \<in> set (downstreamSignals (trackers \<sigma>' a)))"
      using g by (simp add: t graph_inv_def adjacency_symmetric_def)
  next
    fix d show "distinct (upstreamSignals (trackers \<sigma>' d))"
      using g by (simp add: t graph_inv_def)
  next
    fix a x assume "x \<in> set (downstreamSignals (trackers \<sigma>' a))"
    then show "a < ntrackers \<sigma>'" "x < ntrackers \<sigma>'"
      using graph_inv_downstream_bound [OF g, of x a] by (simp_all add: t n)
  next
    fix x assume "x \<in> set (staleDerivedSignals \<sigma>')"
    then show "x < ntrackers \<sigma>'" using graph_inv_stale_bound [OF g, of x] s n by auto
  next
    fix x assume "x \<in> set (derivationsBeingComputed \<sigma>')"
    then have "x \<in> set (derivationsBeingComputed \<sigma>)" using k by auto
    then show "x < ntrackers \<sigma>'" using g n by (simp add: graph_inv_def)
  qed
next
  fix x assume "readable \<sigma>' x"
  then have "readable \<sigma> x"
    by (rule readable_cases) (simp_all add: n r t)
  then show "admits D (tvalue (trackers \<sigma>' x))" using wf_admits [OF w] by (simp add: t)
next
  fix x assume "x < ntrackers \<sigma>'" "ttype (trackers \<sigma>' x) = Derived"
  then show "plain (tvalue (trackers \<sigma>' x))" "pureOn D (func (trackers \<sigma>' x))"
    using wf_derived [OF w, of x] by (simp_all add: t n)
next
  fix x y assume "y \<in> set (upstreamSignals (trackers \<sigma>' x))"
  then show "ttype (trackers \<sigma>' x) = Derived"
    using wf_up(1) [OF w, of y x] by (simp add: t)
next
  fix x assume "x \<in> set (registry \<sigma>')"
  then have "x \<in> set (registry \<sigma>)" using r by auto
  then show "x < ntrackers \<sigma>'" "ttype (trackers \<sigma>' x) = Derived"
    using wf_registry [OF w, of x] by (simp_all add: t n)
next
  fix x assume "x \<in> set (staleDerivedSignals \<sigma>')"
  then have "x \<in> set (staleDerivedSignals \<sigma>)" using s by auto
  then show "ttype (trackers \<sigma>' x) = Derived"
    using wf_stale(2) [OF w, of x] by (simp add: t)
next
  fix x assume "hasChanged (trackers \<sigma>' x)"
  then show "x \<in> set (changedSignals \<sigma>')" by (rule f)
qed

lemma consistent_transfer:
  assumes w: "wellFormed D \<sigma>" and d: "d \<in> set (registry \<sigma>)" and c: "consistent \<sigma> d"
      and t: "\<And>x. tvalue (trackers \<sigma>' x) = tvalue (trackers \<sigma> x)"
             "func (trackers \<sigma>' d) = func (trackers \<sigma> d)"
             "upstreamSignals (trackers \<sigma>' d) = upstreamSignals (trackers \<sigma> d)"
  shows "consistent \<sigma>' d"
  by (rule consistent_depends [OF w wf_registry [OF w d] c]) (simp_all add: t)

lemma hdl_fields [simp]:
  "mode (handleDerivationLinking t \<sigma>) = mode \<sigma>"
  "changedSignals (handleDerivationLinking t \<sigma>) = changedSignals \<sigma>"
  "staleDerivedSignals (handleDerivationLinking t \<sigma>) = staleDerivedSignals \<sigma>"
  "staleEffects (handleDerivationLinking t \<sigma>) = staleEffects \<sigma>"
  "freshDerivedSignals (handleDerivationLinking t \<sigma>) = freshDerivedSignals \<sigma>"
  "derivationsBeingComputed (handleDerivationLinking t \<sigma>) = derivationsBeingComputed \<sigma>"
  "registry (handleDerivationLinking t \<sigma>) = registry \<sigma>"
  "nobjects (handleDerivationLinking t \<sigma>) = nobjects \<sigma>"
  by (simp_all add: handleDerivationLinking_def split: option.splits)

lemma hdl_tracker_fields [simp]:
  "tvalue (trackers (handleDerivationLinking t \<sigma>) x) = tvalue (trackers \<sigma> x)"
  "ttype (trackers (handleDerivationLinking t \<sigma>) x) = ttype (trackers \<sigma> x)"
  "func (trackers (handleDerivationLinking t \<sigma>) x) = func (trackers \<sigma> x)"
  "hasChanged (trackers (handleDerivationLinking t \<sigma>) x) = hasChanged (trackers \<sigma> x)"
  by (simp_all add: handleDerivationLinking_def upd_tracker_def split: option.splits)

lemma hdl_handles [simp]:
  "isStateHandle x (handleDerivationLinking t \<sigma>) = isStateHandle x \<sigma>"
  "isDerivedHandle x (handleDerivationLinking t \<sigma>) = isDerivedHandle x \<sigma>"
  by (simp_all add: isStateHandle_def isDerivedHandle_def)

lemma top_of_stack:
  "mode \<sigma> = CreatingDerivedSignal \<or> mode \<sigma> = UpdatingDerivedSignals \<Longrightarrow>
   derivationsBeingComputed \<sigma> = ks @ [d] \<Longrightarrow> getDerivationBeingComputed \<sigma> = Some d"
  by (auto simp: getDerivationBeingComputed_def)

lemma hdl_upstream:
  assumes "getDerivationBeingComputed \<sigma> = Some d"
  shows "set (upstreamSignals (trackers (handleDerivationLinking t \<sigma>) x)) =
         (if x = d then insert t (set (upstreamSignals (trackers \<sigma> x)))
          else set (upstreamSignals (trackers \<sigma> x)))"
  using assms by (simp add: handleDerivationLinking_def upd_tracker_def)

lemma hdl_upstream_other:
  assumes "getDerivationBeingComputed \<sigma> = Some d" "x \<noteq> d"
  shows "upstreamSignals (trackers (handleDerivationLinking t \<sigma>) x) = upstreamSignals (trackers \<sigma> x)"
  using assms by (simp add: handleDerivationLinking_def upd_tracker_def)

lemma hdl_none:
  "getDerivationBeingComputed \<sigma> = None \<Longrightarrow> handleDerivationLinking t \<sigma> = \<sigma>"
  by (simp add: handleDerivationLinking_def)

lemma consistent_hdl:
  assumes "getDerivationBeingComputed \<sigma> \<noteq> Some x"
  shows "consistent (handleDerivationLinking t \<sigma>) x = consistent \<sigma> x"
proof (cases "getDerivationBeingComputed \<sigma>")
  case None
  then show ?thesis by (simp add: hdl_none)
next
  case (Some d')
  have "evaluatedFresh (handleDerivationLinking t \<sigma>) p = evaluatedFresh \<sigma> p
        \<and> valuesRead (handleDerivationLinking t \<sigma>) p = valuesRead \<sigma> p" for p
    by (rule evaluatedFresh_same_values) simp_all
  then show ?thesis
    using assms Some by (simp add: consistent_def hdl_upstream [OF Some])
qed

lemma wellFormed_hdl:
  assumes w: "wellFormed D \<sigma>" and t: "isStateHandle t \<sigma> \<or> isDerivedHandle t \<sigma>"
      and k: "\<forall>d. getDerivationBeingComputed \<sigma> = Some d \<longrightarrow> ttype (trackers \<sigma> d) = Derived"
  shows "wellFormed D (handleDerivationLinking t \<sigma>)"
proof (cases "getDerivationBeingComputed \<sigma>")
  case None
  then show ?thesis using w by (simp add: hdl_none)
next
  case (Some d)
  have tn: "t < ntrackers \<sigma>" using t by (auto simp: isStateHandle_def isDerivedHandle_def)
  have rt: "readable \<sigma> t" using t unfolding readable_def by blast
  show ?thesis
  proof (rule wellFormedI)
    show "graph_inv (handleDerivationLinking t \<sigma>)"
      using graph_inv_handleDerivationLinking [OF wf_graph [OF w] tn] .
  next
    fix x assume "readable (handleDerivationLinking t \<sigma>) x"
    then have "readable \<sigma> x \<or> x = t"
      unfolding readable_def by (auto simp: hdl_upstream [OF Some] split: if_splits)
    then show "admits D (tvalue (trackers (handleDerivationLinking t \<sigma>) x))"
      using wf_admits [OF w] rt by auto
  next
    fix x u assume "u \<in> set (upstreamSignals (trackers (handleDerivationLinking t \<sigma>) x))"
    then have "u \<in> set (upstreamSignals (trackers \<sigma> x)) \<or> (x = d \<and> u = t)"
      by (auto simp: hdl_upstream [OF Some] split: if_splits)
    then show "ttype (trackers (handleDerivationLinking t \<sigma>) x) = Derived"
      using wf_up(1) [OF w, of u x] k Some by auto
  qed (insert w, simp_all add: wf_derived wf_registry wf_stale wf_flags)
qed

subsection \<open>Reading a value while derived trackers are resolved\<close>

lemma resolvingI:
  assumes "mode \<sigma> = UpdatingDerivedSignals" "wellFormed D \<sigma>"
      and "\<And>d. d \<in> set (derivationsBeingComputed \<sigma>) \<Longrightarrow> ttype (trackers \<sigma> d) = Derived"
      and "\<And>d. d \<in> set (registry \<sigma>) \<Longrightarrow> d \<notin> set (staleDerivedSignals \<sigma>) \<Longrightarrow>
             d \<notin> set (derivationsBeingComputed \<sigma>) \<Longrightarrow> consistent \<sigma> d"
      and "\<And>x. x \<in> set (freshDerivedSignals \<sigma>) \<Longrightarrow> x \<notin> set (staleDerivedSignals \<sigma>)"
      and "\<And>x u. x \<in> set (freshDerivedSignals \<sigma>) \<Longrightarrow> u \<in> set (upstreamSignals (trackers \<sigma> x)) \<Longrightarrow>
             ttype (trackers \<sigma> u) = Derived \<Longrightarrow> u \<in> set (freshDerivedSignals \<sigma>)"
  shows "resolving D \<sigma>"
  unfolding resolving_def using assms by blast

lemma resolving_mode: "resolving D \<sigma> \<Longrightarrow> mode \<sigma> = UpdatingDerivedSignals"
  by (simp add: resolving_def)

lemma resolving_wf: "resolving D \<sigma> \<Longrightarrow> wellFormed D \<sigma>"
  by (simp add: resolving_def)

lemma resolving_stack:
  assumes "resolving D \<sigma>" "d \<in> set (derivationsBeingComputed \<sigma>)"
  shows "ttype (trackers \<sigma> d) = Derived" "d < ntrackers \<sigma>"
  using assms wf_graph [OF resolving_wf [OF assms(1)]]
  by (auto simp: resolving_def graph_inv_def)

lemma resolving_consistent:
  "resolving D \<sigma> \<Longrightarrow> d \<in> set (registry \<sigma>) \<Longrightarrow> d \<notin> set (staleDerivedSignals \<sigma>) \<Longrightarrow>
   d \<notin> set (derivationsBeingComputed \<sigma>) \<Longrightarrow> consistent \<sigma> d"
  unfolding resolving_def by blast

lemma resolving_fresh:
  assumes "resolving D \<sigma>" "x \<in> set (freshDerivedSignals \<sigma>)"
  shows "x \<notin> set (staleDerivedSignals \<sigma>)"
    "u \<in> set (upstreamSignals (trackers \<sigma> x)) \<Longrightarrow> ttype (trackers \<sigma> u) = Derived \<Longrightarrow>
     u \<in> set (freshDerivedSignals \<sigma>)"
  using assms unfolding resolving_def by blast+

lemma resolvesD:
  assumes "resolves D upd" "resolving D \<sigma>" "leadsTo \<sigma> P t" "t < ntrackers \<sigma>"
      and "ttype (trackers \<sigma> t) = Derived" "upd t \<sigma> = Ok () \<sigma>'"
  shows "resolving D \<sigma>'" "leaves P \<sigma> \<sigma>'" "t \<in> set (freshDerivedSignals \<sigma>')" "t \<notin> P"
  using assms unfolding resolves_def by blast+

lemma resolving_hdl:
  assumes r: "resolving D \<sigma>" and k: "derivationsBeingComputed \<sigma> = ks @ [d]"
      and t: "isStateHandle t \<sigma> \<or> isDerivedHandle t \<sigma>"
      and nf: "d \<notin> set (freshDerivedSignals \<sigma>)"
  shows "resolving D (handleDerivationLinking t \<sigma>)"
    and "d \<notin> Q \<Longrightarrow> leaves Q \<sigma> (handleDerivationLinking t \<sigma>)"
    and "set (upstreamSignals (trackers (handleDerivationLinking t \<sigma>) d))
           = insert t (set (upstreamSignals (trackers \<sigma> d)))"
proof -
  have top: "getDerivationBeingComputed \<sigma> = Some d"
    using top_of_stack [OF _ k] resolving_mode [OF r] by simp
  have d: "ttype (trackers \<sigma> d) = Derived" "d < ntrackers \<sigma>"
    using resolving_stack [OF r, of d] k by simp_all
  have w: "wellFormed D (handleDerivationLinking t \<sigma>)"
    using wellFormed_hdl [OF resolving_wf [OF r] t] top d by simp
  show "resolving D (handleDerivationLinking t \<sigma>)"
  proof (rule resolvingI)
    fix x assume "x \<in> set (registry (handleDerivationLinking t \<sigma>))"
      "x \<notin> set (staleDerivedSignals (handleDerivationLinking t \<sigma>))"
      "x \<notin> set (derivationsBeingComputed (handleDerivationLinking t \<sigma>))"
    then have "consistent \<sigma> x" "x \<noteq> d"
      using resolving_consistent [OF r, of x] k by auto
    then show "consistent (handleDerivationLinking t \<sigma>) x"
      using consistent_hdl [of \<sigma> x t] top by simp
  next
    fix x assume "x \<in> set (freshDerivedSignals (handleDerivationLinking t \<sigma>))"
    then show "x \<notin> set (staleDerivedSignals (handleDerivationLinking t \<sigma>))"
      using resolving_fresh(1) [OF r, of x] by simp
  next
    fix x u assume x: "x \<in> set (freshDerivedSignals (handleDerivationLinking t \<sigma>))"
      and u: "u \<in> set (upstreamSignals (trackers (handleDerivationLinking t \<sigma>) x))"
        "ttype (trackers (handleDerivationLinking t \<sigma>) u) = Derived"
    have "x \<noteq> d" using x nf by auto
    then have "u \<in> set (upstreamSignals (trackers \<sigma> x))"
      using u(1) by (simp add: hdl_upstream_other [OF top])
    then show "u \<in> set (freshDerivedSignals (handleDerivationLinking t \<sigma>))"
      using resolving_fresh(2) [OF r, of x u] x u(2) by simp
  qed (insert r w, simp_all add: resolving_mode resolving_stack)
  show "leaves Q \<sigma> (handleDerivationLinking t \<sigma>)" if "d \<notin> Q"
  proof (rule leavesI)
    fix p assume "p \<in> Q"
    then have "p \<noteq> d" using that by auto
    then show "upstreamSignals (trackers (handleDerivationLinking t \<sigma>) p)
               = upstreamSignals (trackers \<sigma> p)"
      by (simp add: hdl_upstream_other [OF top])
  qed simp_all
  show "set (upstreamSignals (trackers (handleDerivationLinking t \<sigma>) d))
           = insert t (set (upstreamSignals (trackers \<sigma> d)))"
    by (simp add: hdl_upstream [OF top])
qed

lemma waiting_top:
  assumes "waiting \<sigma> P d" "d \<in> P"
  shows "d \<notin> set (freshDerivedSignals \<sigma>)" "ttype (trackers \<sigma> d) = Derived"
  using assms unfolding waiting_def by blast+

lemma getValue_resolving:
  assumes upd: "resolves D upd" and r: "resolving D \<sigma>"
      and k: "derivationsBeingComputed \<sigma> = ks @ [d]"
      and w: "waiting \<sigma> P d" and dP: "d \<in> P"
      and g: "getValue upd t \<sigma> = Ok v \<sigma>'"
  shows "resolving D \<sigma>' \<and> leaves (P - {d}) \<sigma> \<sigma>'
         \<and> tvalue (trackers \<sigma>' d) = tvalue (trackers \<sigma> d)
         \<and> d \<notin> set (freshDerivedSignals \<sigma>')
         \<and> set (upstreamSignals (trackers \<sigma>' d)) = insert t (set (upstreamSignals (trackers \<sigma> d)))
         \<and> v = tvalue (trackers \<sigma>' t) \<and> admits D v
         \<and> (ttype (trackers \<sigma> t) = State \<or> t \<in> set (freshDerivedSignals \<sigma>'))"
proof -
  let ?\<sigma>1 = "handleDerivationLinking t \<sigma>"
  note nf = waiting_top(1) [OF w dP]
  have th: "isStateHandle t \<sigma> \<or> isDerivedHandle t \<sigma>"
    using g by (auto simp: getValue_def split: if_splits)
  have h: "resolving D ?\<sigma>1" "leaves (P - {d}) \<sigma> ?\<sigma>1"
    "set (upstreamSignals (trackers ?\<sigma>1 d)) = insert t (set (upstreamSignals (trackers \<sigma> d)))"
    using resolving_hdl(1) [OF r k th nf] resolving_hdl(2) [OF r k th nf, of "P - {d}"]
      resolving_hdl(3) [OF r k th nf] by simp_all
  have m: "mode \<sigma> = UpdatingDerivedSignals"
    using r by (rule resolving_mode)
  have rt: "readable \<sigma> t" using th unfolding readable_def by blast
  show ?thesis
  proof (cases "isStateHandle t \<sigma>")
    case True
    then have "\<sigma>' = ?\<sigma>1" "v = tvalue (trackers \<sigma> t)"
      using g by (simp_all add: getValue_def)
    then show ?thesis
      using h True nf wf_admits [OF resolving_wf [OF r] rt] by (simp add: isStateHandle_def)
  next
    case False
    then have dh: "isDerivedHandle t \<sigma>" using th by simp
    obtain \<sigma>2 where u: "upd t ?\<sigma>1 = Ok () \<sigma>2" and e: "\<sigma>' = \<sigma>2" "v = tvalue (trackers \<sigma>2 t)"
      using g False dh m by (auto simp: getValue_def split: result.splits)
    have w1: "waiting ?\<sigma>1 P d"
      using waiting_leaves [OF w h(2)] nf by simp
    have l1: "leadsTo ?\<sigma>1 P t"
      using waiting_leadsTo [OF w1] h(3) by simp
    have tt: "t < ntrackers ?\<sigma>1" "ttype (trackers ?\<sigma>1 t) = Derived"
      using dh by (simp_all add: isDerivedHandle_def)
    note s = resolvesD [OF upd h(1) l1 tt u]
    have la: "leaves (P - {d}) \<sigma> \<sigma>2"
      using leaves_trans [OF h(2) leaves_subset [OF s(2)]] by auto
    have pd: "tvalue (trackers \<sigma>2 d) = tvalue (trackers ?\<sigma>1 d)"
      "upstreamSignals (trackers \<sigma>2 d) = upstreamSignals (trackers ?\<sigma>1 d)"
      "d \<notin> set (freshDerivedSignals \<sigma>2)"
      using leaves_pending [OF s(2) dP] nf by simp_all
    have "isDerivedHandle t \<sigma>2"
      using dh leaves_basics [OF la] leaves_type(1) [OF la, of t] by (simp add: isDerivedHandle_def)
    then have "readable \<sigma>2 t" unfolding readable_def by blast
    then have "admits D (tvalue (trackers \<sigma>2 t))"
      using wf_admits [OF resolving_wf [OF s(1)]] by simp
    then show ?thesis
      using s(1) la s(3) e h(3) pd by simp
  qed
qed

lemma run_resolving:
  assumes upd: "resolves D upd"
  shows "resolving D \<sigma> \<Longrightarrow> derivationsBeingComputed \<sigma> = ks @ [d] \<Longrightarrow> waiting \<sigma> P d \<Longrightarrow>
         d \<in> P \<Longrightarrow> pureOn D p \<Longrightarrow> run upd p \<sigma> = Ok v \<sigma>' \<Longrightarrow>
         resolving D \<sigma>' \<and> leaves (P - {d}) \<sigma> \<sigma>'
         \<and> tvalue (trackers \<sigma>' d) = tvalue (trackers \<sigma> d)
         \<and> d \<notin> set (freshDerivedSignals \<sigma>')
         \<and> set (upstreamSignals (trackers \<sigma> d)) \<subseteq> set (upstreamSignals (trackers \<sigma>' d))
         \<and> (\<forall>u \<in> set (upstreamSignals (trackers \<sigma>' d)).
               u \<in> set (upstreamSignals (trackers \<sigma> d)) \<or> ttype (trackers \<sigma>' u) = State
               \<or> u \<in> set (freshDerivedSignals \<sigma>'))
         \<and> evaluatedFresh \<sigma>' p = Some v
         \<and> valuesRead \<sigma>' p \<subseteq> set (upstreamSignals (trackers \<sigma>' d))
         \<and> (\<forall>u \<in> valuesRead \<sigma>' p. ttype (trackers \<sigma>' u) = State
               \<or> u \<in> set (freshDerivedSignals \<sigma>'))
         \<and> plain v \<and> D v"
proof (induction p arbitrary: \<sigma>)
  case (Return x)
  then show ?case using waiting_top(1) [OF Return.prems(3,4)] by (auto simp: leaves_refl)
next
  case (GetValue t k)
  obtain w \<sigma>1 where g: "getValue upd t \<sigma> = Ok w \<sigma>1" and c: "run upd (k w) \<sigma>1 = Ok v \<sigma>'"
    using GetValue.prems(6) by (auto split: result.splits)
  have b: "resolving D \<sigma>1" "leaves (P - {d}) \<sigma> \<sigma>1"
       "tvalue (trackers \<sigma>1 d) = tvalue (trackers \<sigma> d)"
       "d \<notin> set (freshDerivedSignals \<sigma>1)"
       "set (upstreamSignals (trackers \<sigma>1 d)) = insert t (set (upstreamSignals (trackers \<sigma> d)))"
       "w = tvalue (trackers \<sigma>1 t)" "admits D w"
       "ttype (trackers \<sigma> t) = State \<or> t \<in> set (freshDerivedSignals \<sigma>1)"
    using getValue_resolving [OF upd GetValue.prems(1,2,3,4) g] by blast+
  have k1: "derivationsBeingComputed \<sigma>1 = ks @ [d]"
    using leaves_basics(4) [OF b(2)] GetValue.prems(2) by simp
  have w1: "waiting \<sigma>1 P d"
    using waiting_leaves [OF GetValue.prems(3) b(2)] b(4) by simp
  have pk: "pureOn D (k w)"
    using GetValue.prems(5) b(7) by simp
  have ih: "resolving D \<sigma>'" "leaves (P - {d}) \<sigma>1 \<sigma>'"
         "tvalue (trackers \<sigma>' d) = tvalue (trackers \<sigma>1 d)"
         "d \<notin> set (freshDerivedSignals \<sigma>')"
         "set (upstreamSignals (trackers \<sigma>1 d)) \<subseteq> set (upstreamSignals (trackers \<sigma>' d))"
         "\<forall>u \<in> set (upstreamSignals (trackers \<sigma>' d)).
               u \<in> set (upstreamSignals (trackers \<sigma>1 d)) \<or> ttype (trackers \<sigma>' u) = State
               \<or> u \<in> set (freshDerivedSignals \<sigma>')"
         "evaluatedFresh \<sigma>' (k w) = Some v"
         "valuesRead \<sigma>' (k w) \<subseteq> set (upstreamSignals (trackers \<sigma>' d))"
         "\<forall>u \<in> valuesRead \<sigma>' (k w). ttype (trackers \<sigma>' u) = State
               \<or> u \<in> set (freshDerivedSignals \<sigma>')"
         "plain v" "D v"
    using GetValue.IH [OF rangeI b(1) k1 w1 GetValue.prems(4) pk c] by simp_all
  have ty: "ttype (trackers \<sigma>' x) = ttype (trackers \<sigma> x)" for x
    using leaves_type(1) [OF b(2), of x] leaves_type(1) [OF ih(2), of x] by simp
  have tf: "ttype (trackers \<sigma>' t) = State \<or> t \<in> set (freshDerivedSignals \<sigma>')"
    using b(8) leaves_fresh(1) [OF ih(2), of t] ty [of t] by auto
  have st: "tvalue (trackers \<sigma>' t) = w"
  proof (cases "ttype (trackers \<sigma> t) = State")
    case True
    then have "ttype (trackers \<sigma>1 t) = State"
      using leaves_type(1) [OF b(2), of t] by simp
    then show ?thesis
      using leaves_state [OF ih(2), of t] b(6) by simp
  next
    case False
    then have "t \<in> set (freshDerivedSignals \<sigma>1)" using b(8) by simp
    then show ?thesis
      using leaves_fresh(2) [OF ih(2), of t] b(6) by simp
  qed
  have la: "leaves (P - {d}) \<sigma> \<sigma>'"
    using leaves_trans [OF b(2) ih(2)] .
  have tu: "t \<in> set (upstreamSignals (trackers \<sigma>' d))"
    using b(5) ih(5) by auto
  have su: "set (upstreamSignals (trackers \<sigma> d)) \<subseteq> set (upstreamSignals (trackers \<sigma>' d))"
    using b(5) ih(5) by auto
  have nu: "\<forall>u \<in> set (upstreamSignals (trackers \<sigma>' d)).
               u \<in> set (upstreamSignals (trackers \<sigma> d)) \<or> ttype (trackers \<sigma>' u) = State
               \<or> u \<in> set (freshDerivedSignals \<sigma>')"
    using ih(6) b(5) tf by auto
  show ?case
    using ih(1) la ih(3) b(3) ih(4) su nu ih(7) ih(8) ih(9) ih(10) ih(11) tu tf by (simp add: st)
qed simp_all

subsection \<open>Recomputing one derived tracker\<close>

lemma unlinked_more_fields [simp]:
  "changedSignals (unlinked d \<sigma>) = changedSignals \<sigma>"
  "staleEffects (unlinked d \<sigma>) = staleEffects \<sigma>"
  "nobjects (unlinked d \<sigma>) = nobjects \<sigma>"
  "trace (unlinked d \<sigma>) = trace \<sigma>"
  by (simp_all add: unlinked_def)

lemma unlinked_tracker_fields [simp]:
  "tvalue (trackers (unlinked d \<sigma>) x) = tvalue (trackers \<sigma> x)"
  "ttype (trackers (unlinked d \<sigma>) x) = ttype (trackers \<sigma> x)"
  "func (trackers (unlinked d \<sigma>) x) = func (trackers \<sigma> x)"
  "hasChanged (trackers (unlinked d \<sigma>) x) = hasChanged (trackers \<sigma> x)"
  "upstreamSignals (trackers (unlinked d \<sigma>) x) = (if x = d then [] else upstreamSignals (trackers \<sigma> x))"
  by (simp_all add: unlinked_def)

lemma finishDerivedSignal_ok:
  assumes "finishDerivedSignal d old v \<sigma> = Ok () \<sigma>'"
  shows "mode \<sigma>' = mode \<sigma>" "ntrackers \<sigma>' = ntrackers \<sigma>" "registry \<sigma>' = registry \<sigma>"
    "freshDerivedSignals \<sigma>' = freshDerivedSignals \<sigma>"
    "derivationsBeingComputed \<sigma>' = butlast (derivationsBeingComputed \<sigma>)"
    "\<And>x. x \<noteq> d \<Longrightarrow> trackers \<sigma>' x = trackers \<sigma> x"
    "trackers \<sigma>' d = (trackers \<sigma> d)\<lparr>tvalue := v,
        hasChanged := (hasChanged (trackers \<sigma> d) \<or> \<not> strict_eq v old)\<rparr>"
    "set (staleDerivedSignals \<sigma>') = (set (staleDerivedSignals \<sigma>) - {d})
        \<union> (if strict_eq v old then {} else set (downstreamSignals (trackers \<sigma> d)))"
    "set (changedSignals \<sigma>') = set (changedSignals \<sigma>) \<union> (if strict_eq v old then {} else {d})"
    "nobjects \<sigma>' = nobjects \<sigma>"
  using assms
  by (auto simp: finishDerivedSignal_def Let_def upd_tracker_def split: if_splits)

lemma wellFormed_unlinked:
  assumes w: "wellFormed D \<sigma>" and dn: "d < ntrackers \<sigma>"
  shows "wellFormed D ((unlinked d \<sigma>)\<lparr>derivationsBeingComputed := derivationsBeingComputed \<sigma> @ [d],
                   trace := tr\<rparr>)" (is "wellFormed D ?\<sigma>1")
proof (rule wellFormedI)
  show "graph_inv ?\<sigma>1"
    using graph_inv_unlinked [OF wf_graph [OF w], of d] dn
    by (simp add: graph_inv_def adjacency_symmetric_def)
next
  fix x assume "readable ?\<sigma>1 x"
  then have "readable \<sigma> x"
    by (rule readable_cases) simp_all
  then show "admits D (tvalue (trackers ?\<sigma>1 x))"
    using wf_admits [OF w] by simp
next
  fix x y assume "y \<in> set (upstreamSignals (trackers ?\<sigma>1 x))"
  then have "y \<in> set (upstreamSignals (trackers \<sigma> x))"
    by (simp split: if_splits)
  then show "ttype (trackers ?\<sigma>1 x) = Derived"
    using wf_up(1) [OF w, of y x] by simp
qed (insert w, simp_all add: wf_derived wf_registry wf_stale wf_flags)

lemma updateDerivedSignal_resolving:
  assumes upd: "resolves D upd" and r: "resolving D \<sigma>" and dn: "d < ntrackers \<sigma>"
      and dt: "ttype (trackers \<sigma> d) = Derived"
      and nf: "d \<notin> set (freshDerivedSignals \<sigma>)"
      and dP: "d \<notin> P" and l: "leadsTo \<sigma> P d"
      and u: "updateDerivedSignal upd d \<sigma> = Ok () \<sigma>'"
  shows "resolving D \<sigma>'"
    and "derivationsBeingComputed \<sigma>' = derivationsBeingComputed \<sigma>"
    and "leaves P \<sigma> \<sigma>'"
    and "d \<notin> set (staleDerivedSignals \<sigma>')"
    and "d \<notin> set (freshDerivedSignals \<sigma>')"
    and "\<forall>u \<in> set (upstreamSignals (trackers \<sigma>' d)).
           ttype (trackers \<sigma>' u) = Derived \<longrightarrow> u \<in> set (freshDerivedSignals \<sigma>')"
proof -
  note w = resolving_wf [OF r]
  note g = wf_graph [OF w]
  let ?\<sigma>1 = "unlinked d \<sigma>"
  let ?\<sigma>1' = "?\<sigma>1\<lparr>derivationsBeingComputed := derivationsBeingComputed ?\<sigma>1 @ [d],
                   trace := trace ?\<sigma>1 @ [FuncRan d]\<rparr>"
  have rm: "removeTrackerDependencies d \<sigma> = Ok () ?\<sigma>1"
    using removeTrackerDependencies_ok [OF g] .
  obtain v \<sigma>2 where rn: "run upd (func (trackers ?\<sigma>1 d)) ?\<sigma>1' = Ok v \<sigma>2"
    and fin: "finishDerivedSignal d (tvalue (trackers ?\<sigma>1 d)) v \<sigma>2 = Ok () \<sigma>'"
    using u rm resolving_mode [OF r]
    by (auto simp: updateDerivedSignal_def split: result.splits)
  have w1: "wellFormed D ?\<sigma>1'"
    using wellFormed_unlinked [OF w dn, of "trace ?\<sigma>1 @ [FuncRan d]"] by simp
  have ef1: "evaluatedFresh ?\<sigma>1' p = evaluatedFresh \<sigma> p \<and> valuesRead ?\<sigma>1' p = valuesRead \<sigma> p" for p
    by (rule evaluatedFresh_same_values) simp_all
  have r1: "resolving D ?\<sigma>1'"
  proof (rule resolvingI)
    fix x assume "x \<in> set (derivationsBeingComputed ?\<sigma>1')"
    then show "ttype (trackers ?\<sigma>1' x) = Derived"
      using resolving_stack(1) [OF r, of x] dt by auto
  next
    fix x assume "x \<in> set (registry ?\<sigma>1')" "x \<notin> set (staleDerivedSignals ?\<sigma>1')"
      "x \<notin> set (derivationsBeingComputed ?\<sigma>1')"
    then have "consistent \<sigma> x" "x \<noteq> d"
      using resolving_consistent [OF r, of x] by auto
    then show "consistent ?\<sigma>1' x"
      using ef1 by (simp add: consistent_def)
  next
    fix x assume "x \<in> set (freshDerivedSignals ?\<sigma>1')"
    then show "x \<notin> set (staleDerivedSignals ?\<sigma>1')"
      using resolving_fresh(1) [OF r, of x] by simp
  next
    fix x y assume x: "x \<in> set (freshDerivedSignals ?\<sigma>1')"
      and y: "y \<in> set (upstreamSignals (trackers ?\<sigma>1' x))" "ttype (trackers ?\<sigma>1' y) = Derived"
    have "x \<noteq> d" using x nf by auto
    then show "y \<in> set (freshDerivedSignals ?\<sigma>1')"
      using resolving_fresh(2) [OF r, of x y] x y by simp
  qed (insert w1 r, simp_all add: resolving_mode)
  have l1: "leadsTo ?\<sigma>1' P d"
    unfolding leadsTo_def
  proof
    fix p assume p: "p \<in> P"
    then have "p \<noteq> d" using dP by auto
    then show "ttype (trackers ?\<sigma>1' p) = Derived \<and> p \<notin> set (freshDerivedSignals ?\<sigma>1')
        \<and> (\<exists>q \<in> insert d P. q \<in> set (upstreamSignals (trackers ?\<sigma>1' p)))"
      using l p unfolding leadsTo_def by simp
  qed
  have wt: "waiting ?\<sigma>1' (insert d P) d"
    by (rule leadsTo_waiting [OF l1]) (simp_all add: dt nf)
  have pd: "pureOn D (func (trackers ?\<sigma>1 d))" "plain (tvalue (trackers \<sigma> d))"
    using wf_derived [OF w dn dt] by simp_all
  have k1: "derivationsBeingComputed ?\<sigma>1' = derivationsBeingComputed \<sigma> @ [d]"
    by simp
  have ip: "insert d P - {d} = P" using dP by auto
  have c: "resolving D \<sigma>2" "leaves P ?\<sigma>1' \<sigma>2"
      "tvalue (trackers \<sigma>2 d) = tvalue (trackers ?\<sigma>1' d)"
      "d \<notin> set (freshDerivedSignals \<sigma>2)"
      "\<forall>u \<in> set (upstreamSignals (trackers \<sigma>2 d)).
               u \<in> set (upstreamSignals (trackers ?\<sigma>1' d)) \<or> ttype (trackers \<sigma>2 u) = State
               \<or> u \<in> set (freshDerivedSignals \<sigma>2)"
      "evaluatedFresh \<sigma>2 (func (trackers ?\<sigma>1 d)) = Some v"
      "valuesRead \<sigma>2 (func (trackers ?\<sigma>1 d)) \<subseteq> set (upstreamSignals (trackers \<sigma>2 d))"
      "\<forall>u \<in> valuesRead \<sigma>2 (func (trackers ?\<sigma>1 d)). ttype (trackers \<sigma>2 u) = State
               \<or> u \<in> set (freshDerivedSignals \<sigma>2)"
      "plain v" "D v"
    using run_resolving [OF upd r1 k1 wt _ pd(1) rn] ip by simp_all
  note w2 = resolving_wf [OF c(1)]
  note f = finishDerivedSignal_ok [OF fin]
  have k2: "derivationsBeingComputed \<sigma>2 = derivationsBeingComputed \<sigma> @ [d]"
    using leaves_basics(4) [OF c(2)] by simp
  have n2: "ntrackers \<sigma>2 = ntrackers \<sigma>" "registry \<sigma>2 = registry \<sigma>"
    using leaves_basics(2,3) [OF c(2)] by simp_all
  have old: "tvalue (trackers ?\<sigma>1 d) = tvalue (trackers \<sigma>2 d)"
    using c(3) by simp
  have fd: "func (trackers \<sigma>2 x) = func (trackers \<sigma> x)" "ttype (trackers \<sigma>2 x) = ttype (trackers \<sigma> x)" for x
    using leaves_type [OF c(2), of x] by simp_all
  have ud: "\<forall>u \<in> set (upstreamSignals (trackers \<sigma>2 d)). ttype (trackers \<sigma>2 u) = State
               \<or> u \<in> set (freshDerivedSignals \<sigma>2)"
    using c(5) by simp
  have dd: "d \<notin> set (upstreamSignals (trackers \<sigma>2 d))"
    using ud c(4) dt fd(2) [of d] by auto
  have se: "v = tvalue (trackers \<sigma>2 d)" if "strict_eq v (tvalue (trackers ?\<sigma>1 d))"
    using strict_eq_plain [OF c(9) _ that] pd(2) old by simp
  have tv: "tvalue (trackers \<sigma>' x) = (if x = d then v else tvalue (trackers \<sigma>2 x))"
       "func (trackers \<sigma>' x) = func (trackers \<sigma>2 x)"
       "ttype (trackers \<sigma>' x) = ttype (trackers \<sigma>2 x)"
       "upstreamSignals (trackers \<sigma>' x) = upstreamSignals (trackers \<sigma>2 x)"
       "downstreamSignals (trackers \<sigma>' x) = downstreamSignals (trackers \<sigma>2 x)" for x
    using f(6) [of x] f(7) by (cases "x = d"; simp)+
  show k': "derivationsBeingComputed \<sigma>' = derivationsBeingComputed \<sigma>"
    using f(5) k2 by simp
  have g': "graph_inv \<sigma>'"
    using graph_inv_finishDerivedSignal [OF wf_graph [OF w2], of d "tvalue (trackers ?\<sigma>1 d)" v] fin
    by simp
  have w': "wellFormed D \<sigma>'"
  proof (rule wellFormedI)
    fix x assume "readable \<sigma>' x"
    then have rx: "readable \<sigma>2 x"
      by (rule readable_cases) (simp_all add: f tv)
    show "admits D (tvalue (trackers \<sigma>' x))"
      using wf_admits [OF w2 rx] c(10) by (simp add: tv admits_def)
  next
    fix x assume "x < ntrackers \<sigma>'" "ttype (trackers \<sigma>' x) = Derived"
    then show "plain (tvalue (trackers \<sigma>' x))" "pureOn D (func (trackers \<sigma>' x))"
      using wf_derived [OF w2, of x] f(2) c(9) by (simp_all add: tv)
  next
    fix x y assume "y \<in> set (upstreamSignals (trackers \<sigma>' x))"
    then show "ttype (trackers \<sigma>' x) = Derived"
      using wf_up(1) [OF w2, of y x] by (simp add: tv)
  next
    fix x assume "x \<in> set (registry \<sigma>')"
    then show "x < ntrackers \<sigma>'" "ttype (trackers \<sigma>' x) = Derived"
      using wf_registry [OF w2, of x] f(2,3) by (simp_all add: tv)
  next
    fix x assume "x \<in> set (staleDerivedSignals \<sigma>')"
    then have "x \<in> set (staleDerivedSignals \<sigma>2) \<or> x \<in> set (downstreamSignals (trackers \<sigma>2 d))"
      by (auto simp: f(8) split: if_splits)
    then show "ttype (trackers \<sigma>' x) = Derived"
      using wf_stale(2) [OF w2, of x] wf_down(1) [OF w2, of x d] by (auto simp: tv)
  next
    fix x assume h: "hasChanged (trackers \<sigma>' x)"
    show "x \<in> set (changedSignals \<sigma>')"
    proof (cases "x = d")
      case True
      then show ?thesis
        using h f(7) wf_flags [OF w2, of d] by (auto simp: f(9))
    next
      case False
      then show ?thesis
        using h f(6) [of x] wf_flags [OF w2, of x] by (auto simp: f(9))
    qed
  qed (rule g')
  show "resolving D \<sigma>'"
  proof (rule resolvingI)
    show "mode \<sigma>' = UpdatingDerivedSignals"
      using f(1) resolving_mode [OF c(1)] by simp
  next
    fix x assume "x \<in> set (derivationsBeingComputed \<sigma>')"
    then show "ttype (trackers \<sigma>' x) = Derived"
      using resolving_stack(1) [OF r, of x] k' by (simp add: tv fd)
  next
    fix x assume x: "x \<in> set (registry \<sigma>')" "x \<notin> set (staleDerivedSignals \<sigma>')"
      "x \<notin> set (derivationsBeingComputed \<sigma>')"
    have xr: "x \<in> set (registry \<sigma>2)" using x(1) f(3) by simp
    note xd = wf_registry [OF w2 xr]
    show "consistent \<sigma>' x"
    proof (cases "x = d")
      case True
      have "\<forall>t \<in> valuesRead \<sigma>2 (func (trackers \<sigma>2 d)). admits D (tvalue (trackers \<sigma>2 t))
              \<and> tvalue (trackers \<sigma>' t) = tvalue (trackers \<sigma>2 t)"
      proof
        fix t assume t: "t \<in> valuesRead \<sigma>2 (func (trackers \<sigma>2 d))"
        then have tu: "t \<in> set (upstreamSignals (trackers \<sigma>2 d))"
          using c(7) by (auto simp: fd)
        then have "t \<noteq> d" using dd by auto
        then show "admits D (tvalue (trackers \<sigma>2 t))
              \<and> tvalue (trackers \<sigma>' t) = tvalue (trackers \<sigma>2 t)"
          using wf_up(4) [OF w2 tu] by (simp add: tv)
      qed
      from evaluatedFresh_depends [OF wf_derived(2) [OF w2 xd [unfolded True]] this]
      show ?thesis
        using c(6) c(7) True by (simp add: consistent_def tv fd)
    next
      case False
      have xs: "x \<notin> set (staleDerivedSignals \<sigma>2)"
        using x(2) False by (auto simp: f(8))
      have xk: "x \<notin> set (derivationsBeingComputed \<sigma>2)"
        using x(3) k' k2 False by simp
      have cx: "consistent \<sigma>2 x"
        using resolving_consistent [OF c(1) xr xs xk] .
      show ?thesis
      proof (rule consistent_depends [OF w2 xd cx])
        fix t assume t: "t \<in> set (upstreamSignals (trackers \<sigma>2 x))"
        show "tvalue (trackers \<sigma>' t) = tvalue (trackers \<sigma>2 t)"
        proof (cases "t = d")
          case True
          then have "x \<in> set (downstreamSignals (trackers \<sigma>2 d))"
            using t wf_sym [OF w2, of d x] by simp
          then have "strict_eq v (tvalue (trackers ?\<sigma>1 d))"
            using x(2) by (auto simp: f(8) split: if_splits)
          then show ?thesis using True se by (simp add: tv)
        next
          case False
          then show ?thesis by (simp add: tv)
        qed
      qed (insert False, simp_all add: tv)
    qed
  next
    fix x assume x: "x \<in> set (freshDerivedSignals \<sigma>')"
    then have x2: "x \<in> set (freshDerivedSignals \<sigma>2)" using f(4) by simp
    have "x \<notin> set (downstreamSignals (trackers \<sigma>2 d))"
    proof
      assume "x \<in> set (downstreamSignals (trackers \<sigma>2 d))"
      then have "d \<in> set (upstreamSignals (trackers \<sigma>2 x))"
        using wf_sym [OF w2, of d x] by simp
      then have "d \<in> set (freshDerivedSignals \<sigma>2)"
        using resolving_fresh(2) [OF c(1) x2, of d] dt fd(2) [of d] by simp
      then show False using c(4) by simp
    qed
    then show "x \<notin> set (staleDerivedSignals \<sigma>')"
      using resolving_fresh(1) [OF c(1) x2] by (auto simp: f(8) split: if_splits)
  next
    fix x y assume x: "x \<in> set (freshDerivedSignals \<sigma>')"
      and y: "y \<in> set (upstreamSignals (trackers \<sigma>' x))" "ttype (trackers \<sigma>' y) = Derived"
    have x2: "x \<in> set (freshDerivedSignals \<sigma>2)" using x f(4) by simp
    show "y \<in> set (freshDerivedSignals \<sigma>')"
      using resolving_fresh(2) [OF c(1) x2, of y] y f(4) by (simp add: tv)
  qed (rule w')
  show "leaves P \<sigma> \<sigma>'"
  proof (rule leavesI)
    fix x assume "ttype (trackers \<sigma> x) = State"
    then show "tvalue (trackers \<sigma>' x) = tvalue (trackers \<sigma> x)"
      using leaves_state [OF c(2), of x] dt by (auto simp: tv)
  next
    fix x assume x: "x \<in> set (freshDerivedSignals \<sigma>)"
    then have "x \<noteq> d" using nf by auto
    then show "x \<in> set (freshDerivedSignals \<sigma>')" "tvalue (trackers \<sigma>' x) = tvalue (trackers \<sigma> x)"
      using leaves_fresh [OF c(2), of x] x f(4) by (simp_all add: tv)
  next
    fix p assume p: "p \<in> P"
    then have pd: "p \<noteq> d" using dP by auto
    show "tvalue (trackers \<sigma>' p) = tvalue (trackers \<sigma> p)"
      "upstreamSignals (trackers \<sigma>' p) = upstreamSignals (trackers \<sigma> p)"
      using leaves_pending(1,2) [OF c(2) p] pd by (simp_all add: tv)
    show "p \<in> set (freshDerivedSignals \<sigma>') \<Longrightarrow> p \<in> set (freshDerivedSignals \<sigma>)"
      using leaves_pending(3) [OF c(2) p] f(4) by auto
  qed (insert f leaves_basics [OF c(2)] k', simp_all add: tv fd)
  show "d \<notin> set (staleDerivedSignals \<sigma>')"
    using dd wf_sym [OF w2, of d d] by (auto simp: f(8) split: if_splits)
  show "d \<notin> set (freshDerivedSignals \<sigma>')"
    using c(4) f(4) by simp
  show "\<forall>u \<in> set (upstreamSignals (trackers \<sigma>' d)).
           ttype (trackers \<sigma>' u) = Derived \<longrightarrow> u \<in> set (freshDerivedSignals \<sigma>')"
    using ud f(4) by (auto simp: tv)
qed

subsection \<open>\<^verbatim>\<open>updateSignal\<close> and the loop over the stale set\<close>

lemma updateUpstreamSignals_resolving:
  assumes upd: "resolves D upd"
  shows "resolving D \<sigma> \<Longrightarrow> waiting \<sigma> P t \<Longrightarrow> t \<in> P \<Longrightarrow>
         set ss \<subseteq> set (upstreamSignals (trackers \<sigma> t)) \<Longrightarrow>
         updateUpstreamSignals upd ss \<sigma> = Ok () \<sigma>' \<Longrightarrow>
         resolving D \<sigma>' \<and> leaves P \<sigma> \<sigma>'
         \<and> (\<forall>s \<in> set ss. ttype (trackers \<sigma> s) = Derived \<longrightarrow>
               s \<in> set (freshDerivedSignals \<sigma>') \<and> s \<notin> P)"
proof (induction ss arbitrary: \<sigma>)
  case Nil
  then show ?case by (simp add: leaves_refl)
next
  case (Cons s ss)
  have su: "s \<in> set (upstreamSignals (trackers \<sigma> t))" using Cons.prems(4) by simp
  show ?case
  proof (cases "ttype (trackers \<sigma> s) = Derived")
    case False
    then have "updateUpstreamSignals upd ss \<sigma> = Ok () \<sigma>'"
      using Cons.prems(5) by simp
    from Cons.IH [OF Cons.prems(1,2,3) _ this] show ?thesis
      using Cons.prems(4) False by simp
  next
    case True
    then obtain \<sigma>1 where u: "upd s \<sigma> = Ok () \<sigma>1"
      and rest: "updateUpstreamSignals upd ss \<sigma>1 = Ok () \<sigma>'"
      using Cons.prems(5) by (auto split: result.splits)
    have l: "leadsTo \<sigma> P s"
      using waiting_leadsTo [OF Cons.prems(2)] su by simp
    have sn: "s < ntrackers \<sigma>"
      using wf_up(3) [OF resolving_wf [OF Cons.prems(1)] su] .
    note a = resolvesD [OF upd Cons.prems(1) l sn True u]
    have tf: "t \<notin> set (freshDerivedSignals \<sigma>1)"
      using leaves_pending(3) [OF a(2) Cons.prems(3)] waiting_top(1) [OF Cons.prems(2,3)] by simp
    have w1: "waiting \<sigma>1 P t"
      using waiting_leaves [OF Cons.prems(2) leaves_subset [OF a(2)]] tf by auto
    have s1: "set ss \<subseteq> set (upstreamSignals (trackers \<sigma>1 t))"
      using Cons.prems(4) leaves_pending(2) [OF a(2) Cons.prems(3)] by simp
    have ih: "resolving D \<sigma>'" "leaves P \<sigma>1 \<sigma>'"
      "\<forall>x \<in> set ss. ttype (trackers \<sigma>1 x) = Derived \<longrightarrow>
               x \<in> set (freshDerivedSignals \<sigma>') \<and> x \<notin> P"
      using Cons.IH [OF a(1) w1 Cons.prems(3) s1 rest] by simp_all
    have "s \<in> set (freshDerivedSignals \<sigma>')"
      using leaves_fresh(1) [OF ih(2) a(3)] .
    then show ?thesis
      using ih(1) leaves_trans [OF a(2) ih(2)] ih(3) a(4) leaves_type(1) [OF a(2)] by simp
  qed
qed

lemma resolving_add_fresh:
  assumes r: "resolving D \<sigma>" and s: "t \<notin> set (staleDerivedSignals \<sigma>)"
      and u: "\<forall>u \<in> set (upstreamSignals (trackers \<sigma> t)).
                ttype (trackers \<sigma> u) = Derived \<longrightarrow> u \<in> set (freshDerivedSignals \<sigma>)"
  shows "resolving D (\<sigma>\<lparr>freshDerivedSignals := set_add t (freshDerivedSignals \<sigma>)\<rparr>)"
    (is "resolving D ?\<sigma>'")
proof (rule resolvingI)
  show "wellFormed D ?\<sigma>'"
    by (rule wellFormed_transfer [OF resolving_wf [OF r]])
       (simp_all add: wf_flags [OF resolving_wf [OF r]])
next
  fix d assume "d \<in> set (derivationsBeingComputed ?\<sigma>')"
  then show "ttype (trackers ?\<sigma>' d) = Derived"
    using resolving_stack(1) [OF r, of d] by simp
next
  fix d assume "d \<in> set (registry ?\<sigma>')" "d \<notin> set (staleDerivedSignals ?\<sigma>')"
    "d \<notin> set (derivationsBeingComputed ?\<sigma>')"
  then have c: "consistent \<sigma> d" using resolving_consistent [OF r, of d] by simp
  have "evaluatedFresh ?\<sigma>' p = evaluatedFresh \<sigma> p \<and> valuesRead ?\<sigma>' p = valuesRead \<sigma> p" for p
    by (rule evaluatedFresh_same_values) simp_all
  then show "consistent ?\<sigma>' d" using c by (simp add: consistent_def)
next
  fix x assume "x \<in> set (freshDerivedSignals ?\<sigma>')"
  then show "x \<notin> set (staleDerivedSignals ?\<sigma>')"
    using resolving_fresh(1) [OF r, of x] s by auto
next
  fix x y assume "x \<in> set (freshDerivedSignals ?\<sigma>')"
    "y \<in> set (upstreamSignals (trackers ?\<sigma>' x))" "ttype (trackers ?\<sigma>' y) = Derived"
  then show "y \<in> set (freshDerivedSignals ?\<sigma>')"
    using resolving_fresh(2) [OF r, of x y] u by auto
qed (simp add: resolving_mode [OF r])

lemma leadsTo_not_fresh: "leadsTo \<sigma> P t \<Longrightarrow> p \<in> P \<Longrightarrow> p \<notin> set (freshDerivedSignals \<sigma>)"
  unfolding leadsTo_def by blast

lemma leadsTo_derived: "leadsTo \<sigma> P t \<Longrightarrow> p \<in> P \<Longrightarrow> ttype (trackers \<sigma> p) = Derived"
  unfolding leadsTo_def by blast

lemma leadsTo_next:
  "leadsTo \<sigma> P t \<Longrightarrow> p \<in> P \<Longrightarrow> \<exists>q \<in> insert t P. q \<in> set (upstreamSignals (trackers \<sigma> p))"
  unfolding leadsTo_def by blast

lemma resolves_updateSignal: "resolves D (updateSignal n)"
proof (induction n)
  case 0
  show ?case by (simp add: resolves_def)
next
  case (Suc n)
  show ?case
    unfolding resolves_def
  proof (intro allI impI, elim conjE)
    fix P t \<sigma> \<sigma>'
    assume r: "resolving D \<sigma>" and l: "leadsTo \<sigma> P t" and tn: "t < ntrackers \<sigma>"
      and td: "ttype (trackers \<sigma> t) = Derived"
      and u: "updateSignal (Suc n) t \<sigma> = Ok () \<sigma>'"
    show "resolving D \<sigma>' \<and> leaves P \<sigma> \<sigma>' \<and> t \<in> set (freshDerivedSignals \<sigma>') \<and> t \<notin> P"
    proof (cases "t \<in> set (freshDerivedSignals \<sigma>)")
      case True
      then have "\<sigma>' = \<sigma>" using u resolving_mode [OF r] by simp
      moreover have "t \<notin> P" using leadsTo_not_fresh [OF l, of t] True by auto
      ultimately show ?thesis using r True by (simp add: leaves_refl)
    next
      case False
      obtain \<sigma>1 where lp: "updateUpstreamSignals (updateSignal n) (upstreamSignals (trackers \<sigma> t)) \<sigma>
                           = Ok () \<sigma>1"
        using u False resolving_mode [OF r] by (auto split: result.splits)
      have wt: "waiting \<sigma> (insert t P) t"
        using leadsTo_waiting [OF l td False] .
      have a: "resolving D \<sigma>1" "leaves (insert t P) \<sigma> \<sigma>1"
        "\<forall>s \<in> set (upstreamSignals (trackers \<sigma> t)). ttype (trackers \<sigma> s) = Derived \<longrightarrow>
               s \<in> set (freshDerivedSignals \<sigma>1) \<and> s \<notin> insert t P"
        using updateUpstreamSignals_resolving [OF Suc r wt _ _ lp] by simp_all
      have tP: "t \<notin> P"
      proof
        assume tp: "t \<in> P"
        obtain q where q: "q \<in> insert t P" "q \<in> set (upstreamSignals (trackers \<sigma> t))"
          using leadsTo_next [OF l tp] by blast
        have "ttype (trackers \<sigma> q) = Derived"
          using q(1) td leadsTo_derived [OF l, of q] by auto
        then have "q \<notin> insert t P" using a(3) q(2) by blast
        then show False using q(1) by simp
      qed
      have nf: "t \<notin> set (freshDerivedSignals \<sigma>1)"
        using leaves_pending(3) [OF a(2), of t] False by simp
      have tt: "upstreamSignals (trackers \<sigma>1 t) = upstreamSignals (trackers \<sigma> t)"
        using leaves_pending(2) [OF a(2), of t] by simp
      have ty: "ttype (trackers \<sigma>1 x) = ttype (trackers \<sigma> x)" for x
        using leaves_type(1) [OF a(2)] by simp
      have la1: "leaves P \<sigma> \<sigma>1"
        using leaves_subset [OF a(2)] by auto
      show ?thesis
      proof (cases "t \<in> set (staleDerivedSignals \<sigma>1)")
        case False
        then have e: "\<sigma>' = \<sigma>1\<lparr>freshDerivedSignals := set_add t (freshDerivedSignals \<sigma>1)\<rparr>"
          using u \<open>t \<notin> set (freshDerivedSignals \<sigma>)\<close> resolving_mode [OF r] lp by simp
        have "\<forall>u \<in> set (upstreamSignals (trackers \<sigma>1 t)).
                ttype (trackers \<sigma>1 u) = Derived \<longrightarrow> u \<in> set (freshDerivedSignals \<sigma>1)"
          using a(3) by (simp add: tt ty)
        from resolving_add_fresh [OF a(1) False this] leaves_add_fresh [OF la1 tP]
        show ?thesis unfolding e using tP by simp
      next
        case True
        then obtain \<sigma>2 where d: "updateDerivedSignal (updateSignal n) t \<sigma>1 = Ok () \<sigma>2"
          and e: "\<sigma>' = \<sigma>2\<lparr>freshDerivedSignals := set_add t (freshDerivedSignals \<sigma>2)\<rparr>"
          using u \<open>t \<notin> set (freshDerivedSignals \<sigma>)\<close> resolving_mode [OF r] lp
          by (auto split: result.splits)
        have tn1: "t < ntrackers \<sigma>1" using tn leaves_basics(2) [OF a(2)] by simp
        have td1: "ttype (trackers \<sigma>1 t) = Derived" using td ty by simp
        have l1: "leadsTo \<sigma>1 P t" using leadsTo_leaves [OF l la1] .
        note c = updateDerivedSignal_resolving [OF Suc a(1) tn1 td1 nf tP l1 d]
        have la2: "leaves P \<sigma> \<sigma>2"
          using leaves_trans [OF la1 c(3)] .
        from resolving_add_fresh [OF c(1) c(4) c(6)] leaves_add_fresh [OF la2 tP]
        show ?thesis unfolding e using tP by simp
      qed
    qed
  qed
qed

lemma updateStaleSignals_resolving:
  "resolving D \<sigma> \<Longrightarrow> derivationsBeingComputed \<sigma> = [] \<Longrightarrow>
   updateStaleSignals k n \<sigma> = Ok () \<sigma>' \<Longrightarrow>
   resolving D \<sigma>' \<and> derivationsBeingComputed \<sigma>' = [] \<and> staleDerivedSignals \<sigma>' = []
   \<and> leaves {} \<sigma> \<sigma>'"
proof (induction k arbitrary: \<sigma>)
  case 0
  then show ?case by (simp add: leaves_refl split: list.splits)
next
  case (Suc k)
  show ?case
  proof (cases "staleDerivedSignals \<sigma>")
    case Nil
    then show ?thesis using Suc.prems by (simp add: leaves_refl)
  next
    case (Cons first rest)
    then obtain \<sigma>1 where d: "updateDerivedSignal (updateSignal n) first \<sigma> = Ok () \<sigma>1"
      and l: "updateStaleSignals k n
                (\<sigma>1\<lparr>freshDerivedSignals := set_add first (freshDerivedSignals \<sigma>1)\<rparr>) = Ok () \<sigma>'"
      using Suc.prems(3) by (auto split: result.splits)
    have f: "first < ntrackers \<sigma>" "ttype (trackers \<sigma> first) = Derived"
      using wf_stale [OF resolving_wf [OF Suc.prems(1)], of first] Cons by simp_all
    have nf: "first \<notin> set (freshDerivedSignals \<sigma>)"
      using resolving_fresh(1) [OF Suc.prems(1), of first] Cons by auto
    have e: "leadsTo \<sigma> {} first" by (simp add: leadsTo_def)
    note c = updateDerivedSignal_resolving [OF resolves_updateSignal Suc.prems(1) f nf _ e d]
    have la: "leaves {} \<sigma> (\<sigma>1\<lparr>freshDerivedSignals := set_add first (freshDerivedSignals \<sigma>1)\<rparr>)"
      using leaves_add_fresh [OF c(3)] by simp
    have ih: "resolving D \<sigma>' \<and> derivationsBeingComputed \<sigma>' = [] \<and> staleDerivedSignals \<sigma>' = []
       \<and> leaves {} (\<sigma>1\<lparr>freshDerivedSignals := set_add first (freshDerivedSignals \<sigma>1)\<rparr>) \<sigma>'"
      using Suc.IH [OF resolving_add_fresh [OF c(1) c(4) c(6)] _ l] c(2) Suc.prems(2) by simp
    then show ?thesis
      using leaves_trans [OF la] by blast
  qed
qed

subsection \<open>The batch callback\<close>

lemma collectingI:
  assumes "mode \<sigma> = UpdatingState" "wellFormed D \<sigma>" "derivationsBeingComputed \<sigma> = []"
      and "\<And>t x. hasChanged (trackers \<sigma> t) \<Longrightarrow> x \<in> set (downstreamSignals (trackers \<sigma> t)) \<Longrightarrow>
             x \<in> set (staleDerivedSignals \<sigma>)"
      and "\<And>d. d \<in> set (registry \<sigma>) \<Longrightarrow> d \<notin> set (staleDerivedSignals \<sigma>) \<Longrightarrow> consistent \<sigma> d"
  shows "collecting D \<sigma>"
  unfolding collecting_def using assms by blast

lemma collecting_mode: "collecting D \<sigma> \<Longrightarrow> mode \<sigma> = UpdatingState"
  by (simp add: collecting_def)

lemma collecting_wf: "collecting D \<sigma> \<Longrightarrow> wellFormed D \<sigma>"
  by (simp add: collecting_def)

lemma collecting_stack: "collecting D \<sigma> \<Longrightarrow> derivationsBeingComputed \<sigma> = []"
  by (simp add: collecting_def)

lemma collecting_flagged:
  "collecting D \<sigma> \<Longrightarrow> hasChanged (trackers \<sigma> t) \<Longrightarrow> x \<in> set (downstreamSignals (trackers \<sigma> t)) \<Longrightarrow>
   x \<in> set (staleDerivedSignals \<sigma>)"
  unfolding collecting_def by blast

lemma collecting_consistent:
  "collecting D \<sigma> \<Longrightarrow> d \<in> set (registry \<sigma>) \<Longrightarrow> d \<notin> set (staleDerivedSignals \<sigma>) \<Longrightarrow>
   consistent \<sigma> d"
  unfolding collecting_def by blast

lemma getValue_no_stack:
  assumes "getDerivationBeingComputed \<sigma> = None" "mode \<sigma> \<noteq> UpdatingDerivedSignals"
      and "getValue upd t \<sigma> = Ok v \<sigma>'"
  shows "\<sigma>' = \<sigma> \<and> v = tvalue (trackers \<sigma> t) \<and> (isStateHandle t \<sigma> \<or> isDerivedHandle t \<sigma>)"
  using assms by (auto simp: getValue_def hdl_none split: if_splits)

lemma no_stack_outside_derivations:
  "mode \<sigma> = UpdatingState \<or> mode \<sigma> = RunningEffects \<or> mode \<sigma> = CreatingEffect \<or> mode \<sigma> = Normal
   \<Longrightarrow> getDerivationBeingComputed \<sigma> = None"
  by (auto simp: getDerivationBeingComputed_def)

lemma handleValueChange_ok:
  assumes "handleValueChange t \<sigma> = Ok () \<sigma>'"
  shows "mode \<sigma>' = mode \<sigma>" "ntrackers \<sigma>' = ntrackers \<sigma>" "registry \<sigma>' = registry \<sigma>"
    "derivationsBeingComputed \<sigma>' = derivationsBeingComputed \<sigma>"
    "\<And>x. x \<noteq> t \<Longrightarrow> trackers \<sigma>' x = trackers \<sigma> x"
    "trackers \<sigma>' t = (trackers \<sigma> t)\<lparr>hasChanged := True\<rparr>"
    "set (staleDerivedSignals \<sigma>') = set (staleDerivedSignals \<sigma>)
        \<union> (if hasChanged (trackers \<sigma> t) then {} else set (downstreamSignals (trackers \<sigma> t)))"
    "set (changedSignals \<sigma>') = set (changedSignals \<sigma>)
        \<union> (if hasChanged (trackers \<sigma> t) then {} else {t})"
    "arrays \<sigma>' = arrays \<sigma>" "nobjects \<sigma>' = nobjects \<sigma>"
  using assms
  by (auto simp: handleValueChange_def upd_tracker_def split: if_splits)

lemma collecting_store:
  assumes c: "collecting D \<sigma>" and h: "isStateHandle t \<sigma>" and n: "admits D v"
      and s: "handleValueChange t (upd_tracker t (\<lambda>tr. tr\<lparr>tvalue := v\<rparr>) \<sigma>) = Ok () \<sigma>'"
  shows "collecting D \<sigma>'" and "isStateHandle x \<sigma>' = isStateHandle x \<sigma>"
    and "arrays \<sigma>' = arrays \<sigma>" and "nobjects \<sigma>' = nobjects \<sigma>"
proof -
  let ?\<sigma>1 = "upd_tracker t (\<lambda>tr. tr\<lparr>tvalue := v\<rparr>) \<sigma>"
  note w = collecting_wf [OF c]
  note f = handleValueChange_ok [OF s]
  have ts: "ttype (trackers \<sigma> t) = State" using h by (simp add: isStateHandle_def)
  have tr: "tvalue (trackers \<sigma>' x) = (if x = t then v else tvalue (trackers \<sigma> x))"
       "func (trackers \<sigma>' x) = func (trackers \<sigma> x)"
       "ttype (trackers \<sigma>' x) = ttype (trackers \<sigma> x)"
       "upstreamSignals (trackers \<sigma>' x) = upstreamSignals (trackers \<sigma> x)"
       "downstreamSignals (trackers \<sigma>' x) = downstreamSignals (trackers \<sigma> x)"
       "hasChanged (trackers \<sigma>' x) = (if x = t then True else hasChanged (trackers \<sigma> x))" for x
    using f(5) [of x] f(6) by (cases "x = t"; simp add: upd_tracker_def)+
  have st: "set (staleDerivedSignals \<sigma>') = set (staleDerivedSignals \<sigma>)
        \<union> (if hasChanged (trackers \<sigma> t) then {} else set (downstreamSignals (trackers \<sigma> t)))"
       "set (changedSignals \<sigma>') = set (changedSignals \<sigma>)
        \<union> (if hasChanged (trackers \<sigma> t) then {} else {t})"
    using f(7,8) by (simp_all add: upd_tracker_def)
  have o: "ntrackers \<sigma>' = ntrackers \<sigma>" "registry \<sigma>' = registry \<sigma>"
    using f(2,3) by simp_all
  show "isStateHandle x \<sigma>' = isStateHandle x \<sigma>"
    by (simp add: isStateHandle_def o tr)
  show "arrays \<sigma>' = arrays \<sigma>" "nobjects \<sigma>' = nobjects \<sigma>"
    using f(9,10) by simp_all
  have g': "graph_inv \<sigma>'"
    using graph_inv_handleValueChange [of ?\<sigma>1 t] wf_graph [OF w] s by simp
  have w': "wellFormed D \<sigma>'"
  proof (rule wellFormedI)
    fix x assume "readable \<sigma>' x"
    then have "readable \<sigma> x"
      by (rule readable_cases) (simp_all add: o tr)
    then show "admits D (tvalue (trackers \<sigma>' x))"
      using wf_admits [OF w, of x] n by (simp add: tr)
  next
    fix x assume "x < ntrackers \<sigma>'" "ttype (trackers \<sigma>' x) = Derived"
    then show "plain (tvalue (trackers \<sigma>' x))" "pureOn D (func (trackers \<sigma>' x))"
      using wf_derived [OF w, of x] ts by (auto simp: tr o)
  next
    fix x y assume "y \<in> set (upstreamSignals (trackers \<sigma>' x))"
    then show "ttype (trackers \<sigma>' x) = Derived"
      using wf_up(1) [OF w, of y x] by (simp_all add: tr)
  next
    fix x assume "x \<in> set (registry \<sigma>')"
    then show "x < ntrackers \<sigma>'" "ttype (trackers \<sigma>' x) = Derived"
      using wf_registry [OF w, of x] by (simp_all add: tr o)
  next
    fix x assume "x \<in> set (staleDerivedSignals \<sigma>')"
    then have "x \<in> set (staleDerivedSignals \<sigma>) \<or> x \<in> set (downstreamSignals (trackers \<sigma> t))"
      by (auto simp: st split: if_splits)
    then show "ttype (trackers \<sigma>' x) = Derived"
      using wf_stale(2) [OF w, of x] wf_down(1) [OF w, of x t] by (auto simp: tr)
  next
    fix x assume "hasChanged (trackers \<sigma>' x)"
    then show "x \<in> set (changedSignals \<sigma>')"
      using wf_flags [OF w, of x] by (auto simp: tr st split: if_splits)
  qed (rule g')
  have fl: "x \<in> set (staleDerivedSignals \<sigma>')" if "x \<in> set (downstreamSignals (trackers \<sigma> t))" for x
    using that collecting_flagged [OF c, of t x] by (auto simp: st)
  show "collecting D \<sigma>'"
  proof (rule collectingI)
    show "mode \<sigma>' = UpdatingState" using f(1) collecting_mode [OF c] by simp
  next
    show "derivationsBeingComputed \<sigma>' = []" using f(4) collecting_stack [OF c] by simp
  next
    fix y x assume "hasChanged (trackers \<sigma>' y)" "x \<in> set (downstreamSignals (trackers \<sigma>' y))"
    then show "x \<in> set (staleDerivedSignals \<sigma>')"
      using fl [of x] collecting_flagged [OF c, of y x]
      by (cases "y = t") (auto simp: tr st)
  next
    fix d assume d: "d \<in> set (registry \<sigma>')" "d \<notin> set (staleDerivedSignals \<sigma>')"
    then have dr: "d \<in> set (registry \<sigma>)" and ds: "d \<notin> set (staleDerivedSignals \<sigma>)"
      using o by (auto simp: st)
    have cd: "consistent \<sigma> d" using collecting_consistent [OF c dr ds] .
    have dd: "d \<noteq> t" using wf_registry(2) [OF w dr] ts by auto
    have tu: "t \<notin> set (upstreamSignals (trackers \<sigma> d))"
      using fl [of d] d(2) wf_sym [OF w, of t d] by auto
    show "consistent \<sigma>' d"
    proof (rule consistent_depends [OF w wf_registry [OF w dr] cd])
      fix u assume "u \<in> set (upstreamSignals (trackers \<sigma> d))"
      then show "tvalue (trackers \<sigma>' u) = tvalue (trackers \<sigma> u)"
        using tu by (auto simp: tr)
    qed (insert dd, simp_all add: tr)
  qed (rule w')
qed

lemma collecting_set_value:
  assumes "collecting D \<sigma>" "isStateHandle t \<sigma>" "admits D v" "set_value t v \<sigma> = Ok () \<sigma>'"
  shows "collecting D \<sigma>'" and "isStateHandle x \<sigma>' = isStateHandle x \<sigma>"
    and "arrays \<sigma>' = arrays \<sigma>" and "nobjects \<sigma>' = nobjects \<sigma>"
proof -
  have "collecting D \<sigma>' \<and> isStateHandle x \<sigma>' = isStateHandle x \<sigma>
        \<and> arrays \<sigma>' = arrays \<sigma> \<and> nobjects \<sigma>' = nobjects \<sigma>"
  proof (cases "strict_eq (tvalue (trackers \<sigma> t)) v")
    case True
    then show ?thesis using assms by (simp add: set_value_def collecting_mode)
  next
    case False
    then have "handleValueChange t (upd_tracker t (\<lambda>tr. tr\<lparr>tvalue := v\<rparr>) \<sigma>) = Ok () \<sigma>'"
      using assms by (simp add: set_value_def collecting_mode)
    from collecting_store [OF assms(1,2,3) this] show ?thesis by simp
  qed
  then show "collecting D \<sigma>'" "isStateHandle x \<sigma>' = isStateHandle x \<sigma>"
    "arrays \<sigma>' = arrays \<sigma>" "nobjects \<sigma>' = nobjects \<sigma>" by simp_all
qed

lemma collecting_state_update:
  assumes "collecting D \<sigma>" "isStateHandle t \<sigma>" "state_update t callback \<sigma> = Ok () \<sigma>'"
  shows "collecting D \<sigma>'" and "isStateHandle x \<sigma>' = isStateHandle x \<sigma>"
    and "arrays \<sigma>' = arrays \<sigma>" and "nobjects \<sigma>' = nobjects \<sigma>"
proof -
  have "readable \<sigma> t" using assms(2) unfolding readable_def by blast
  then have n: "admits D (in_place callback (tvalue (trackers \<sigma> t)))"
    using wf_admits [OF collecting_wf [OF assms(1)]] admits_in_place by simp
  have "upd_tracker t (\<lambda>tr. tr\<lparr>tvalue := in_place callback (tvalue tr)\<rparr>) \<sigma>
        = upd_tracker t (\<lambda>tr. tr\<lparr>tvalue := in_place callback (tvalue (trackers \<sigma> t))\<rparr>) \<sigma>"
    by (simp add: upd_tracker_def)
  then have "handleValueChange t
      (upd_tracker t (\<lambda>tr. tr\<lparr>tvalue := in_place callback (tvalue (trackers \<sigma> t))\<rparr>) \<sigma>) = Ok () \<sigma>'"
    using assms by (simp add: state_update_def collecting_mode)
  from collecting_store [OF assms(1,2) n this]
  show "collecting D \<sigma>'" "isStateHandle x \<sigma>' = isStateHandle x \<sigma>"
    "arrays \<sigma>' = arrays \<sigma>" "nobjects \<sigma>' = nobjects \<sigma>" by simp_all
qed

lemma collecting_heap:
  assumes c: "collecting D \<sigma>"
  shows "collecting D (\<sigma>\<lparr>arrays := a\<rparr>)" "collecting D (\<sigma>\<lparr>nobjects := m\<rparr>)"
proof -
  note w = collecting_wf [OF c]
  have *: "collecting D \<sigma>'"
    if t: "trackers \<sigma>' = trackers \<sigma>" "ntrackers \<sigma>' = ntrackers \<sigma>" "registry \<sigma>' = registry \<sigma>"
      "staleDerivedSignals \<sigma>' = staleDerivedSignals \<sigma>" "changedSignals \<sigma>' = changedSignals \<sigma>"
      "derivationsBeingComputed \<sigma>' = derivationsBeingComputed \<sigma>" "mode \<sigma>' = mode \<sigma>" for \<sigma>'
  proof (rule collectingI)
    show "wellFormed D \<sigma>'"
      by (rule wellFormed_transfer [OF w]) (simp_all add: t wf_flags [OF w])
  next
    fix d assume "d \<in> set (registry \<sigma>')" "d \<notin> set (staleDerivedSignals \<sigma>')"
    then have d: "d \<in> set (registry \<sigma>)" "d \<notin> set (staleDerivedSignals \<sigma>)" by (simp_all add: t)
    show "consistent \<sigma>' d"
      by (rule consistent_transfer [OF w d(1) collecting_consistent [OF c d]]) (simp_all add: t)
  next
    fix y x assume "hasChanged (trackers \<sigma>' y)" "x \<in> set (downstreamSignals (trackers \<sigma>' y))"
    then show "x \<in> set (staleDerivedSignals \<sigma>')"
      using collecting_flagged [OF c, of y x] by (simp add: t)
  qed (simp_all add: t collecting_mode [OF c] collecting_stack [OF c])
  show "collecting D (\<sigma>\<lparr>arrays := a\<rparr>)" by (rule *) simp_all
  show "collecting D (\<sigma>\<lparr>nobjects := m\<rparr>)" by (rule *) simp_all
qed

lemma collecting_resetChanges:
  assumes c: "collecting D \<sigma>" and h: "isStateHandle (achanges A) \<sigma>"
      and r: "resetChanges A \<sigma> = Ok () \<sigma>'"
  shows "collecting D \<sigma>'" and "isStateHandle x \<sigma>' = isStateHandle x \<sigma>"
    and "arrays \<sigma>' = arrays \<sigma>"
proof -
  have m: "mode \<sigma> = UpdatingState" using collecting_mode [OF c] .
  have "collecting D \<sigma>' \<and> isStateHandle x \<sigma>' = isStateHandle x \<sigma> \<and> arrays \<sigma>' = arrays \<sigma>"
  proof (cases "hasChanged (trackers \<sigma> (achanges A))")
    case True
    then have "\<sigma>' = \<sigma>" using r m by (simp add: resetChanges_def hasChangedWhileUpdatingState_def)
    then show ?thesis using c by simp
  next
    case False
    let ?\<sigma>1 = "\<sigma>\<lparr>nobjects := Suc (nobjects \<sigma>)\<rparr>"
    have s: "set_value (achanges A)
              (Obj (nobjects \<sigma>) \<lparr>changes = [], newLength = js_length (arrays \<sigma> (avalue A))\<rparr>)
              ?\<sigma>1 = Ok () \<sigma>'"
      using r m False by (simp add: resetChanges_def hasChangedWhileUpdatingState_def)
    have h1: "isStateHandle (achanges A) ?\<sigma>1" using h by (simp add: isStateHandle_def)
    note cs = collecting_heap(2) [OF c, of "Suc (nobjects \<sigma>)"]
    from collecting_set_value(1) [OF cs h1 _ s] collecting_set_value(2) [OF cs h1 _ s, of x]
      collecting_set_value(3) [OF cs h1 _ s]
    show ?thesis by (simp add: isStateHandle_def)
  qed
  then show "collecting D \<sigma>'" "isStateHandle x \<sigma>' = isStateHandle x \<sigma>" "arrays \<sigma>' = arrays \<sigma>"
    by simp_all
qed

lemma collecting_insertAt:
  assumes c: "collecting D \<sigma>" and h: "isStateHandle (achanges A) \<sigma>"
      and r: "insertAt A index vs \<sigma> = Ok () \<sigma>'"
  shows "collecting D \<sigma>'"
proof -
  obtain \<sigma>1 \<sigma>2 where a: "resetChanges A \<sigma> = Ok () \<sigma>1"
    and b: "state_update (achanges A)
                    (\<lambda>c. \<lparr>changes = changes c @ [Insert index vs],
                          newLength = newLength c + int (length vs)\<rparr>) \<sigma>1 = Ok () \<sigma>2"
    and e: "\<sigma>' = splice_value A index 0 vs \<sigma>2"
    using r by (auto simp: insertAt_def split: if_splits result.splits)
  note c1 = collecting_resetChanges [OF c h a]
  have h1: "isStateHandle (achanges A) \<sigma>1" using c1(2) h by simp
  from collecting_state_update(1) [OF c1(1) h1 b] show ?thesis
    unfolding e splice_value_def by (rule collecting_heap(1))
qed

lemma collecting_arr_delete:
  assumes c: "collecting D \<sigma>" and h: "isStateHandle (achanges A) \<sigma>"
      and r: "arr_delete A startIndex endIndexOpt \<sigma> = Ok () \<sigma>'"
  shows "collecting D \<sigma>'"
proof -
  define e where "e = (case endIndexOpt of None \<Rightarrow> startIndex | Some e \<Rightarrow> e)"
  obtain \<sigma>1 \<sigma>2 where a: "resetChanges A \<sigma> = Ok () \<sigma>1"
    and b: "state_update (achanges A)
                       (\<lambda>c. \<lparr>changes = changes c @ [Delete startIndex (e - startIndex + 1)],
                             newLength = newLength c - (e - startIndex + 1)\<rparr>) \<sigma>1 = Ok () \<sigma>2"
    and s: "\<sigma>' = splice_value A startIndex (e - startIndex + 1) [] \<sigma>2"
    using r unfolding arr_delete_def Let_def e_def [symmetric]
    by (auto split: if_splits result.splits)
  note c1 = collecting_resetChanges [OF c h a]
  have h1: "isStateHandle (achanges A) \<sigma>1" using c1(2) h by simp
  from collecting_state_update(1) [OF c1(1) h1 b] show ?thesis
    unfolding s splice_value_def by (rule collecting_heap(1))
qed

lemma collecting_arr_update:
  assumes c: "collecting D \<sigma>" and h: "isStateHandle (achanges A) \<sigma>"
      and r: "arr_update A index \<sigma> = Ok () \<sigma>'"
  shows "collecting D \<sigma>'"
proof -
  obtain elem \<sigma>1 where a: "resetChanges A \<sigma> = Ok () \<sigma>1"
    and b: "state_update (achanges A)
                (\<lambda>c. c\<lparr>changes := changes c @ [Replace index elem]\<rparr>) \<sigma>1 = Ok () \<sigma>'"
    using r by (auto simp: arr_update_def split: option.splits result.splits)
  note c1 = collecting_resetChanges [OF c h a]
  have h1: "isStateHandle (achanges A) \<sigma>1" using c1(2) h by simp
  from collecting_state_update(1) [OF c1(1) h1 b] show ?thesis .
qed

lemma collecting_arr_replace:
  assumes c: "collecting D \<sigma>" and h: "isStateHandle (achanges A) \<sigma>"
      and r: "arr_replace A index newValue \<sigma> = Ok () \<sigma>'"
  shows "collecting D \<sigma>'"
proof -
  obtain \<sigma>1 where a: "resetChanges A \<sigma> = Ok () \<sigma>1"
    and b: "state_update (achanges A)
            (\<lambda>c. c\<lparr>changes := changes c @ [Replace index newValue]\<rparr>)
            (\<sigma>1\<lparr>arrays := (arrays \<sigma>1)(avalue A := js_set (arrays \<sigma>1 (avalue A)) index newValue)\<rparr>)
            = Ok () \<sigma>'"
    using r by (auto simp: arr_replace_def split: result.splits)
  note c1 = collecting_resetChanges [OF c h a]
  let ?\<sigma>2 = "\<sigma>1\<lparr>arrays := (arrays \<sigma>1)(avalue A := js_set (arrays \<sigma>1 (avalue A)) index newValue)\<rparr>"
  have h2: "isStateHandle (achanges A) ?\<sigma>2" using c1(2) h by (simp add: isStateHandle_def)
  from collecting_state_update(1) [OF collecting_heap(1) [OF c1(1)] h2 b] show ?thesis .
qed

lemma arr_move_fails: "arr_move A oldIndex newIndex \<sigma> \<noteq> Ok u \<sigma>'"
  by (auto simp: arr_move_def split: result.splits)

lemma andThen_Ok:
  "andThen r k = Ok u \<sigma>' \<Longrightarrow> \<exists>\<sigma>1. r = Ok () \<sigma>1 \<and> k \<sigma>1 = Ok u \<sigma>'"
  by (cases r) (simp_all add: andThen_def)

lemma andThen_fails: "(\<And>\<sigma>1. r \<noteq> Ok () \<sigma>1) \<Longrightarrow> andThen r k \<noteq> Ok u \<sigma>'"
  by (cases r) (auto simp: andThen_def)

lemma collecting_runBatch:
  "plainBatch D b \<Longrightarrow> collecting D \<sigma> \<Longrightarrow> runBatch upd b \<sigma> = Ok () \<sigma>' \<Longrightarrow> collecting D \<sigma>'"
proof (induction b arbitrary: \<sigma>)
  case Finish
  then show ?case by simp
next
  case (ReadValue t k)
  obtain v \<sigma>1 where g: "getValue upd t \<sigma> = Ok v \<sigma>1" and r: "runBatch upd (k v) \<sigma>1 = Ok () \<sigma>'"
    using ReadValue.prems(3) by (auto split: result.splits)
  have m: "mode \<sigma> = UpdatingState" using collecting_mode [OF ReadValue.prems(2)] .
  have e: "\<sigma>1 = \<sigma>" "v = tvalue (trackers \<sigma> t)" "isStateHandle t \<sigma> \<or> isDerivedHandle t \<sigma>"
    using getValue_no_stack [OF no_stack_outside_derivations _ g] m by simp_all
  have "readable \<sigma> t" using e(3) unfolding readable_def by blast
  then have "admits D v"
    using wf_admits [OF collecting_wf [OF ReadValue.prems(2)]] e(2) by simp
  then have "plainBatch D (k v)" using ReadValue.prems(1) by simp
  from ReadValue.IH [OF rangeI this ReadValue.prems(2)] r e(1) show ?case by simp
next
  case (SetValue t v b)
  have h: "isStateHandle t \<sigma>" using SetValue.prems(3) by (auto split: if_splits)
  obtain \<sigma>1 where s: "set_value t v \<sigma> = Ok () \<sigma>1" and r: "runBatch upd b \<sigma>1 = Ok () \<sigma>'"
    using SetValue.prems(3) h andThen_Ok [of "set_value t v \<sigma>" "runBatch upd b" "()" \<sigma>']
    by auto
  have "admits D v" using SetValue.prems(1) by (simp add: admits_def)
  from collecting_set_value(1) [OF SetValue.prems(2) h this s]
  have "collecting D \<sigma>1" .
  from SetValue.IH [OF _ this r] SetValue.prems(1) show ?case by simp
next
  case (UpdateValue t callback b)
  have h: "isStateHandle t \<sigma>" using UpdateValue.prems(3) by (auto split: if_splits)
  obtain \<sigma>1 where s: "state_update t callback \<sigma> = Ok () \<sigma>1" and r: "runBatch upd b \<sigma>1 = Ok () \<sigma>'"
    using UpdateValue.prems(3) h
      andThen_Ok [of "state_update t callback \<sigma>" "runBatch upd b" "()" \<sigma>']
    by auto
  have "collecting D \<sigma>1"
    using collecting_state_update(1) [OF UpdateValue.prems(2) h s] .
  from UpdateValue.IH [OF _ this r] UpdateValue.prems(1) show ?case by simp
next
  case (InsertAt A index vs b)
  have h: "isStateHandle (achanges A) \<sigma>" using InsertAt.prems(3) by (auto split: if_splits)
  obtain \<sigma>1 where s: "insertAt A index vs \<sigma> = Ok () \<sigma>1" and r: "runBatch upd b \<sigma>1 = Ok () \<sigma>'"
    using InsertAt.prems(3) h
      andThen_Ok [of "insertAt A index vs \<sigma>" "runBatch upd b" "()" \<sigma>'] by auto
  from InsertAt.IH [OF _ collecting_insertAt [OF InsertAt.prems(2) h s] r] InsertAt.prems(1)
  show ?case by simp
next
  case (InsertFirst A vs b)
  have h: "isStateHandle (achanges A) \<sigma>" using InsertFirst.prems(3) by (auto split: if_splits)
  obtain \<sigma>1 where s: "insertAt A 0 vs \<sigma> = Ok () \<sigma>1" and r: "runBatch upd b \<sigma>1 = Ok () \<sigma>'"
    using InsertFirst.prems(3) h
      andThen_Ok [of "arr_insert A vs \<sigma>" "runBatch upd b" "()" \<sigma>'] by (auto simp: arr_insert_def)
  from InsertFirst.IH [OF _ collecting_insertAt [OF InsertFirst.prems(2) h s] r] InsertFirst.prems(1)
  show ?case by simp
next
  case (Append A vs b)
  have h: "isStateHandle (achanges A) \<sigma>" using Append.prems(3) by (auto split: if_splits)
  obtain \<sigma>1 where s: "insertAt A (js_length (arrays \<sigma> (avalue A))) vs \<sigma> = Ok () \<sigma>1"
    and r: "runBatch upd b \<sigma>1 = Ok () \<sigma>'"
    using Append.prems(3) h
      andThen_Ok [of "arr_append A vs \<sigma>" "runBatch upd b" "()" \<sigma>'] by (auto simp: arr_append_def)
  from Append.IH [OF _ collecting_insertAt [OF Append.prems(2) h s] r] Append.prems(1)
  show ?case by simp
next
  case (DeleteRange A startIndex endIndex b)
  have h: "isStateHandle (achanges A) \<sigma>" using DeleteRange.prems(3) by (auto split: if_splits)
  obtain \<sigma>1 where s: "arr_delete A startIndex endIndex \<sigma> = Ok () \<sigma>1"
    and r: "runBatch upd b \<sigma>1 = Ok () \<sigma>'"
    using DeleteRange.prems(3) h
      andThen_Ok [of "arr_delete A startIndex endIndex \<sigma>" "runBatch upd b" "()" \<sigma>'] by auto
  from DeleteRange.IH [OF _ collecting_arr_delete [OF DeleteRange.prems(2) h s] r]
    DeleteRange.prems(1)
  show ?case by simp
next
  case (UpdateAt A index b)
  have h: "isStateHandle (achanges A) \<sigma>" using UpdateAt.prems(3) by (auto split: if_splits)
  obtain \<sigma>1 where s: "arr_update A index \<sigma> = Ok () \<sigma>1" and r: "runBatch upd b \<sigma>1 = Ok () \<sigma>'"
    using UpdateAt.prems(3) h
      andThen_Ok [of "arr_update A index \<sigma>" "runBatch upd b" "()" \<sigma>'] by auto
  from UpdateAt.IH [OF _ collecting_arr_update [OF UpdateAt.prems(2) h s] r] UpdateAt.prems(1)
  show ?case by simp
next
  case (ReplaceAt A index newValue b)
  have h: "isStateHandle (achanges A) \<sigma>" using ReplaceAt.prems(3) by (auto split: if_splits)
  obtain \<sigma>1 where s: "arr_replace A index newValue \<sigma> = Ok () \<sigma>1"
    and r: "runBatch upd b \<sigma>1 = Ok () \<sigma>'"
    using ReplaceAt.prems(3) h
      andThen_Ok [of "arr_replace A index newValue \<sigma>" "runBatch upd b" "()" \<sigma>'] by auto
  from ReplaceAt.IH [OF _ collecting_arr_replace [OF ReplaceAt.prems(2) h s] r] ReplaceAt.prems(1)
  show ?case by simp
next
  case (MoveTo A oldIndex newIndex b)
  have "andThen (arr_move A oldIndex newIndex \<sigma>) (runBatch upd b) \<noteq> Ok () \<sigma>'"
    by (rule andThen_fails) (rule arr_move_fails)
  then show ?case using MoveTo.prems(3) by (simp split: if_splits)
qed

subsection \<open>The batch callback shares no object\<close>

lemma owned_step:
  assumes o: "owned \<sigma>" and n: "ntrackers \<sigma> \<le> ntrackers \<sigma>'" and m: "nobjects \<sigma> \<le> nobjects \<sigma>'"
      and v: "\<And>t i c. t < ntrackers \<sigma>' \<Longrightarrow> tvalue (trackers \<sigma>' t) = Obj i c \<Longrightarrow>
                (t < ntrackers \<sigma> \<and> (\<exists>c0. tvalue (trackers \<sigma> t) = Obj i c0))
              \<or> (nobjects \<sigma> \<le> i \<and> i < nobjects \<sigma>'
                  \<and> (\<forall>t' c'. t' < ntrackers \<sigma>' \<and> tvalue (trackers \<sigma>' t') = Obj i c' \<longrightarrow> t' = t))"
  shows "owned \<sigma>'"
  unfolding owned_def
proof (intro allI impI, elim conjE)
  fix t i c assume t: "t < ntrackers \<sigma>'" "tvalue (trackers \<sigma>' t) = Obj i c"
  from v [OF t] show "i < nobjects \<sigma>'
        \<and> (\<forall>t' c'. t' < ntrackers \<sigma>' \<and> tvalue (trackers \<sigma>' t') = Obj i c' \<longrightarrow> t' = t)"
  proof
    assume a: "t < ntrackers \<sigma> \<and> (\<exists>c0. tvalue (trackers \<sigma> t) = Obj i c0)"
    then obtain c0 where c0: "tvalue (trackers \<sigma> t) = Obj i c0" by blast
    have i: "i < nobjects \<sigma>" using o a c0 unfolding owned_def by blast
    have "t' = t" if t': "t' < ntrackers \<sigma>'" "tvalue (trackers \<sigma>' t') = Obj i c'" for t' c'
    proof -
      from v [OF t'] i obtain c1 where "t' < ntrackers \<sigma>" "tvalue (trackers \<sigma> t') = Obj i c1"
        by auto
      then show ?thesis using o a c0 unfolding owned_def by blast
    qed
    then show ?thesis using i m by auto
  next
    assume "nobjects \<sigma> \<le> i \<and> i < nobjects \<sigma>'
        \<and> (\<forall>t' c'. t' < ntrackers \<sigma>' \<and> tvalue (trackers \<sigma>' t') = Obj i c' \<longrightarrow> t' = t)"
    then show ?thesis by blast
  qed
qed

lemma owned_same:
  assumes "owned \<sigma>" "ntrackers \<sigma>' = ntrackers \<sigma>" "nobjects \<sigma>' = nobjects \<sigma>"
      and "\<And>t. t < ntrackers \<sigma> \<Longrightarrow> tvalue (trackers \<sigma>' t) = tvalue (trackers \<sigma> t)
                \<or> isPrimitive (tvalue (trackers \<sigma>' t))"
  shows "owned \<sigma>'"
proof (rule owned_step [OF assms(1)])
  fix t i c assume t: "t < ntrackers \<sigma>'" "tvalue (trackers \<sigma>' t) = Obj i c"
  then have "tvalue (trackers \<sigma>' t) = tvalue (trackers \<sigma> t)"
    using assms(4) [of t] assms(2) by auto
  then have "tvalue (trackers \<sigma> t) = Obj i c" using t(2) by simp
  then have "t < ntrackers \<sigma> \<and> (\<exists>c0. tvalue (trackers \<sigma> t) = Obj i c0)"
    using t(1) assms(2) by simp
  then show "(t < ntrackers \<sigma> \<and> (\<exists>c0. tvalue (trackers \<sigma> t) = Obj i c0))
              \<or> (nobjects \<sigma> \<le> i \<and> i < nobjects \<sigma>'
                  \<and> (\<forall>t' c'. t' < ntrackers \<sigma>' \<and> tvalue (trackers \<sigma>' t') = Obj i c' \<longrightarrow> t' = t))"
    by simp
qed (simp_all add: assms)

lemma owned_heap [simp]:
  "owned (\<sigma>\<lparr>arrays := a\<rparr>) = owned \<sigma>"
  by (simp add: owned_def)

lemma owned_cong:
  assumes "ntrackers \<sigma>' = ntrackers \<sigma>" "nobjects \<sigma>' = nobjects \<sigma>"
      and "\<And>t. tvalue (trackers \<sigma>' t) = tvalue (trackers \<sigma> t)"
  shows "owned \<sigma>' = owned \<sigma>"
  by (simp add: owned_def assms)

lemma plain_isPrimitive: "plain v \<Longrightarrow> isPrimitive v"
  by (cases v) simp_all

lemma owned_store:
  assumes o: "owned \<sigma>"
      and s: "handleValueChange t (upd_tracker t (\<lambda>tr. tr\<lparr>tvalue := v\<rparr>) \<sigma>) = Ok () \<sigma>'"
      and v: "isPrimitive v \<or> (\<exists>i c0 c. tvalue (trackers \<sigma> t) = Obj i c0 \<and> v = Obj i c)"
  shows "owned \<sigma>'"
proof (rule owned_step [OF o])
  note f = handleValueChange_ok [OF s]
  have tr: "tvalue (trackers \<sigma>' x) = (if x = t then v else tvalue (trackers \<sigma> x))" for x
    using f(5) [of x] f(6) by (cases "x = t"; simp add: upd_tracker_def)
  show "ntrackers \<sigma> \<le> ntrackers \<sigma>'" "nobjects \<sigma> \<le> nobjects \<sigma>'"
    using f(2,10) by simp_all
  fix x i c assume x: "x < ntrackers \<sigma>'" "tvalue (trackers \<sigma>' x) = Obj i c"
  have "x < ntrackers \<sigma> \<and> (\<exists>c0. tvalue (trackers \<sigma> x) = Obj i c0)"
    using x v f(2) by (auto simp: tr split: if_splits)
  then show "(x < ntrackers \<sigma> \<and> (\<exists>c0. tvalue (trackers \<sigma> x) = Obj i c0))
              \<or> (nobjects \<sigma> \<le> i \<and> i < nobjects \<sigma>'
                  \<and> (\<forall>t' c'. t' < ntrackers \<sigma>' \<and> tvalue (trackers \<sigma>' t') = Obj i c' \<longrightarrow> t' = x))"
    by simp
qed

lemma owned_store_fresh:
  assumes o: "owned \<sigma>"
      and s: "handleValueChange t
                (upd_tracker t (\<lambda>tr. tr\<lparr>tvalue := Obj (nobjects \<sigma>) c\<rparr>)
                   (\<sigma>\<lparr>nobjects := Suc (nobjects \<sigma>)\<rparr>)) = Ok () \<sigma>'"
  shows "owned \<sigma>'"
proof (rule owned_step [OF o])
  note f = handleValueChange_ok [OF s]
  have tr: "tvalue (trackers \<sigma>' x) = (if x = t then Obj (nobjects \<sigma>) c else tvalue (trackers \<sigma> x))" for x
    using f(5) [of x] f(6) by (cases "x = t"; simp add: upd_tracker_def)
  have n: "ntrackers \<sigma>' = ntrackers \<sigma>" "nobjects \<sigma>' = Suc (nobjects \<sigma>)"
    using f(2,10) by simp_all
  show "ntrackers \<sigma> \<le> ntrackers \<sigma>'" "nobjects \<sigma> \<le> nobjects \<sigma>'"
    using n by simp_all
  fix x i c1 assume x: "x < ntrackers \<sigma>'" "tvalue (trackers \<sigma>' x) = Obj i c1"
  show "(x < ntrackers \<sigma> \<and> (\<exists>c0. tvalue (trackers \<sigma> x) = Obj i c0))
              \<or> (nobjects \<sigma> \<le> i \<and> i < nobjects \<sigma>'
                  \<and> (\<forall>t' c'. t' < ntrackers \<sigma>' \<and> tvalue (trackers \<sigma>' t') = Obj i c' \<longrightarrow> t' = x))"
  proof (cases "x = t")
    case False
    then show ?thesis using x n by (simp add: tr)
  next
    case True
    then have i: "i = nobjects \<sigma>" using x by (simp add: tr)
    have "t' = x" if "t' < ntrackers \<sigma>'" "tvalue (trackers \<sigma>' t') = Obj i c'" for t' c'
    proof (rule ccontr)
      assume "t' \<noteq> x"
      then have "tvalue (trackers \<sigma> t') = Obj (nobjects \<sigma>) c'" "t' < ntrackers \<sigma>"
        using that True i n by (simp_all add: tr)
      then have "nobjects \<sigma> < nobjects \<sigma>" using o unfolding owned_def by blast
      then show False by simp
    qed
    then show ?thesis using i n by auto
  qed
qed

lemma owned_set_value:
  assumes "owned \<sigma>" "isPrimitive v" "set_value t v \<sigma> = Ok () \<sigma>'"
  shows "owned \<sigma>'"
proof (cases "strict_eq (tvalue (trackers \<sigma> t)) v")
  case True
  then show ?thesis using assms by (simp add: set_value_def split: if_splits)
next
  case False
  then have "handleValueChange t (upd_tracker t (\<lambda>tr. tr\<lparr>tvalue := v\<rparr>) \<sigma>) = Ok () \<sigma>'"
    using assms by (simp add: set_value_def split: if_splits)
  from owned_store [OF assms(1) this] assms(2) show ?thesis by simp
qed

lemma owned_state_update:
  assumes "owned \<sigma>" "state_update t callback \<sigma> = Ok () \<sigma>'"
  shows "owned \<sigma>'"
proof -
  have "upd_tracker t (\<lambda>tr. tr\<lparr>tvalue := in_place callback (tvalue tr)\<rparr>) \<sigma>
        = upd_tracker t (\<lambda>tr. tr\<lparr>tvalue := in_place callback (tvalue (trackers \<sigma> t))\<rparr>) \<sigma>"
    by (simp add: upd_tracker_def)
  then have h: "handleValueChange t
      (upd_tracker t (\<lambda>tr. tr\<lparr>tvalue := in_place callback (tvalue (trackers \<sigma> t))\<rparr>) \<sigma>) = Ok () \<sigma>'"
    using assms by (simp add: state_update_def split: if_splits)
  have "isPrimitive (in_place callback (tvalue (trackers \<sigma> t)))
        \<or> (\<exists>i c0 c. tvalue (trackers \<sigma> t) = Obj i c0
               \<and> in_place callback (tvalue (trackers \<sigma> t)) = Obj i c)"
    by (cases "tvalue (trackers \<sigma> t)") simp_all
  from owned_store [OF assms(1) h this] show ?thesis .
qed

lemma owned_resetChanges:
  assumes o: "owned \<sigma>" and r: "resetChanges A \<sigma> = Ok () \<sigma>'"
  shows "owned \<sigma>'"
proof -
  have m: "mode \<sigma> = UpdatingState"
    using r by (auto simp: resetChanges_def hasChangedWhileUpdatingState_def split: if_splits)
  show ?thesis
  proof (cases "hasChanged (trackers \<sigma> (achanges A))")
    case True
    then have "\<sigma>' = \<sigma>" using r m by (simp add: resetChanges_def hasChangedWhileUpdatingState_def)
    then show ?thesis using o by simp
  next
    case False
    let ?\<sigma>1 = "\<sigma>\<lparr>nobjects := Suc (nobjects \<sigma>)\<rparr>"
    let ?v = "Obj (nobjects \<sigma>) \<lparr>changes = [], newLength = js_length (arrays \<sigma> (avalue A))\<rparr>"
    have s: "set_value (achanges A) ?v ?\<sigma>1 = Ok () \<sigma>'"
      using r m False by (simp add: resetChanges_def hasChangedWhileUpdatingState_def)
    show ?thesis
    proof (cases "strict_eq (tvalue (trackers \<sigma> (achanges A))) ?v")
      case True
      then have "\<sigma>' = ?\<sigma>1" using s m by (simp add: set_value_def)
      then show ?thesis using o by (auto simp: owned_def less_Suc_eq)
    next
      case False
      then have "handleValueChange (achanges A)
                (upd_tracker (achanges A) (\<lambda>tr. tr\<lparr>tvalue := ?v\<rparr>) ?\<sigma>1) = Ok () \<sigma>'"
        using s m by (simp add: set_value_def)
      from owned_store_fresh [OF o this] show ?thesis .
    qed
  qed
qed

lemma owned_insertAt:
  assumes o: "owned \<sigma>" and r: "insertAt A index vs \<sigma> = Ok () \<sigma>'"
  shows "owned \<sigma>'"
proof -
  obtain \<sigma>1 \<sigma>2 where a: "resetChanges A \<sigma> = Ok () \<sigma>1"
    and b: "state_update (achanges A)
                    (\<lambda>c. \<lparr>changes = changes c @ [Insert index vs],
                          newLength = newLength c + int (length vs)\<rparr>) \<sigma>1 = Ok () \<sigma>2"
    and e: "\<sigma>' = splice_value A index 0 vs \<sigma>2"
    using r by (auto simp: insertAt_def split: if_splits result.splits)
  from owned_state_update [OF owned_resetChanges [OF o a] b] show ?thesis
    unfolding e splice_value_def by simp
qed

lemma owned_arr_delete:
  assumes o: "owned \<sigma>" and r: "arr_delete A startIndex endIndexOpt \<sigma> = Ok () \<sigma>'"
  shows "owned \<sigma>'"
proof -
  define e where "e = (case endIndexOpt of None \<Rightarrow> startIndex | Some e \<Rightarrow> e)"
  obtain \<sigma>1 \<sigma>2 where a: "resetChanges A \<sigma> = Ok () \<sigma>1"
    and b: "state_update (achanges A)
                       (\<lambda>c. \<lparr>changes = changes c @ [Delete startIndex (e - startIndex + 1)],
                             newLength = newLength c - (e - startIndex + 1)\<rparr>) \<sigma>1 = Ok () \<sigma>2"
    and s: "\<sigma>' = splice_value A startIndex (e - startIndex + 1) [] \<sigma>2"
    using r unfolding arr_delete_def Let_def e_def [symmetric]
    by (auto split: if_splits result.splits)
  from owned_state_update [OF owned_resetChanges [OF o a] b] show ?thesis
    unfolding s splice_value_def by simp
qed

lemma owned_arr_update:
  assumes o: "owned \<sigma>" and r: "arr_update A index \<sigma> = Ok () \<sigma>'"
  shows "owned \<sigma>'"
proof -
  obtain elem \<sigma>1 where a: "resetChanges A \<sigma> = Ok () \<sigma>1"
    and b: "state_update (achanges A)
                (\<lambda>c. c\<lparr>changes := changes c @ [Replace index elem]\<rparr>) \<sigma>1 = Ok () \<sigma>'"
    using r by (auto simp: arr_update_def split: option.splits result.splits)
  from owned_state_update [OF owned_resetChanges [OF o a] b] show ?thesis .
qed

lemma owned_arr_replace:
  assumes o: "owned \<sigma>" and r: "arr_replace A index newValue \<sigma> = Ok () \<sigma>'"
  shows "owned \<sigma>'"
proof -
  obtain \<sigma>1 where a: "resetChanges A \<sigma> = Ok () \<sigma>1"
    and b: "state_update (achanges A)
            (\<lambda>c. c\<lparr>changes := changes c @ [Replace index newValue]\<rparr>)
            (\<sigma>1\<lparr>arrays := (arrays \<sigma>1)(avalue A := js_set (arrays \<sigma>1 (avalue A)) index newValue)\<rparr>)
            = Ok () \<sigma>'"
    using r by (auto simp: arr_replace_def split: result.splits)
  have "owned (\<sigma>1\<lparr>arrays := (arrays \<sigma>1)(avalue A := js_set (arrays \<sigma>1 (avalue A)) index newValue)\<rparr>)"
    using owned_resetChanges [OF o a] by simp
  from owned_state_update [OF this b] show ?thesis .
qed

lemma owned_runBatch:
  "plainBatch D b \<Longrightarrow> collecting D \<sigma> \<Longrightarrow> owned \<sigma> \<Longrightarrow>
   runBatch upd b \<sigma> = Ok () \<sigma>' \<Longrightarrow> owned \<sigma>'"
proof (induction b arbitrary: \<sigma>)
  case Finish
  then show ?case by simp
next
  case (ReadValue t k)
  obtain v \<sigma>1 where g: "getValue upd t \<sigma> = Ok v \<sigma>1" and r: "runBatch upd (k v) \<sigma>1 = Ok () \<sigma>'"
    using ReadValue.prems(4) by (auto split: result.splits)
  have m: "mode \<sigma> = UpdatingState" using collecting_mode [OF ReadValue.prems(2)] .
  have e: "\<sigma>1 = \<sigma>" "v = tvalue (trackers \<sigma> t)" "isStateHandle t \<sigma> \<or> isDerivedHandle t \<sigma>"
    using getValue_no_stack [OF no_stack_outside_derivations _ g] m by simp_all
  have "readable \<sigma> t" using e(3) unfolding readable_def by blast
  then have "admits D v"
    using wf_admits [OF collecting_wf [OF ReadValue.prems(2)]] e(2) by simp
  then have "plainBatch D (k v)" using ReadValue.prems(1) by simp
  from ReadValue.IH [OF rangeI this ReadValue.prems(2,3)] r e(1) show ?case by simp
next
  case (SetValue t v b)
  have h: "isStateHandle t \<sigma>" using SetValue.prems(4) by (auto split: if_splits)
  obtain \<sigma>1 where s: "set_value t v \<sigma> = Ok () \<sigma>1" and r: "runBatch upd b \<sigma>1 = Ok () \<sigma>'"
    using SetValue.prems(4) h andThen_Ok [of "set_value t v \<sigma>" "runBatch upd b" "()" \<sigma>']
    by auto
  have "admits D v" using SetValue.prems(1) by (simp add: admits_def)
  from collecting_set_value(1) [OF SetValue.prems(2) h this s]
  have c: "collecting D \<sigma>1" .
  have "owned \<sigma>1" using owned_set_value [OF SetValue.prems(3) _ s] SetValue.prems(1) by simp
  from SetValue.IH [OF _ c this r] SetValue.prems(1) show ?case by simp
next
  case (UpdateValue t callback b)
  have h: "isStateHandle t \<sigma>" using UpdateValue.prems(4) by (auto split: if_splits)
  obtain \<sigma>1 where s: "state_update t callback \<sigma> = Ok () \<sigma>1" and r: "runBatch upd b \<sigma>1 = Ok () \<sigma>'"
    using UpdateValue.prems(4) h
      andThen_Ok [of "state_update t callback \<sigma>" "runBatch upd b" "()" \<sigma>']
    by auto
  from UpdateValue.IH [OF _ collecting_state_update(1) [OF UpdateValue.prems(2) h s]
         owned_state_update [OF UpdateValue.prems(3) s] r]
    UpdateValue.prems(1)
  show ?case by simp
next
  case (InsertAt A index vs b)
  have h: "isStateHandle (achanges A) \<sigma>" using InsertAt.prems(4) by (auto split: if_splits)
  obtain \<sigma>1 where s: "insertAt A index vs \<sigma> = Ok () \<sigma>1" and r: "runBatch upd b \<sigma>1 = Ok () \<sigma>'"
    using InsertAt.prems(4) h
      andThen_Ok [of "insertAt A index vs \<sigma>" "runBatch upd b" "()" \<sigma>'] by auto
  from InsertAt.IH [OF _ collecting_insertAt [OF InsertAt.prems(2) h s] owned_insertAt [OF InsertAt.prems(3) s] r]
    InsertAt.prems(1)
  show ?case by simp
next
  case (InsertFirst A vs b)
  have h: "isStateHandle (achanges A) \<sigma>" using InsertFirst.prems(4) by (auto split: if_splits)
  obtain \<sigma>1 where s: "insertAt A 0 vs \<sigma> = Ok () \<sigma>1" and r: "runBatch upd b \<sigma>1 = Ok () \<sigma>'"
    using InsertFirst.prems(4) h
      andThen_Ok [of "arr_insert A vs \<sigma>" "runBatch upd b" "()" \<sigma>'] by (auto simp: arr_insert_def)
  from InsertFirst.IH [OF _ collecting_insertAt [OF InsertFirst.prems(2) h s] owned_insertAt [OF InsertFirst.prems(3) s] r]
    InsertFirst.prems(1)
  show ?case by simp
next
  case (Append A vs b)
  have h: "isStateHandle (achanges A) \<sigma>" using Append.prems(4) by (auto split: if_splits)
  obtain \<sigma>1 where s: "insertAt A (js_length (arrays \<sigma> (avalue A))) vs \<sigma> = Ok () \<sigma>1" and r: "runBatch upd b \<sigma>1 = Ok () \<sigma>'"
    using Append.prems(4) h
      andThen_Ok [of "arr_append A vs \<sigma>" "runBatch upd b" "()" \<sigma>'] by (auto simp: arr_append_def)
  from Append.IH [OF _ collecting_insertAt [OF Append.prems(2) h s] owned_insertAt [OF Append.prems(3) s] r]
    Append.prems(1)
  show ?case by simp
next
  case (DeleteRange A startIndex endIndex b)
  have h: "isStateHandle (achanges A) \<sigma>" using DeleteRange.prems(4) by (auto split: if_splits)
  obtain \<sigma>1 where s: "arr_delete A startIndex endIndex \<sigma> = Ok () \<sigma>1" and r: "runBatch upd b \<sigma>1 = Ok () \<sigma>'"
    using DeleteRange.prems(4) h
      andThen_Ok [of "arr_delete A startIndex endIndex \<sigma>" "runBatch upd b" "()" \<sigma>'] by auto
  from DeleteRange.IH [OF _ collecting_arr_delete [OF DeleteRange.prems(2) h s] owned_arr_delete [OF DeleteRange.prems(3) s] r]
    DeleteRange.prems(1)
  show ?case by simp
next
  case (UpdateAt A index b)
  have h: "isStateHandle (achanges A) \<sigma>" using UpdateAt.prems(4) by (auto split: if_splits)
  obtain \<sigma>1 where s: "arr_update A index \<sigma> = Ok () \<sigma>1" and r: "runBatch upd b \<sigma>1 = Ok () \<sigma>'"
    using UpdateAt.prems(4) h
      andThen_Ok [of "arr_update A index \<sigma>" "runBatch upd b" "()" \<sigma>'] by auto
  from UpdateAt.IH [OF _ collecting_arr_update [OF UpdateAt.prems(2) h s] owned_arr_update [OF UpdateAt.prems(3) s] r]
    UpdateAt.prems(1)
  show ?case by simp
next
  case (ReplaceAt A index newValue b)
  have h: "isStateHandle (achanges A) \<sigma>" using ReplaceAt.prems(4) by (auto split: if_splits)
  obtain \<sigma>1 where s: "arr_replace A index newValue \<sigma> = Ok () \<sigma>1" and r: "runBatch upd b \<sigma>1 = Ok () \<sigma>'"
    using ReplaceAt.prems(4) h
      andThen_Ok [of "arr_replace A index newValue \<sigma>" "runBatch upd b" "()" \<sigma>'] by auto
  from ReplaceAt.IH [OF _ collecting_arr_replace [OF ReplaceAt.prems(2) h s] owned_arr_replace [OF ReplaceAt.prems(3) s] r]
    ReplaceAt.prems(1)
  show ?case by simp
next
  case (MoveTo A oldIndex newIndex b)
  have "andThen (arr_move A oldIndex newIndex \<sigma>) (runBatch upd b) \<noteq> Ok () \<sigma>'"
    by (rule andThen_fails) (rule arr_move_fails)
  then show ?case using MoveTo.prems(4) by (simp split: if_splits)
qed

subsection \<open>\<^verbatim>\<open>updateState\<close> from rest to rest\<close>

lemma effectArguments_quiet:
  "getDerivationBeingComputed \<sigma> = None \<Longrightarrow> mode \<sigma> \<noteq> UpdatingDerivedSignals \<Longrightarrow>
   effectArguments upd fs \<sigma> = Ok args \<sigma>' \<Longrightarrow> \<sigma>' = \<sigma>"
proof (induction fs arbitrary: args)
  case Nil
  then show ?case by simp
next
  case (Cons f fs)
  obtain v \<sigma>1 args' where g: "getValue upd f \<sigma> = Ok v \<sigma>1"
      and a: "effectArguments upd fs \<sigma>1 = Ok args' \<sigma>'"
    using Cons.prems(3) by (auto split: result.splits)
  have "\<sigma>1 = \<sigma>" using getValue_no_stack [OF Cons.prems(1,2) g] by simp
  then show ?case using Cons.IH [OF Cons.prems(1,2)] a by simp
qed

lemma runEffect_quiet:
  assumes "getDerivationBeingComputed \<sigma> = None" "mode \<sigma> \<noteq> UpdatingDerivedSignals"
      and "runEffect upd e \<sigma> = Ok () \<sigma>'"
  shows "\<exists>tr. \<sigma>' = \<sigma>\<lparr>trace := tr\<rparr>"
proof -
  obtain args \<sigma>1 where a: "effectArguments upd (effects \<sigma> e) \<sigma> = Ok args \<sigma>1"
      and e: "\<sigma>' = \<sigma>1\<lparr>trace := trace \<sigma>1 @ [EffectRan e args]\<rparr>"
    using assms(3) by (auto simp: runEffect_def split: result.splits)
  have "\<sigma>1 = \<sigma>" using effectArguments_quiet [OF assms(1,2) a] .
  then show ?thesis using e by blast
qed

lemma runEffects_quiet:
  "mode \<sigma> = RunningEffects \<Longrightarrow> runEffects upd es \<sigma> = Ok () \<sigma>' \<Longrightarrow> \<exists>tr. \<sigma>' = \<sigma>\<lparr>trace := tr\<rparr>"
proof (induction es arbitrary: \<sigma>)
  case Nil
  then have "\<sigma>' = \<sigma>\<lparr>trace := trace \<sigma>\<rparr>" by simp
  then show ?case by blast
next
  case (Cons e es)
  obtain \<sigma>1 where r: "runEffect upd e \<sigma> = Ok () \<sigma>1" and s: "runEffects upd es \<sigma>1 = Ok () \<sigma>'"
    using Cons.prems(2) andThen_Ok [of "runEffect upd e \<sigma>" "runEffects upd es" "()" \<sigma>'] by auto
  have "getDerivationBeingComputed \<sigma> = None"
    using Cons.prems(1) by (simp add: getDerivationBeingComputed_def)
  from runEffect_quiet [OF this _ r] Cons.prems(1)
  obtain tr where t: "\<sigma>1 = \<sigma>\<lparr>trace := tr\<rparr>" by auto
  then have "mode \<sigma>1 = RunningEffects" using Cons.prems(1) by simp
  from Cons.IH [OF this s] obtain tr' where "\<sigma>' = \<sigma>1\<lparr>trace := tr'\<rparr>" by blast
  then have "\<sigma>' = \<sigma>\<lparr>trace := tr'\<rparr>" using t by simp
  then show ?case by blast
qed

lemma clearChanged_ok:
  "clearChanged ss \<sigma> = Ok () \<sigma>' \<Longrightarrow>
   \<exists>f. \<sigma>' = \<sigma>\<lparr>trackers := f\<rparr>
      \<and> (\<forall>x. f x = (trackers \<sigma> x)\<lparr>hasChanged := hasChanged (trackers \<sigma> x) \<and> x \<notin> set ss\<rparr>)"
proof (induction ss arbitrary: \<sigma>)
  case Nil
  then have "\<sigma>' = \<sigma>\<lparr>trackers := trackers \<sigma>\<rparr>" by simp
  then show ?case by (intro exI [of _ "trackers \<sigma>"]) simp
next
  case (Cons s ss)
  let ?\<sigma>1 = "upd_tracker s (\<lambda>tr. tr\<lparr>hasChanged := False\<rparr>) \<sigma>"
  have c: "clearChanged ss ?\<sigma>1 = Ok () \<sigma>'"
    using Cons.prems by (simp split: if_splits)
  from Cons.IH [OF c] obtain f where f: "\<sigma>' = ?\<sigma>1\<lparr>trackers := f\<rparr>"
      "\<forall>x. f x = (trackers ?\<sigma>1 x)\<lparr>hasChanged := hasChanged (trackers ?\<sigma>1 x) \<and> x \<notin> set ss\<rparr>"
    by blast
  have "\<sigma>' = \<sigma>\<lparr>trackers := f\<rparr>" using f(1) by (simp add: upd_tracker_def)
  moreover have "\<forall>x. f x = (trackers \<sigma> x)\<lparr>hasChanged := hasChanged (trackers \<sigma> x) \<and> x \<notin> set (s # ss)\<rparr>"
    using f(2) by (auto simp: upd_tracker_def)
  ultimately show ?case by blast
qed

lemma atRestI:
  assumes "mode \<sigma> = Normal" "wellFormed D \<sigma>" "changedSignals \<sigma> = []"
    "derivationsBeingComputed \<sigma> = []" "\<And>d. d \<in> set (registry \<sigma>) \<Longrightarrow> consistent \<sigma> d"
  shows "atRest D \<sigma>"
  unfolding atRest_def using assms by blast

lemma atRest_mode: "atRest D \<sigma> \<Longrightarrow> mode \<sigma> = Normal"
  by (simp add: atRest_def)

lemma atRest_wf: "atRest D \<sigma> \<Longrightarrow> wellFormed D \<sigma>"
  by (simp add: atRest_def)

lemma atRest_lists: "atRest D \<sigma> \<Longrightarrow> changedSignals \<sigma> = []" "atRest D \<sigma> \<Longrightarrow> derivationsBeingComputed \<sigma> = []"
  by (simp_all add: atRest_def)

lemma atRest_consistent: "atRest D \<sigma> \<Longrightarrow> d \<in> set (registry \<sigma>) \<Longrightarrow> consistent \<sigma> d"
  unfolding atRest_def by blast

lemma atRest_no_flags: "atRest D \<sigma> \<Longrightarrow> \<not> hasChanged (trackers \<sigma> x)"
  using wf_flags [OF atRest_wf, of D \<sigma> x] atRest_lists(1) [of D \<sigma>] by auto

lemma atRest_updateState:
  assumes a: "atRest D \<sigma>" and p: "plainBatch D b" and u: "updateState n b \<sigma> = Ok () \<sigma>'"
  shows "atRest D \<sigma>'" and "owned \<sigma> \<Longrightarrow> owned \<sigma>'"
proof -
  let ?\<sigma>0 = "\<sigma>\<lparr>mode := UpdatingState, changedSignals := [],
                staleDerivedSignals := [], staleEffects := []\<rparr>"
  note w = atRest_wf [OF a]
  have m: "mode \<sigma> = Normal" using atRest_mode [OF a] .
  have u': "andThen (runBatch (updateSignal n) b ?\<sigma>0)
        (\<lambda>\<sigma>1. andThen (updateStaleSignals n n
                   (\<sigma>1\<lparr>mode := UpdatingDerivedSignals, derivationsBeingComputed := [],
                        freshDerivedSignals := []\<rparr>))
        (\<lambda>\<sigma>2. if derivationsBeingComputed \<sigma>2 \<noteq> [] then Err Unreachable \<sigma>2
              else andThen (runEffects (updateSignal n) (staleEffects \<sigma>2)
                       (\<sigma>2\<lparr>mode := RunningEffects, staleDerivedSignals := [],
                            staleEffects := [], freshDerivedSignals := [],
                            derivationsBeingComputed := []\<rparr>))
        (\<lambda>\<sigma>3. andThen (clearChanged (changedSignals \<sigma>3) \<sigma>3)
        (\<lambda>\<sigma>4. Ok () (\<sigma>4\<lparr>mode := Normal, changedSignals := []\<rparr>))))) = Ok () \<sigma>'"
    using u m by (simp add: updateState_def)
  from andThen_Ok [OF u'] obtain \<sigma>1 where
    b: "runBatch (updateSignal n) b ?\<sigma>0 = Ok () \<sigma>1" and
    u1: "andThen (updateStaleSignals n n
                   (\<sigma>1\<lparr>mode := UpdatingDerivedSignals, derivationsBeingComputed := [],
                        freshDerivedSignals := []\<rparr>))
        (\<lambda>\<sigma>2. if derivationsBeingComputed \<sigma>2 \<noteq> [] then Err Unreachable \<sigma>2
              else andThen (runEffects (updateSignal n) (staleEffects \<sigma>2)
                       (\<sigma>2\<lparr>mode := RunningEffects, staleDerivedSignals := [],
                            staleEffects := [], freshDerivedSignals := [],
                            derivationsBeingComputed := []\<rparr>))
        (\<lambda>\<sigma>3. andThen (clearChanged (changedSignals \<sigma>3) \<sigma>3)
        (\<lambda>\<sigma>4. Ok () (\<sigma>4\<lparr>mode := Normal, changedSignals := []\<rparr>)))) = Ok () \<sigma>'"
    by blast
  let ?\<sigma>1 = "\<sigma>1\<lparr>mode := UpdatingDerivedSignals, derivationsBeingComputed := [],
                        freshDerivedSignals := []\<rparr>"
  from andThen_Ok [OF u1] obtain \<sigma>2 where
    s: "updateStaleSignals n n ?\<sigma>1 = Ok () \<sigma>2" and
    u2: "(if derivationsBeingComputed \<sigma>2 \<noteq> [] then Err Unreachable \<sigma>2
              else andThen (runEffects (updateSignal n) (staleEffects \<sigma>2)
                       (\<sigma>2\<lparr>mode := RunningEffects, staleDerivedSignals := [],
                            staleEffects := [], freshDerivedSignals := [],
                            derivationsBeingComputed := []\<rparr>))
        (\<lambda>\<sigma>3. andThen (clearChanged (changedSignals \<sigma>3) \<sigma>3)
        (\<lambda>\<sigma>4. Ok () (\<sigma>4\<lparr>mode := Normal, changedSignals := []\<rparr>)))) = Ok () \<sigma>'"
    by blast
  let ?\<sigma>2 = "\<sigma>2\<lparr>mode := RunningEffects, staleDerivedSignals := [],
                            staleEffects := [], freshDerivedSignals := [],
                            derivationsBeingComputed := []\<rparr>"
  have u2': "andThen (runEffects (updateSignal n) (staleEffects \<sigma>2) ?\<sigma>2)
        (\<lambda>\<sigma>3. andThen (clearChanged (changedSignals \<sigma>3) \<sigma>3)
        (\<lambda>\<sigma>4. Ok () (\<sigma>4\<lparr>mode := Normal, changedSignals := []\<rparr>))) = Ok () \<sigma>'"
    using u2 by (simp split: if_splits)
  from andThen_Ok [OF u2'] obtain \<sigma>3 where
    e: "runEffects (updateSignal n) (staleEffects \<sigma>2) ?\<sigma>2 = Ok () \<sigma>3" and
    u3: "andThen (clearChanged (changedSignals \<sigma>3) \<sigma>3)
        (\<lambda>\<sigma>4. Ok () (\<sigma>4\<lparr>mode := Normal, changedSignals := []\<rparr>)) = Ok () \<sigma>'"
    by blast
  from andThen_Ok [OF u3] obtain \<sigma>4 where
    c: "clearChanged (changedSignals \<sigma>3) \<sigma>3 = Ok () \<sigma>4" and
    f: "\<sigma>' = \<sigma>4\<lparr>mode := Normal, changedSignals := []\<rparr>"
    by auto
  have c0: "collecting D ?\<sigma>0"
  proof (rule collectingI)
    show "wellFormed D ?\<sigma>0"
      by (rule wellFormed_transfer [OF w]) (simp_all add: atRest_no_flags [OF a])
  next
    fix d assume "d \<in> set (registry ?\<sigma>0)"
    then have "d \<in> set (registry \<sigma>)" by simp
    from consistent_transfer [OF w this atRest_consistent [OF a this], of ?\<sigma>0]
    show "consistent ?\<sigma>0 d" by simp
  qed (simp_all add: atRest_lists [OF a] atRest_no_flags [OF a])
  have c1: "collecting D \<sigma>1" using collecting_runBatch [OF p c0 b] .
  note w1 = collecting_wf [OF c1]
  have r1: "resolving D ?\<sigma>1"
  proof (rule resolvingI)
    show "wellFormed D ?\<sigma>1"
      by (rule wellFormed_transfer [OF w1]) (simp_all add: wf_flags [OF w1])
  next
    fix d assume d: "d \<in> set (registry ?\<sigma>1)" "d \<notin> set (staleDerivedSignals ?\<sigma>1)"
      "d \<notin> set (derivationsBeingComputed ?\<sigma>1)"
    then have dr: "d \<in> set (registry \<sigma>1)" and ds: "d \<notin> set (staleDerivedSignals \<sigma>1)" by simp_all
    from consistent_transfer [OF w1 dr collecting_consistent [OF c1 dr ds], of ?\<sigma>1]
    show "consistent ?\<sigma>1 d" by simp
  qed simp_all
  have r2: "resolving D \<sigma>2" "derivationsBeingComputed \<sigma>2 = []" "staleDerivedSignals \<sigma>2 = []"
    "leaves {} ?\<sigma>1 \<sigma>2"
    using updateStaleSignals_resolving [OF r1 _ s] by simp_all
  note w2 = resolving_wf [OF r2(1)]
  obtain tr where t3: "\<sigma>3 = ?\<sigma>2\<lparr>trace := tr\<rparr>"
    using runEffects_quiet [OF _ e] by auto
  obtain g where t4: "\<sigma>4 = \<sigma>3\<lparr>trackers := g\<rparr>"
      and g: "\<forall>x. g x = (trackers \<sigma>3 x)\<lparr>hasChanged := hasChanged (trackers \<sigma>3 x)
                       \<and> x \<notin> set (changedSignals \<sigma>3)\<rparr>"
    using clearChanged_ok [OF c] by blast
  have tr': "trackers \<sigma>' x = (trackers \<sigma>2 x)\<lparr>hasChanged := hasChanged (trackers \<sigma>2 x)
                       \<and> x \<notin> set (changedSignals \<sigma>2)\<rparr>" for x
    using g by (simp add: f t4 t3)
  have fl: "\<not> hasChanged (trackers \<sigma>' x)" for x
    using wf_flags [OF w2, of x] by (auto simp: tr')
  have o: "ntrackers \<sigma>' = ntrackers \<sigma>2" "registry \<sigma>' = registry \<sigma>2"
    "staleDerivedSignals \<sigma>' = []" "derivationsBeingComputed \<sigma>' = []"
    "mode \<sigma>' = Normal" "changedSignals \<sigma>' = []"
    by (simp_all add: f t4 t3)
  show "atRest D \<sigma>'"
  proof (rule atRestI)
    show "wellFormed D \<sigma>'"
      by (rule wellFormed_transfer [OF w2]) (simp_all add: tr' o fl [unfolded tr'])
  next
    fix d assume "d \<in> set (registry \<sigma>')"
    then have dr: "d \<in> set (registry \<sigma>2)" by (simp add: o)
    have "consistent \<sigma>2 d"
      using resolving_consistent [OF r2(1) dr] r2(2,3) by simp
    from consistent_transfer [OF w2 dr this, of \<sigma>'] show "consistent \<sigma>' d"
      by (simp add: tr')
  qed (simp_all add: o)
  show "owned \<sigma>'" if ow: "owned \<sigma>"
  proof -
    have "owned ?\<sigma>0 = owned \<sigma>" by (rule owned_cong) simp_all
    then have o1: "owned \<sigma>1" using owned_runBatch [OF p c0 _ b] ow by simp
    have "owned ?\<sigma>1 = owned \<sigma>1" by (rule owned_cong) simp_all
    then have o1': "owned ?\<sigma>1" using o1 by simp
    have o2: "owned \<sigma>2"
    proof (rule owned_same [OF o1'])
      fix t assume "t < ntrackers ?\<sigma>1"
      then have tn: "t < ntrackers \<sigma>2" using leaves_basics(2) [OF r2(4)] by simp
      show "tvalue (trackers \<sigma>2 t) = tvalue (trackers ?\<sigma>1 t)
            \<or> isPrimitive (tvalue (trackers \<sigma>2 t))"
      proof (cases "ttype (trackers \<sigma>2 t)")
        case State
        then have "ttype (trackers ?\<sigma>1 t) = State" using leaves_type(1) [OF r2(4), of t] by simp
        from leaves_state [OF r2(4) this] show ?thesis by simp
      next
        case Derived
        from wf_derived(1) [OF w2 tn this] show ?thesis by (simp add: plain_isPrimitive)
      qed
    qed (simp_all add: leaves_basics [OF r2(4)])
    have "nobjects \<sigma>' = nobjects \<sigma>2" by (simp add: f t4 t3)
    then have "owned \<sigma>' = owned \<sigma>2"
      by (intro owned_cong) (simp_all add: tr' o)
    then show ?thesis using o2 by simp
  qed
qed

subsection \<open>\<^verbatim>\<open>state\<close>, \<^verbatim>\<open>arrayState\<close>, \<^verbatim>\<open>effect\<close> and the cleanup keep the graph at rest\<close>

lemma atRest_emptyWorld: "atRest D emptyWorld"
  unfolding atRest_def wellFormed_def graph_inv_def adjacency_symmetric_def readable_def
    isStateHandle_def isDerivedHandle_def
  by (simp add: emptyWorld_def)

lemma owned_emptyWorld: "owned emptyWorld"
  by (simp add: owned_def emptyWorld_def)

lemma atRest_heap:
  assumes a: "atRest D \<sigma>"
  shows "atRest D (\<sigma>\<lparr>arrays := h, narrays := k, nobjects := m\<rparr>)" (is "atRest D ?\<sigma>'")
proof (rule atRestI)
  note w = atRest_wf [OF a]
  show "wellFormed D ?\<sigma>'"
    by (rule wellFormed_transfer [OF w]) (simp_all add: atRest_no_flags [OF a])
  fix d assume "d \<in> set (registry ?\<sigma>')"
  then have dr: "d \<in> set (registry \<sigma>)" by simp
  from consistent_transfer [OF w dr atRest_consistent [OF a dr], of ?\<sigma>']
  show "consistent ?\<sigma>' d" by simp
qed (simp_all add: atRest_lists [OF a] atRest_mode [OF a])

lemma atRest_state:
  assumes a: "atRest D \<sigma>" and v: "admits D v" and s: "state v \<sigma> = Ok t \<sigma>'"
  shows "atRest D \<sigma>'"
proof -
  note w = atRest_wf [OF a]
  note g = wf_graph [OF w]
  let ?n = "ntrackers \<sigma>"
  have e: "\<sigma>' = \<sigma>\<lparr>trackers := (trackers \<sigma>)(?n := newStateTracker v), ntrackers := Suc ?n\<rparr>"
    using s by (auto simp: state_def)
  have tr: "trackers \<sigma>' x = (if x = ?n then newStateTracker v else trackers \<sigma> x)" for x
    by (simp add: e)
  have o: "ntrackers \<sigma>' = Suc ?n" "registry \<sigma>' = registry \<sigma>" "mode \<sigma>' = mode \<sigma>"
    "staleDerivedSignals \<sigma>' = staleDerivedSignals \<sigma>" "changedSignals \<sigma>' = changedSignals \<sigma>"
    "derivationsBeingComputed \<sigma>' = derivationsBeingComputed \<sigma>"
    by (simp_all add: e)
  have g': "graph_inv \<sigma>'" using graph_inv_state [OF g, of v] s by simp
  have up: "y \<in> set (upstreamSignals (trackers \<sigma> x))"
    if "y \<in> set (upstreamSignals (trackers \<sigma>' x))" for x y
    using that by (auto simp: tr newStateTracker_def split: if_splits)
  have w': "wellFormed D \<sigma>'"
  proof (rule wellFormedI)
    fix x assume r: "readable \<sigma>' x"
    show "admits D (tvalue (trackers \<sigma>' x))"
    proof (cases "x = ?n")
      case True
      then show ?thesis using v by (simp add: tr newStateTracker_def)
    next
      case False
      from r consider "isStateHandle x \<sigma>'" | "isDerivedHandle x \<sigma>'"
        | y where "x \<in> set (upstreamSignals (trackers \<sigma>' y))"
        unfolding readable_def by blast
      then have "readable \<sigma> x"
      proof cases
        case 1
        then have "isStateHandle x \<sigma>" using False by (auto simp: isStateHandle_def tr o)
        then show ?thesis by (simp add: readable_def)
      next
        case 2
        then have "isDerivedHandle x \<sigma>" using False by (auto simp: isDerivedHandle_def tr o)
        then show ?thesis by (simp add: readable_def)
      next
        case 3
        from up [OF this] show ?thesis unfolding readable_def by blast
      qed
      then show ?thesis using wf_admits [OF w] False by (simp add: tr)
    qed
  next
    fix x assume "x < ntrackers \<sigma>'" "ttype (trackers \<sigma>' x) = Derived"
    then show "plain (tvalue (trackers \<sigma>' x))" "pureOn D (func (trackers \<sigma>' x))"
      using wf_derived [OF w, of x] by (auto simp: tr o newStateTracker_def split: if_splits)
  next
    fix x y assume "y \<in> set (upstreamSignals (trackers \<sigma>' x))"
    then show "ttype (trackers \<sigma>' x) = Derived"
      using wf_up(1) [OF w, of y x] by (auto simp: tr newStateTracker_def split: if_splits)
  next
    fix x assume x: "x \<in> set (registry \<sigma>')"
    then show "x < ntrackers \<sigma>'" "ttype (trackers \<sigma>' x) = Derived"
      using wf_registry [OF w, of x] by (auto simp: tr o)
  next
    fix x assume "x \<in> set (staleDerivedSignals \<sigma>')"
    then show "ttype (trackers \<sigma>' x) = Derived"
      using wf_stale [OF w, of x] by (auto simp: tr o)
  next
    fix x assume "hasChanged (trackers \<sigma>' x)"
    then show "x \<in> set (changedSignals \<sigma>')"
      using atRest_no_flags [OF a, of x] by (auto simp: tr newStateTracker_def split: if_splits)
  qed (rule g')
  show ?thesis
  proof (rule atRestI)
    fix d assume "d \<in> set (registry \<sigma>')"
    then have dr: "d \<in> set (registry \<sigma>)" by (simp add: o)
    have dn: "d < ?n" using wf_registry [OF w dr] by simp
    show "consistent \<sigma>' d"
    proof (rule consistent_depends [OF w wf_registry [OF w dr] atRest_consistent [OF a dr]])
      fix x assume "x \<in> set (upstreamSignals (trackers \<sigma> d))"
      then have "x < ?n" using wf_up(3) [OF w] by blast
      then show "tvalue (trackers \<sigma>' x) = tvalue (trackers \<sigma> x)" by (simp add: tr)
    qed (insert dn, simp_all add: tr)
  qed (simp_all add: o w' atRest_mode [OF a] atRest_lists [OF a])
qed

lemma owned_state_primitive:
  assumes o: "owned \<sigma>" and v: "isPrimitive v" and s: "state v \<sigma> = Ok t \<sigma>'"
  shows "owned \<sigma>'"
proof (rule owned_step [OF o])
  let ?n = "ntrackers \<sigma>"
  have e: "\<sigma>' = \<sigma>\<lparr>trackers := (trackers \<sigma>)(?n := newStateTracker v), ntrackers := Suc ?n\<rparr>"
    using s by (auto simp: state_def)
  show "ntrackers \<sigma> \<le> ntrackers \<sigma>'" "nobjects \<sigma> \<le> nobjects \<sigma>'" by (simp_all add: e)
  fix x i c assume x: "x < ntrackers \<sigma>'" "tvalue (trackers \<sigma>' x) = Obj i c"
  then have "x \<noteq> ?n" using v by (auto simp: e newStateTracker_def)
  then have "x < ntrackers \<sigma> \<and> (\<exists>c0. tvalue (trackers \<sigma> x) = Obj i c0)"
    using x by (simp add: e)
  then show "(x < ntrackers \<sigma> \<and> (\<exists>c0. tvalue (trackers \<sigma> x) = Obj i c0))
              \<or> (nobjects \<sigma> \<le> i \<and> i < nobjects \<sigma>'
                  \<and> (\<forall>t' c'. t' < ntrackers \<sigma>' \<and> tvalue (trackers \<sigma>' t') = Obj i c' \<longrightarrow> t' = x))"
    by simp
qed

lemma owned_state_object:
  assumes o: "owned \<sigma>"
      and f: "ntrackers \<sigma>0 = ntrackers \<sigma>" "trackers \<sigma>0 = trackers \<sigma>"
             "nobjects \<sigma>0 = Suc (nobjects \<sigma>)"
      and s: "state (Obj (nobjects \<sigma>) c) \<sigma>0 = Ok t \<sigma>'"
  shows "owned \<sigma>'"
proof (rule owned_step [OF o])
  let ?n = "ntrackers \<sigma>"
  have e: "\<sigma>' = \<sigma>0\<lparr>trackers := (trackers \<sigma>)(?n := newStateTracker (Obj (nobjects \<sigma>) c)),
                     ntrackers := Suc ?n\<rparr>"
    using s f by (auto simp: state_def)
  have tr: "tvalue (trackers \<sigma>' x) = (if x = ?n then Obj (nobjects \<sigma>) c else tvalue (trackers \<sigma> x))" for x
    by (simp add: e newStateTracker_def)
  have n: "ntrackers \<sigma>' = Suc ?n" "nobjects \<sigma>' = Suc (nobjects \<sigma>)" by (simp_all add: e f)
  show "ntrackers \<sigma> \<le> ntrackers \<sigma>'" "nobjects \<sigma> \<le> nobjects \<sigma>'" by (simp_all add: n)
  fix x i c1 assume x: "x < ntrackers \<sigma>'" "tvalue (trackers \<sigma>' x) = Obj i c1"
  show "(x < ntrackers \<sigma> \<and> (\<exists>c0. tvalue (trackers \<sigma> x) = Obj i c0))
              \<or> (nobjects \<sigma> \<le> i \<and> i < nobjects \<sigma>'
                  \<and> (\<forall>t' c'. t' < ntrackers \<sigma>' \<and> tvalue (trackers \<sigma>' t') = Obj i c' \<longrightarrow> t' = x))"
  proof (cases "x = ?n")
    case False
    then show ?thesis using x n by (simp add: tr)
  next
    case True
    then have i: "i = nobjects \<sigma>" using x by (simp add: tr)
    have "t' = x" if "t' < ntrackers \<sigma>'" "tvalue (trackers \<sigma>' t') = Obj i c'" for t' c'
    proof (rule ccontr)
      assume "t' \<noteq> x"
      then have "tvalue (trackers \<sigma> t') = Obj (nobjects \<sigma>) c'" "t' < ntrackers \<sigma>"
        using that True i n by (simp_all add: tr)
      then have "nobjects \<sigma> < nobjects \<sigma>" using o unfolding owned_def by blast
      then show False by simp
    qed
    then show ?thesis using i n by auto
  qed
qed

lemma atRest_arrayState:
  assumes a: "atRest D \<sigma>" and s: "arrayState v \<sigma> = Ok A \<sigma>'"
  shows "atRest D \<sigma>'"
proof -
  let ?\<sigma>0 = "\<sigma>\<lparr>arrays := (arrays \<sigma>)(narrays \<sigma> := v), narrays := Suc (narrays \<sigma>),
                 nobjects := Suc (nobjects \<sigma>)\<rparr>"
  obtain t where t: "state (Obj (nobjects \<sigma>) \<lparr>changes = [], newLength = js_length v\<rparr>) ?\<sigma>0 = Ok t \<sigma>'"
    using s by (auto simp: arrayState_def split: result.splits)
  show ?thesis
    by (rule atRest_state [OF atRest_heap [OF a] _ t]) simp
qed

lemma atRest_objectState:
  assumes a: "atRest D \<sigma>"
      and s: "state (Obj (nobjects \<sigma>) c) (\<sigma>\<lparr>nobjects := Suc (nobjects \<sigma>)\<rparr>) = Ok t \<sigma>'"
  shows "atRest D \<sigma>'"
proof -
  have "atRest D (\<sigma>\<lparr>arrays := arrays \<sigma>, narrays := narrays \<sigma>, nobjects := Suc (nobjects \<sigma>)\<rparr>)"
    by (rule atRest_heap [OF a])
  then have "atRest D (\<sigma>\<lparr>nobjects := Suc (nobjects \<sigma>)\<rparr>)" by simp
  from atRest_state [OF this _ s] show ?thesis by simp
qed

lemma addDownstreamEffect_fields [simp]:
  "mode (addDownstreamEffect e ss \<sigma>) = mode \<sigma>"
  "changedSignals (addDownstreamEffect e ss \<sigma>) = changedSignals \<sigma>"
  "staleDerivedSignals (addDownstreamEffect e ss \<sigma>) = staleDerivedSignals \<sigma>"
  "derivationsBeingComputed (addDownstreamEffect e ss \<sigma>) = derivationsBeingComputed \<sigma>"
  "ntrackers (addDownstreamEffect e ss \<sigma>) = ntrackers \<sigma>"
  "registry (addDownstreamEffect e ss \<sigma>) = registry \<sigma>"
  "tvalue (trackers (addDownstreamEffect e ss \<sigma>) x) = tvalue (trackers \<sigma> x)"
  "ttype (trackers (addDownstreamEffect e ss \<sigma>) x) = ttype (trackers \<sigma> x)"
  "func (trackers (addDownstreamEffect e ss \<sigma>) x) = func (trackers \<sigma> x)"
  "hasChanged (trackers (addDownstreamEffect e ss \<sigma>) x) = hasChanged (trackers \<sigma> x)"
  "upstreamSignals (trackers (addDownstreamEffect e ss \<sigma>) x) = upstreamSignals (trackers \<sigma> x)"
  "downstreamSignals (trackers (addDownstreamEffect e ss \<sigma>) x) = downstreamSignals (trackers \<sigma> x)"
  "nobjects (addDownstreamEffect e ss \<sigma>) = nobjects \<sigma>"
  by (induction ss arbitrary: \<sigma>) (simp_all add: upd_tracker_def)

lemma atRest_effect:
  assumes a: "atRest D \<sigma>" and s: "effect n from \<sigma> = Ok u \<sigma>'"
  shows "atRest D \<sigma>'" and "owned \<sigma>' = owned \<sigma>"
proof -
  note w = atRest_wf [OF a]
  let ?\<sigma>0 = "\<sigma>\<lparr>effects := (effects \<sigma>)(neffects \<sigma> := from),
                neffects := Suc (neffects \<sigma>), mode := CreatingEffect\<rparr>"
  obtain \<sigma>1 where r: "runEffect (updateSignal n) (neffects \<sigma>) ?\<sigma>0 = Ok () \<sigma>1"
      and e: "\<sigma>' = addDownstreamEffect (neffects \<sigma>) from (\<sigma>1\<lparr>mode := Normal\<rparr>)"
    using s by (auto simp: effect_def split: if_splits result.splits)
  have "getDerivationBeingComputed ?\<sigma>0 = None"
    by (simp add: getDerivationBeingComputed_def)
  from runEffect_quiet [OF this _ r] obtain tr where t: "\<sigma>1 = ?\<sigma>0\<lparr>trace := tr\<rparr>" by auto
  show "owned \<sigma>' = owned \<sigma>"
    by (rule owned_cong) (simp_all add: e t)
  show "atRest D \<sigma>'"
  proof (rule atRestI)
    show "wellFormed D \<sigma>'"
      by (rule wellFormed_transfer [OF w]) (simp_all add: e t atRest_no_flags [OF a])
  next
    fix d assume "d \<in> set (registry \<sigma>')"
    then have dr: "d \<in> set (registry \<sigma>)" by (simp add: e t)
    from consistent_transfer [OF w dr atRest_consistent [OF a dr], of \<sigma>']
    show "consistent \<sigma>' d" by (simp add: e t)
  qed (simp_all add: e t atRest_lists [OF a])
qed

lemma atRest_finalize:
  assumes a: "atRest D \<sigma>" and s: "finalize d \<sigma> = Ok u \<sigma>'"
  shows "atRest D \<sigma>'" and "owned \<sigma>' = owned \<sigma>"
proof -
  note w = atRest_wf [OF a]
  let ?\<sigma>0 = "\<sigma>\<lparr>registry := set_delete d (registry \<sigma>)\<rparr>"
  have g0: "graph_inv ?\<sigma>0" using wf_graph [OF w] by simp
  have e: "\<sigma>' = unlinked d ?\<sigma>0"
    using s removeTrackerDependencies_ok [OF g0, of d] by (simp add: finalize_def)
  have r: "set (registry \<sigma>') = set (registry \<sigma>) - {d}"
    by (simp add: e set_set_delete)
  show "owned \<sigma>' = owned \<sigma>"
    by (rule owned_cong) (simp_all add: e)
  show "atRest D \<sigma>'"
  proof (rule atRestI)
    show "wellFormed D \<sigma>'"
    proof (rule wellFormedI)
      show "graph_inv \<sigma>'" unfolding e by (rule graph_inv_unlinked [OF g0])
    next
      fix x assume "readable \<sigma>' x"
      then have "readable \<sigma> x"
        by (rule readable_cases) (insert r, auto simp: e)
      then show "admits D (tvalue (trackers \<sigma>' x))"
        using wf_admits [OF w] by (simp add: e)
    next
      fix x assume "x < ntrackers \<sigma>'" "ttype (trackers \<sigma>' x) = Derived"
      then show "plain (tvalue (trackers \<sigma>' x))" "pureOn D (func (trackers \<sigma>' x))"
        using wf_derived [OF w, of x] by (simp_all add: e)
    next
      fix x y assume "y \<in> set (upstreamSignals (trackers \<sigma>' x))"
      then show "ttype (trackers \<sigma>' x) = Derived"
        using wf_up(1) [OF w, of y x] by (simp_all add: e split: if_splits)
    next
      fix x assume "x \<in> set (registry \<sigma>')"
      then show "x < ntrackers \<sigma>'" "ttype (trackers \<sigma>' x) = Derived"
        using wf_registry [OF w, of x] r by (simp_all add: e)
    next
      fix x assume "x \<in> set (staleDerivedSignals \<sigma>')"
      then show "ttype (trackers \<sigma>' x) = Derived"
        using wf_stale(2) [OF w, of x] by (simp add: e)
    next
      fix x assume "hasChanged (trackers \<sigma>' x)"
      then show "x \<in> set (changedSignals \<sigma>')"
        using atRest_no_flags [OF a, of x] by (simp add: e)
    qed
  next
    fix x assume "x \<in> set (registry \<sigma>')"
    then have xr: "x \<in> set (registry \<sigma>)" and xd: "x \<noteq> d" using r by auto
    show "consistent \<sigma>' x"
      by (rule consistent_depends [OF w wf_registry [OF w xr] atRest_consistent [OF a xr]])
         (simp_all add: e xd)
  qed (simp_all add: e atRest_lists [OF a] atRest_mode [OF a])
qed

subsection \<open>\<^verbatim>\<open>derive\<close> keeps the graph at rest\<close>

lemma getValue_creating:
  assumes "mode \<sigma> = CreatingDerivedSignal" "getValue upd t \<sigma> = Ok v \<sigma>'"
  shows "\<sigma>' = handleDerivationLinking t \<sigma>" "v = tvalue (trackers \<sigma> t)"
    "isStateHandle t \<sigma> \<or> isDerivedHandle t \<sigma>"
  using assms by (auto simp: getValue_def split: if_splits)

lemma run_creating:
  "pureOn D p \<Longrightarrow> mode \<sigma> = CreatingDerivedSignal \<Longrightarrow>
   derivationsBeingComputed \<sigma> = [d] \<Longrightarrow> wellFormed D \<sigma> \<Longrightarrow> d < ntrackers \<sigma> \<Longrightarrow>
   ttype (trackers \<sigma> d) = Derived \<Longrightarrow> d \<notin> set (registry \<sigma>) \<Longrightarrow> run upd p \<sigma> = Ok v \<sigma>' \<Longrightarrow>
   wellFormed D \<sigma>' \<and> mode \<sigma>' = CreatingDerivedSignal \<and> derivationsBeingComputed \<sigma>' = [d]
   \<and> ntrackers \<sigma>' = ntrackers \<sigma> \<and> registry \<sigma>' = registry \<sigma>
   \<and> changedSignals \<sigma>' = changedSignals \<sigma>
   \<and> (\<forall>x. tvalue (trackers \<sigma>' x) = tvalue (trackers \<sigma> x)
          \<and> func (trackers \<sigma>' x) = func (trackers \<sigma> x)
          \<and> ttype (trackers \<sigma>' x) = ttype (trackers \<sigma> x)
          \<and> hasChanged (trackers \<sigma>' x) = hasChanged (trackers \<sigma> x)
          \<and> set (upstreamSignals (trackers \<sigma> x)) \<subseteq> set (upstreamSignals (trackers \<sigma>' x)))
   \<and> evaluatedFresh \<sigma> p = Some v \<and> valuesRead \<sigma> p \<subseteq> set (upstreamSignals (trackers \<sigma>' d))
   \<and> (\<forall>t \<in> valuesRead \<sigma> p. t \<noteq> d \<and> admits D (tvalue (trackers \<sigma> t)))
   \<and> plain v \<and> D v \<and> nobjects \<sigma>' = nobjects \<sigma>"
proof (induction p arbitrary: \<sigma>)
  case (Return x)
  then show ?case by auto
next
  case (GetValue t k)
  obtain v1 \<sigma>1 where g: "getValue upd t \<sigma> = Ok v1 \<sigma>1" and r: "run upd (k v1) \<sigma>1 = Ok v \<sigma>'"
    using GetValue.prems(8) by (auto split: result.splits)
  note e = getValue_creating [OF GetValue.prems(2) g]
  note w = GetValue.prems(4)
  have td: "t \<noteq> d"
    using e(3) GetValue.prems(6,7) by (auto simp: isStateHandle_def isDerivedHandle_def)
  have "readable \<sigma> t" using e(3) by (auto simp: readable_def)
  then have ad: "admits D v1" using wf_admits [OF w] e(2) by simp
  have top: "getDerivationBeingComputed \<sigma> = Some d"
    using top_of_stack [of \<sigma> "[]" d] GetValue.prems(2,3) by simp
  have w1: "wellFormed D \<sigma>1"
    unfolding e(1)
    using wellFormed_hdl [OF w e(3)] GetValue.prems(6) top by simp
  have rk: "pureOn D (k v1)" using GetValue.prems(1) ad by simp
  have "k v1 \<in> range k" by (rule rangeI)
  note ih = GetValue.IH [OF this rk _ _ w1 _ _ _ r]
  have ih': "wellFormed D \<sigma>' \<and> mode \<sigma>' = CreatingDerivedSignal \<and> derivationsBeingComputed \<sigma>' = [d]
   \<and> ntrackers \<sigma>' = ntrackers \<sigma>1 \<and> registry \<sigma>' = registry \<sigma>1
   \<and> changedSignals \<sigma>' = changedSignals \<sigma>1
   \<and> (\<forall>x. tvalue (trackers \<sigma>' x) = tvalue (trackers \<sigma>1 x)
          \<and> func (trackers \<sigma>' x) = func (trackers \<sigma>1 x)
          \<and> ttype (trackers \<sigma>' x) = ttype (trackers \<sigma>1 x)
          \<and> hasChanged (trackers \<sigma>' x) = hasChanged (trackers \<sigma>1 x)
          \<and> set (upstreamSignals (trackers \<sigma>1 x)) \<subseteq> set (upstreamSignals (trackers \<sigma>' x)))
   \<and> evaluatedFresh \<sigma>1 (k v1) = Some v
   \<and> valuesRead \<sigma>1 (k v1) \<subseteq> set (upstreamSignals (trackers \<sigma>' d))
   \<and> (\<forall>t \<in> valuesRead \<sigma>1 (k v1). t \<noteq> d \<and> admits D (tvalue (trackers \<sigma>1 t)))
   \<and> plain v \<and> D v \<and> nobjects \<sigma>' = nobjects \<sigma>1"
    by (rule ih) (simp_all add: e(1) GetValue.prems)
  have same: "evaluatedFresh \<sigma>1 q = evaluatedFresh \<sigma> q \<and> valuesRead \<sigma>1 q = valuesRead \<sigma> q" for q
    unfolding e(1) by (rule evaluatedFresh_same_values) simp_all
  have up: "set (upstreamSignals (trackers \<sigma>1 y)) =
         (if y = d then insert t (set (upstreamSignals (trackers \<sigma> y)))
          else set (upstreamSignals (trackers \<sigma> y)))" for y
    unfolding e(1) by (rule hdl_upstream [OF top])
  have tin: "t \<in> set (upstreamSignals (trackers \<sigma>' d))"
    using ih' up [of d] by auto
  have sub: "set (upstreamSignals (trackers \<sigma> y)) \<subseteq> set (upstreamSignals (trackers \<sigma>' y))" for y
  proof -
    have "set (upstreamSignals (trackers \<sigma> y)) \<subseteq> set (upstreamSignals (trackers \<sigma>1 y))"
      using up [of y] by auto
    moreover have "set (upstreamSignals (trackers \<sigma>1 y)) \<subseteq> set (upstreamSignals (trackers \<sigma>' y))"
      using ih' by blast
    ultimately show ?thesis by blast
  qed
  have f: "tvalue (trackers \<sigma>' y) = tvalue (trackers \<sigma> y)"
          "func (trackers \<sigma>' y) = func (trackers \<sigma> y)"
          "ttype (trackers \<sigma>' y) = ttype (trackers \<sigma> y)"
          "hasChanged (trackers \<sigma>' y) = hasChanged (trackers \<sigma> y)" for y
    using ih' by (simp_all add: e(1))
  have o: "ntrackers \<sigma>' = ntrackers \<sigma>" "registry \<sigma>' = registry \<sigma>"
          "changedSignals \<sigma>' = changedSignals \<sigma>" "nobjects \<sigma>' = nobjects \<sigma>"
    using ih' by (simp_all add: e(1))
  have ev: "evaluatedFresh \<sigma> (GetValue t k) = Some v"
    using ih' same [of "k v1"] e(2) by simp
  have vr: "valuesRead \<sigma> (GetValue t k) \<subseteq> set (upstreamSignals (trackers \<sigma>' d))"
    using ih' same [of "k v1"] e(2) tin by simp
  have rd: "\<forall>x \<in> valuesRead \<sigma> (GetValue t k). x \<noteq> d \<and> admits D (tvalue (trackers \<sigma> x))"
  proof
    fix x assume "x \<in> valuesRead \<sigma> (GetValue t k)"
    then consider "x = t" | "x \<in> valuesRead \<sigma>1 (k v1)"
      using same [of "k v1"] e(2) by auto
    then show "x \<noteq> d \<and> admits D (tvalue (trackers \<sigma> x))"
    proof cases
      case 1
      then show ?thesis using td ad e(2) by simp
    next
      case 2
      then have "x \<noteq> d \<and> admits D (tvalue (trackers \<sigma>1 x))" using ih' by blast
      then show ?thesis by (simp add: e(1))
    qed
  qed
  have pv: "plain v" "D v" using ih' by blast+
  have wf': "wellFormed D \<sigma>'" "mode \<sigma>' = CreatingDerivedSignal" "derivationsBeingComputed \<sigma>' = [d]"
    using ih' by blast+
  show ?case
    using wf' f o ev vr sub rd pv by blast
qed simp_all

lemma atRest_derive:
  assumes a: "atRest D \<sigma>" and r: "pureOn D p"
      and s: "derive n p \<sigma> = Ok d \<sigma>'"
  shows "atRest D \<sigma>'" and "owned \<sigma> \<Longrightarrow> owned \<sigma>'"
proof -
  note w = atRest_wf [OF a]
  note g = wf_graph [OF w]
  let ?n = "ntrackers \<sigma>"
  let ?\<sigma>0 = "\<sigma>\<lparr>mode := CreatingDerivedSignal,
                    derivationsBeingComputed := [ntrackers \<sigma>],
                    trackers := (trackers \<sigma>)(ntrackers \<sigma> := newDerivedTracker p),
                    ntrackers := Suc (ntrackers \<sigma>),
                    trace := trace \<sigma> @ [FuncRan (ntrackers \<sigma>)]\<rparr>"
  obtain v \<sigma>1 where rn: "run (updateSignal n) p ?\<sigma>0 = Ok v \<sigma>1"
      and e: "\<sigma>' = (upd_tracker ?n (\<lambda>tr. tr\<lparr>tvalue := v\<rparr>) \<sigma>1)
                   \<lparr>mode := Normal, derivationsBeingComputed := [],
                    registry := set_add ?n (registry \<sigma>1)\<rparr>"
    using s by (auto simp: derive_def split: if_splits result.splits)
  have tr0: "trackers ?\<sigma>0 x = (if x = ?n then newDerivedTracker p else trackers \<sigma> x)" for x
    by simp
  have nr: "?n \<notin> set (registry \<sigma>)" using wf_registry(1) [OF w, of ?n] by auto
  have g0: "graph_inv ?\<sigma>0"
    using g unfolding graph_inv_def adjacency_symmetric_def newDerivedTracker_def
    by (auto simp: less_Suc_eq)
  have up0: "y \<in> set (upstreamSignals (trackers \<sigma> x))"
    if "y \<in> set (upstreamSignals (trackers ?\<sigma>0 x))" for x y
    using that by (auto simp: newDerivedTracker_def split: if_splits)
  have w0: "wellFormed D ?\<sigma>0"
  proof (rule wellFormedI)
    fix x assume rd: "readable ?\<sigma>0 x"
    from rd consider "isStateHandle x ?\<sigma>0" | "isDerivedHandle x ?\<sigma>0"
      | y where "x \<in> set (upstreamSignals (trackers ?\<sigma>0 y))"
      unfolding readable_def by blast
    then have "readable \<sigma> x \<and> x \<noteq> ?n"
    proof cases
      case 1
      then have "isStateHandle x \<sigma> \<and> x \<noteq> ?n"
        by (auto simp: isStateHandle_def newDerivedTracker_def less_Suc_eq split: if_splits)
      then show ?thesis by (simp add: readable_def)
    next
      case 2
      then have xr: "x \<in> set (registry \<sigma>)" by (simp add: isDerivedHandle_def)
      then have "isDerivedHandle x \<sigma>" using wf_registry [OF w xr] by (simp add: isDerivedHandle_def)
      then show ?thesis using xr nr by (auto simp: readable_def)
    next
      case 3
      from up0 [OF this] have u: "x \<in> set (upstreamSignals (trackers \<sigma> y))" .
      then show ?thesis using wf_up(3) [OF w u] unfolding readable_def by blast
    qed
    then show "admits D (tvalue (trackers ?\<sigma>0 x))"
      using wf_admits [OF w, of x] by simp
  next
    fix x assume "x < ntrackers ?\<sigma>0" "ttype (trackers ?\<sigma>0 x) = Derived"
    then show "plain (tvalue (trackers ?\<sigma>0 x))" "pureOn D (func (trackers ?\<sigma>0 x))"
      using wf_derived [OF w, of x] r by (auto simp: newDerivedTracker_def less_Suc_eq)
  next
    fix x y assume "y \<in> set (upstreamSignals (trackers ?\<sigma>0 x))"
    then show "ttype (trackers ?\<sigma>0 x) = Derived"
      using wf_up(1) [OF w, of y x] by (auto simp: newDerivedTracker_def split: if_splits)
  next
    fix x assume x: "x \<in> set (registry ?\<sigma>0)"
    then show "x < ntrackers ?\<sigma>0" "ttype (trackers ?\<sigma>0 x) = Derived"
      using wf_registry [OF w, of x] by auto
  next
    fix x assume "x \<in> set (staleDerivedSignals ?\<sigma>0)"
    then show "ttype (trackers ?\<sigma>0 x) = Derived"
      using wf_stale [OF w, of x] by auto
  next
    fix x assume "hasChanged (trackers ?\<sigma>0 x)"
    then show "x \<in> set (changedSignals ?\<sigma>0)"
      using atRest_no_flags [OF a, of x] by (auto simp: newDerivedTracker_def split: if_splits)
  qed (rule g0)
  have c: "wellFormed D \<sigma>1 \<and> mode \<sigma>1 = CreatingDerivedSignal \<and> derivationsBeingComputed \<sigma>1 = [?n]
   \<and> ntrackers \<sigma>1 = ntrackers ?\<sigma>0 \<and> registry \<sigma>1 = registry ?\<sigma>0
   \<and> changedSignals \<sigma>1 = changedSignals ?\<sigma>0
   \<and> (\<forall>x. tvalue (trackers \<sigma>1 x) = tvalue (trackers ?\<sigma>0 x)
          \<and> func (trackers \<sigma>1 x) = func (trackers ?\<sigma>0 x)
          \<and> ttype (trackers \<sigma>1 x) = ttype (trackers ?\<sigma>0 x)
          \<and> hasChanged (trackers \<sigma>1 x) = hasChanged (trackers ?\<sigma>0 x)
          \<and> set (upstreamSignals (trackers ?\<sigma>0 x)) \<subseteq> set (upstreamSignals (trackers \<sigma>1 x)))
   \<and> evaluatedFresh ?\<sigma>0 p = Some v \<and> valuesRead ?\<sigma>0 p \<subseteq> set (upstreamSignals (trackers \<sigma>1 ?n))
   \<and> (\<forall>t \<in> valuesRead ?\<sigma>0 p. t \<noteq> ?n \<and> admits D (tvalue (trackers ?\<sigma>0 t)))
   \<and> plain v \<and> D v \<and> nobjects \<sigma>1 = nobjects ?\<sigma>0"
    by (rule run_creating [OF r _ _ w0 _ _ _ rn]) (insert nr, simp_all add: newDerivedTracker_def)
  note w1 = conjunct1 [OF c]
  have f1: "tvalue (trackers \<sigma>1 x) = tvalue (trackers ?\<sigma>0 x)"
           "func (trackers \<sigma>1 x) = func (trackers ?\<sigma>0 x)"
           "ttype (trackers \<sigma>1 x) = ttype (trackers ?\<sigma>0 x)"
           "hasChanged (trackers \<sigma>1 x) = hasChanged (trackers ?\<sigma>0 x)"
           "set (upstreamSignals (trackers ?\<sigma>0 x)) \<subseteq> set (upstreamSignals (trackers \<sigma>1 x))" for x
    using c by blast+
  have o1: "ntrackers \<sigma>1 = Suc ?n" "registry \<sigma>1 = registry \<sigma>" "changedSignals \<sigma>1 = changedSignals \<sigma>"
    using c by simp_all
  have cv: "evaluatedFresh ?\<sigma>0 p = Some v" "valuesRead ?\<sigma>0 p \<subseteq> set (upstreamSignals (trackers \<sigma>1 ?n))"
           "\<forall>t \<in> valuesRead ?\<sigma>0 p. t \<noteq> ?n \<and> admits D (tvalue (trackers ?\<sigma>0 t))"
           "plain v" "D v"
    using c by blast+
  have tr: "tvalue (trackers \<sigma>' x) = (if x = ?n then v else tvalue (trackers \<sigma> x))"
           "func (trackers \<sigma>' x) = (if x = ?n then p else func (trackers \<sigma> x))"
           "ttype (trackers \<sigma>' x) = (if x = ?n then Derived else ttype (trackers \<sigma> x))"
           "hasChanged (trackers \<sigma>' x) = (if x = ?n then False else hasChanged (trackers \<sigma> x))"
           "upstreamSignals (trackers \<sigma>' x) = upstreamSignals (trackers \<sigma>1 x)" for x
    using f1 [of x] by (cases "x = ?n"; simp add: e upd_tracker_def newDerivedTracker_def)+
  have o: "ntrackers \<sigma>' = Suc ?n" "set (registry \<sigma>') = insert ?n (set (registry \<sigma>))"
    "mode \<sigma>' = Normal" "derivationsBeingComputed \<sigma>' = []" "changedSignals \<sigma>' = []"
    "staleDerivedSignals \<sigma>' = staleDerivedSignals \<sigma>1"
    using o1 atRest_lists [OF a] by (simp_all add: e set_set_add)
  have g': "graph_inv \<sigma>'" using graph_inv_derive [OF g, of n p] s by simp
  have w': "wellFormed D \<sigma>'"
  proof (rule wellFormedI)
    fix x assume rd: "readable \<sigma>' x"
    show "admits D (tvalue (trackers \<sigma>' x))"
    proof (cases "x = ?n")
      case True
      then show ?thesis using cv(5) by (simp add: tr admits_def)
    next
      case False
      from rd consider "isStateHandle x \<sigma>'" | "isDerivedHandle x \<sigma>'"
        | y where "x \<in> set (upstreamSignals (trackers \<sigma>' y))"
        unfolding readable_def by blast
      then have "readable \<sigma>1 x"
      proof cases
        case 1
        then have "isStateHandle x \<sigma>1"
          using False f1(3) [of x] by (simp add: isStateHandle_def tr o o1)
        then show ?thesis by (simp add: readable_def)
      next
        case 2
        then have "isDerivedHandle x \<sigma>1"
          using False f1(3) [of x] by (simp add: isDerivedHandle_def tr o o1)
        then show ?thesis by (simp add: readable_def)
      next
        case 3
        then show ?thesis unfolding readable_def tr by blast
      qed
      then show ?thesis using wf_admits [OF w1, of x] f1(1) [of x] False by (simp add: tr)
    qed
  next
    fix x assume "x < ntrackers \<sigma>'" "ttype (trackers \<sigma>' x) = Derived"
    then show "plain (tvalue (trackers \<sigma>' x))" "pureOn D (func (trackers \<sigma>' x))"
      using wf_derived [OF w, of x] r cv(4) by (auto simp: tr o less_Suc_eq)
  next
    fix x y assume "y \<in> set (upstreamSignals (trackers \<sigma>' x))"
    then show "ttype (trackers \<sigma>' x) = Derived"
      using wf_up(1) [OF w1, of y x] f1(3) [of x] by (auto simp: tr split: if_splits)
  next
    fix x assume x: "x \<in> set (registry \<sigma>')"
    then show "x < ntrackers \<sigma>'" "ttype (trackers \<sigma>' x) = Derived"
      using wf_registry [OF w, of x] by (auto simp: tr o)
  next
    fix x assume "x \<in> set (staleDerivedSignals \<sigma>')"
    then show "ttype (trackers \<sigma>' x) = Derived"
      using wf_stale(2) [OF w1, of x] f1(3) [of x] by (auto simp: tr o split: if_splits)
  next
    fix x assume "hasChanged (trackers \<sigma>' x)"
    then show "x \<in> set (changedSignals \<sigma>')"
      using atRest_no_flags [OF a, of x] by (auto simp: tr split: if_splits)
  qed (rule g')
  show "atRest D \<sigma>'"
  proof (rule atRestI)
    fix x assume "x \<in> set (registry \<sigma>')"
    then consider "x = ?n" | "x \<in> set (registry \<sigma>)" by (auto simp: o)
    then show "consistent \<sigma>' x"
    proof cases
      case 1
      have "\<forall>t \<in> valuesRead ?\<sigma>0 p. admits D (tvalue (trackers ?\<sigma>0 t))
              \<and> tvalue (trackers \<sigma>' t) = tvalue (trackers ?\<sigma>0 t)"
        using cv(3) by (auto simp: tr)
      from evaluatedFresh_depends [OF r this] cv(1,2)
      show ?thesis by (simp add: consistent_def tr 1)
    next
      case 2
      have xn: "x < ?n" using wf_registry [OF w 2] by simp
      show ?thesis
      proof (rule consistent_depends [OF w wf_registry [OF w 2] atRest_consistent [OF a 2]])
        show "set (upstreamSignals (trackers \<sigma> x)) \<subseteq> set (upstreamSignals (trackers \<sigma>' x))"
          using f1(5) [of x] xn by (simp add: tr)
      next
        fix t assume "t \<in> set (upstreamSignals (trackers \<sigma> x))"
        then have "t < ?n" using wf_up(3) [OF w] by blast
        then show "tvalue (trackers \<sigma>' t) = tvalue (trackers \<sigma> t)" by (simp add: tr)
      qed (insert xn, simp_all add: tr)
    qed
  qed (simp_all add: o w')
  show "owned \<sigma>'" if ow: "owned \<sigma>"
  proof (rule owned_step [OF ow])
    have no: "nobjects \<sigma>' = nobjects \<sigma>" using c by (simp add: e upd_tracker_def)
    show "ntrackers \<sigma> \<le> ntrackers \<sigma>'" "nobjects \<sigma> \<le> nobjects \<sigma>'" by (simp_all add: o no)
    fix x i c1 assume x: "x < ntrackers \<sigma>'" "tvalue (trackers \<sigma>' x) = Obj i c1"
    then have "x \<noteq> ?n" using cv(4) by (auto simp: tr)
    then have "x < ntrackers \<sigma> \<and> (\<exists>c0. tvalue (trackers \<sigma> x) = Obj i c0)"
      using x by (simp add: tr o)
    then show "(x < ntrackers \<sigma> \<and> (\<exists>c0. tvalue (trackers \<sigma> x) = Obj i c0))
              \<or> (nobjects \<sigma> \<le> i \<and> i < nobjects \<sigma>'
                  \<and> (\<forall>t' c'. t' < ntrackers \<sigma>' \<and> tvalue (trackers \<sigma>' t') = Obj i c' \<longrightarrow> t' = x))"
      by simp
  qed
qed

lemma settled_atRest: "settled D \<sigma> \<Longrightarrow> atRest D \<sigma>"
proof (induction rule: settled.induct)
  case settled_empty
  show ?case by (rule atRest_emptyWorld)
next
  case (settled_state \<sigma> v t \<sigma>')
  then show ?case using atRest_state [of D \<sigma> v t \<sigma>'] by (simp add: admits_def)
next
  case (settled_objectState \<sigma> c t \<sigma>')
  then show ?case using atRest_objectState by blast
next
  case (settled_arrayState \<sigma> v A \<sigma>')
  then show ?case using atRest_arrayState by blast
next
  case (settled_derive \<sigma> p n d \<sigma>')
  then show ?case using atRest_derive(1) by blast
next
  case (settled_effect \<sigma> n "from" u \<sigma>')
  then show ?case using atRest_effect(1) by blast
next
  case (settled_updateState \<sigma> b n u \<sigma>')
  then show ?case using atRest_updateState(1) [of D \<sigma> b n \<sigma>'] by simp
next
  case (settled_finalize \<sigma> d u \<sigma>')
  then show ?case using atRest_finalize(1) by blast
qed

lemma settled_owned: "settled D \<sigma> \<Longrightarrow> owned \<sigma>"
proof (induction rule: settled.induct)
  case settled_empty
  show ?case by (rule owned_emptyWorld)
next
  case (settled_state \<sigma> v t \<sigma>')
  then show ?case using owned_state_primitive by blast
next
  case (settled_objectState \<sigma> c t \<sigma>')
  show ?case
    by (rule owned_state_object [OF settled_objectState.IH _ _ _ settled_objectState.hyps(2)])
       simp_all
next
  case (settled_arrayState \<sigma> v A \<sigma>')
  let ?\<sigma>0 = "\<sigma>\<lparr>arrays := (arrays \<sigma>)(narrays \<sigma> := v), narrays := Suc (narrays \<sigma>),
                 nobjects := Suc (nobjects \<sigma>)\<rparr>"
  obtain t where t: "state (Obj (nobjects \<sigma>) \<lparr>changes = [], newLength = js_length v\<rparr>) ?\<sigma>0 = Ok t \<sigma>'"
    using settled_arrayState.hyps(2) by (auto simp: arrayState_def split: result.splits)
  show ?case
    by (rule owned_state_object [OF settled_arrayState.IH _ _ _ t]) simp_all
next
  case (settled_derive \<sigma> p n d \<sigma>')
  from atRest_derive(2) [OF settled_atRest [OF settled_derive.hyps(1)] settled_derive.hyps(2,3)
         settled_derive.IH]
  show ?case .
next
  case (settled_effect \<sigma> n "from" u \<sigma>')
  from atRest_effect(2) [OF settled_atRest [OF settled_effect.hyps(1)] settled_effect.hyps(2)]
    settled_effect.IH
  show ?case by simp
next
  case (settled_updateState \<sigma> b n u \<sigma>')
  from atRest_updateState(2) [OF settled_atRest [OF settled_updateState.hyps(1)]
         settled_updateState.hyps(2), of n \<sigma>'] settled_updateState.hyps(3) settled_updateState.IH
  show ?case by simp
next
  case (settled_finalize \<sigma> d u \<sigma>')
  from atRest_finalize(2) [OF settled_atRest [OF settled_finalize.hyps(1)] settled_finalize.hyps(2)]
    settled_finalize.IH
  show ?case by simp
qed

text \<open>
  So in a settled world no object is held by two trackers, and none by a derived
  tracker.
\<close>

lemma settled_unshared:
  assumes s: "settled D \<sigma>" and t: "t < ntrackers \<sigma>" "tvalue (trackers \<sigma> t) = Obj i c"
  shows "ttype (trackers \<sigma> t) = State"
    and "t' < ntrackers \<sigma> \<Longrightarrow> tvalue (trackers \<sigma> t') = Obj i c' \<Longrightarrow> t' = t"
proof -
  have w: "wellFormed D \<sigma>" using atRest_wf [OF settled_atRest [OF s]] .
  show "ttype (trackers \<sigma> t) = State"
  proof (cases "ttype (trackers \<sigma> t)")
    case Derived
    from wf_derived(1) [OF w t(1) this] t(2) show ?thesis by simp
  qed simp
  show "t' < ntrackers \<sigma> \<Longrightarrow> tvalue (trackers \<sigma> t') = Obj i c' \<Longrightarrow> t' = t"
    using settled_owned [OF s] t unfolding owned_def by blast
qed

section \<open>The diamond\<close>

text \<open>
  C2.  In the diamond graph (count = 1, doubled = 2, modulo = 1, doubleModulo = 2,
  the effect fired once), the batch \<^verbatim>\<open>count += 2; count += 2\<close> returns normally,
  leaves count = 5, doubled = 10, modulo = 1, doubleModulo = 2, and the only user
  code it runs is the function of doubled and the function of modulo, once each:
  the function of doubleModulo and the effect are not run again.
\<close>

theorem diamond_batch_runs_doubled_and_modulo_only:
  "valuesOf diamond [0, 1, 2, 3] = [Num 1, Num 2, Num 1, Num 2]
   \<and> trace diamond = [FuncRan 1, FuncRan 2, FuncRan 3, EffectRan 0 [(Num 2, False)]]
   \<and> error_of (updateState 5 diamondBatch diamond) = None
   \<and> mode (world_of (updateState 5 diamondBatch diamond)) = Normal
   \<and> valuesOf (world_of (updateState 5 diamondBatch diamond)) [0, 1, 2, 3]
       = [Num 5, Num 10, Num 1, Num 2]
   \<and> trace (world_of (updateState 5 diamondBatch diamond))
       = trace diamond @ [FuncRan 1, FuncRan 2]"
  by code_simp

section \<open>Projections and their sources\<close>

text \<open>
  C3.  A \<^verbatim>\<open>map\<close> projection created after a batch that edited its source does not
  equal the element-wise recomputation from the source: for \<^verbatim>\<open>[1, 2, 3, 4]\<close>, the
  batch \<^verbatim>\<open>array.delete(1)\<close> leaves \<^verbatim>\<open>[1, 3, 4]\<close> and the script \<^verbatim>\<open>[Delete 1 1]\<close>;
  \<^verbatim>\<open>array.map(e => e)\<close> then maps the source to \<^verbatim>\<open>[1, 3, 4]\<close>, and the first run
  of its derivation applies the script left from that batch to it once more, so the
  projection is \<^verbatim>\<open>[1, 4]\<close>.
\<close>

theorem map_created_after_batch_applies_old_script:
  "error_of (mapArray 5 theArray (\<lambda>e. e) array2) = None
   \<and> scriptOf array2 0 = [Delete 1 1]
   \<and> elems (arrays array3 0) = [Some 1, Some 3, Some 4]
   \<and> elems (js_map (\<lambda>e. e) (arrays array3 0)) = [Some 1, Some 3, Some 4]
   \<and> elems (arrays array3 1) = [Some 1, Some 4]"
  by code_simp

section \<open>Mutation outside a batch\<close>

text \<open>
  C4, as stated, fails: outside a batch \<^verbatim>\<open>insertAt(-1, 7)\<close> fails with the range
  error, not with the phase error, because the index is checked first.
\<close>

theorem insertAt_outside_batch_range_error:
  "mode array1 = Normal
   \<and> error_of (insertAt theArray (- 1) [7] array1) = Some RangeViolation"
  by code_simp

text \<open>
  C4, amended.  While the phase is not batch-collecting, every mutation fails and
  returns the world it was given, unchanged: \<^verbatim>\<open>set value\<close>, \<^verbatim>\<open>update(fn)\<close> and
  the array operations \<^verbatim>\<open>insert\<close>, \<^verbatim>\<open>append\<close>, \<^verbatim>\<open>replace\<close> and \<^verbatim>\<open>move\<close> with
  PhaseViolation; \<^verbatim>\<open>insertAt\<close>, \<^verbatim>\<open>delete\<close> and the array's \<^verbatim>\<open>update\<close> with
  RangeViolation when their index is out of range and with PhaseViolation otherwise.
\<close>

theorem mutation_outside_batch_fails_unchanged:
  assumes "mode \<sigma> \<noteq> UpdatingState"
  shows "set_value t v \<sigma> = Err PhaseViolation \<sigma>
   \<and> state_update t callback \<sigma> = Err PhaseViolation \<sigma>
   \<and> insertAt A index vs \<sigma> =
       Err (if index < 0 \<or> index > js_length (arrays \<sigma> (avalue A))
            then RangeViolation else PhaseViolation) \<sigma>
   \<and> arr_insert A vs \<sigma> = Err PhaseViolation \<sigma>
   \<and> arr_append A vs \<sigma> = Err PhaseViolation \<sigma>
   \<and> arr_delete A startIndex endIndex \<sigma> =
       Err (if startIndex < 0
               \<or> (case endIndex of None \<Rightarrow> startIndex | Some e \<Rightarrow> e) < startIndex
               \<or> (case endIndex of None \<Rightarrow> startIndex | Some e \<Rightarrow> e)
                    > js_length (arrays \<sigma> (avalue A)) - 1
            then RangeViolation else PhaseViolation) \<sigma>
   \<and> arr_update A index \<sigma> =
       Err (if js_get (arrays \<sigma> (avalue A)) index = None
            then RangeViolation else PhaseViolation) \<sigma>
   \<and> arr_replace A index newValue \<sigma> = Err PhaseViolation \<sigma>
   \<and> arr_move A oldIndex newIndex \<sigma> = Err PhaseViolation \<sigma>"
  using assms
  by (auto simp: set_value_def state_update_def insertAt_def arr_insert_def arr_append_def
      arr_delete_def arr_update_def arr_replace_def arr_move_def resetChanges_def
      hasChangedWhileUpdatingState_def js_length_def Let_def split: option.splits)

theorem mutation_outside_batch_fails_unchanged_witness:
  "mode array1 \<noteq> UpdatingState
   \<and> set_value 0 (Num 3) array1 = Err PhaseViolation array1
   \<and> state_update 0 (\<lambda>c. c) array1 = Err PhaseViolation array1
   \<and> insertAt theArray 1 [7] array1 = Err PhaseViolation array1
   \<and> insertAt theArray 5 [7] array1 = Err RangeViolation array1
   \<and> arr_delete theArray 1 None array1 = Err PhaseViolation array1
   \<and> arr_update theArray 4 array1 = Err RangeViolation array1
   \<and> arr_replace theArray 5 9 array1 = Err PhaseViolation array1
   \<and> arr_move theArray 0 1 array1 = Err PhaseViolation array1"
proof -
  have m: "mode array1 \<noteq> UpdatingState" by code_simp
  have l: "js_length (arrays array1 (avalue theArray)) = 4" by code_simp
  have g: "js_get (arrays array1 (avalue theArray)) 4 = None" by code_simp
  show ?thesis
    using m l g
      mutation_outside_batch_fails_unchanged [OF m, where t = 0 and v = "Num 3"
        and callback = "\<lambda>c. c" and A = theArray and index = 1 and vs = "[7]"
        and startIndex = 1 and endIndex = None and newValue = 9 and oldIndex = 0 and newIndex = 1]
      mutation_outside_batch_fails_unchanged [OF m, where A = theArray and index = 5 and vs = "[7]"]
      mutation_outside_batch_fails_unchanged [OF m, where A = theArray and index = 4]
    by simp
qed

section \<open>Change detection\<close>

text \<open>
  C5, as stated, fails for \<^verbatim>\<open>update(fn)\<close>: inside a batch, an \<^verbatim>\<open>update\<close> whose callback
  leaves the value as it is (the value after the call is reference-identical to the
  value before) still sets the flag, appends the tracker to the changed list and
  adds its downstream derived tracker and effect to the stale sets.
\<close>

theorem update_marks_changed_without_comparing:
  "mode counterInBatch = UpdatingState
   \<and> \<not> hasChanged (trackers counterInBatch 0)
   \<and> changedSignals counterInBatch = []
   \<and> staleDerivedSignals counterInBatch = []
   \<and> staleEffects counterInBatch = []
   \<and> error_of (state_update 0 (\<lambda>c. c) counterInBatch) = None
   \<and> strict_eq (tvalue (trackers (world_of (state_update 0 (\<lambda>c. c) counterInBatch)) 0))
        (tvalue (trackers counterInBatch 0))
   \<and> hasChanged (trackers (world_of (state_update 0 (\<lambda>c. c) counterInBatch)) 0)
   \<and> changedSignals (world_of (state_update 0 (\<lambda>c. c) counterInBatch)) = [0]
   \<and> staleDerivedSignals (world_of (state_update 0 (\<lambda>c. c) counterInBatch)) = [1]
   \<and> staleEffects (world_of (state_update 0 (\<lambda>c. c) counterInBatch)) = [0]"
  by code_simp

text \<open>
  C5, amended.  Inside a batch, \<^verbatim>\<open>set value\<close> compares the new value with the
  tracker's value by identity: if they are identical nothing changes; otherwise the
  new value is stored and the change is recorded (flag set and, unless the flag was
  set already in this batch, tracker appended to the changed list and downstream
  derived trackers and effects added to the stale sets).  \<^verbatim>\<open>update(fn)\<close> compares
  nothing: it lets the callback mutate the value in place, which keeps its identity,
  and records the change every time.
\<close>

theorem state_mutation_change_detection:
  assumes "mode \<sigma> = UpdatingState"
  shows "(strict_eq (tvalue (trackers \<sigma> t)) v \<longrightarrow> set_value t v \<sigma> = Ok () \<sigma>)
   \<and> (\<not> strict_eq (tvalue (trackers \<sigma> t)) v \<longrightarrow>
        error_of (set_value t v \<sigma>) = None
        \<and> tvalue (trackers (world_of (set_value t v \<sigma>)) t) = v
        \<and> changeRecorded t \<sigma> (world_of (set_value t v \<sigma>)))
   \<and> error_of (state_update t callback \<sigma>) = None
   \<and> tvalue (trackers (world_of (state_update t callback \<sigma>)) t)
        = in_place callback (tvalue (trackers \<sigma> t))
   \<and> strict_eq (tvalue (trackers (world_of (state_update t callback \<sigma>)) t))
        (tvalue (trackers \<sigma> t))
   \<and> changeRecorded t \<sigma> (world_of (state_update t callback \<sigma>))"
  using assms
  by (auto simp: set_value_def state_update_def handleValueChange_def changeRecorded_def
      upd_tracker_def error_of_def world_of_def)

theorem state_mutation_change_detection_witness:
  "mode counterInBatch = UpdatingState
   \<and> strict_eq (tvalue (trackers counterInBatch 0)) (Num 1)
   \<and> set_value 0 (Num 1) counterInBatch = Ok () counterInBatch
   \<and> \<not> strict_eq (tvalue (trackers counterInBatch 0)) (Num 2)
   \<and> tvalue (trackers (world_of (set_value 0 (Num 2) counterInBatch)) 0) = Num 2
   \<and> changeRecorded 0 counterInBatch (world_of (set_value 0 (Num 2) counterInBatch))
   \<and> changeRecorded 0 counterInBatch (world_of (state_update 0 (\<lambda>c. c) counterInBatch))"
proof -
  have m: "mode counterInBatch = UpdatingState" by code_simp
  have e: "strict_eq (tvalue (trackers counterInBatch 0)) (Num 1)" by code_simp
  have n: "\<not> strict_eq (tvalue (trackers counterInBatch 0)) (Num 2)" by code_simp
  show ?thesis
    using m e n
      state_mutation_change_detection [OF m, of 0 "Num 1" "\<lambda>c. c"]
      state_mutation_change_detection [OF m, of 0 "Num 2" "\<lambda>c. c"]
    by simp
qed

section \<open>Range checks of the array operations\<close>

text \<open>
  C6.  \<^verbatim>\<open>replace\<close> has no range check.  On \<^verbatim>\<open>[1, 2, 3, 4]\<close>, inside a batch,
  \<^verbatim>\<open>replace(5, 9)\<close> does not fail: it stretches the array to length 6 with an empty
  slot, records \<^verbatim>\<open>Replace 5 9\<close> and leaves \<^verbatim>\<open>newLength\<close> at 4; \<^verbatim>\<open>replace(-1, 9)\<close> does
  not fail either: it stores the property \<^verbatim>\<open>-1\<close> on the array object and records
  \<^verbatim>\<open>Replace -1 9\<close>.
\<close>

theorem replace_out_of_bounds_does_not_fail:
  "js_length (arrays array1 0) = 4
   \<and> error_of (updateState 5 (ReplaceAt theArray 5 9 Finish) array1) = None
   \<and> elems (arrays (world_of (updateState 5 (ReplaceAt theArray 5 9 Finish) array1)) 0)
       = [Some 1, Some 2, Some 3, Some 4, None, Some 9]
   \<and> scriptOf (world_of (updateState 5 (ReplaceAt theArray 5 9 Finish) array1)) 0
       = [Replace 5 9]
   \<and> newLengthOf (world_of (updateState 5 (ReplaceAt theArray 5 9 Finish) array1)) 0 = 4
   \<and> error_of (updateState 5 (ReplaceAt theArray (- 1) 9 Finish) array1) = None
   \<and> props (arrays (world_of (updateState 5 (ReplaceAt theArray (- 1) 9 Finish) array1)) 0) (- 1)
       = Some 9
   \<and> scriptOf (world_of (updateState 5 (ReplaceAt theArray (- 1) 9 Finish) array1)) 0
       = [Replace (- 1) 9]"
  by code_simp

section \<open>Effects\<close>

text \<open>
  C7.  \<^verbatim>\<open>effect\<close> returns nothing: the call registers the callback with its source
  and its result is the unit value, so there is no handle and no \<^verbatim>\<open>remove\<close>.
\<close>

theorem effect_returns_no_handle:
  "effect 5 [0] counter1 = Ok () (world_of (effect 5 [0] counter1))
   \<and> downstreamEffects (trackers (world_of (effect 5 [0] counter1)) 0) = [0]"
proof -
  have "error_of (effect 5 [0] counter1) = None
        \<and> downstreamEffects (trackers (world_of (effect 5 [0] counter1)) 0) = [0]"
    by code_simp
  then show ?thesis
    by (cases "effect 5 [0] counter1") (simp_all add: error_of_def world_of_def)
qed

section \<open>The unimplemented move\<close>

text \<open>
  C8, as stated, fails twice.  Inside a batch in which the array has not been
  edited yet, \<^verbatim>\<open>move\<close> replaces the script left by the previous batch
  (\<^verbatim>\<open>[Delete 1 1]\<close>) by the empty script before it fails; and outside a batch it
  fails with the phase error.
\<close>

theorem move_resets_script_before_failing:
  "scriptOf array2 0 = [Delete 1 1]
   \<and> error_of (updateState 5 (MoveTo theArray 0 1 Finish) array2) = Some UnimplementedOperation
   \<and> scriptOf (world_of (updateState 5 (MoveTo theArray 0 1 Finish) array2)) 0 = []
   \<and> mode array2 = Normal
   \<and> error_of (arr_move theArray 0 1 array2) = Some PhaseViolation"
  by code_simp

text \<open>
  C8, amended.  Every call of \<^verbatim>\<open>move\<close> fails and leaves every backing sequence as
  it was.  While the phase is not batch-collecting it fails with PhaseViolation and
  changes nothing; in a batch it fails with UnimplementedOperation, and changes
  nothing at all if the array's changes signal has already changed in this batch.
\<close>

theorem move_always_fails:
  "(mode \<sigma> \<noteq> UpdatingState \<longrightarrow> arr_move A oldIndex newIndex \<sigma> = Err PhaseViolation \<sigma>)
   \<and> (mode \<sigma> = UpdatingState \<longrightarrow>
        error_of (arr_move A oldIndex newIndex \<sigma>) = Some UnimplementedOperation
        \<and> arrays (world_of (arr_move A oldIndex newIndex \<sigma>)) = arrays \<sigma>)
   \<and> (mode \<sigma> = UpdatingState \<and> hasChanged (trackers \<sigma> (achanges A)) \<longrightarrow>
        arr_move A oldIndex newIndex \<sigma> = Err UnimplementedOperation \<sigma>)"
  by (auto simp: arr_move_def resetChanges_def hasChangedWhileUpdatingState_def set_value_def
      handleValueChange_def upd_tracker_def error_of_def world_of_def)

theorem move_always_fails_witness:
  "mode array1 \<noteq> UpdatingState
   \<and> arr_move theArray 0 1 array1 = Err PhaseViolation array1
   \<and> mode (array1\<lparr>mode := UpdatingState\<rparr>) = UpdatingState
   \<and> error_of (arr_move theArray 0 1 (array1\<lparr>mode := UpdatingState\<rparr>))
       = Some UnimplementedOperation
   \<and> arrays (world_of (arr_move theArray 0 1 (array1\<lparr>mode := UpdatingState\<rparr>)))
       = arrays (array1\<lparr>mode := UpdatingState\<rparr>)
   \<and> hasChanged (trackers (upd_tracker 0 (\<lambda>tr. tr\<lparr>hasChanged := True\<rparr>)
         (array1\<lparr>mode := UpdatingState\<rparr>)) (achanges theArray))
   \<and> arr_move theArray 0 1
        (upd_tracker 0 (\<lambda>tr. tr\<lparr>hasChanged := True\<rparr>) (array1\<lparr>mode := UpdatingState\<rparr>))
       = Err UnimplementedOperation
           (upd_tracker 0 (\<lambda>tr. tr\<lparr>hasChanged := True\<rparr>) (array1\<lparr>mode := UpdatingState\<rparr>))"
proof -
  have m: "mode array1 \<noteq> UpdatingState" by code_simp
  have a: "achanges theArray = 0" by (simp add: theArray_def)
  show ?thesis
    using m a
      move_always_fails [of array1 theArray 0 1]
      move_always_fails [of "array1\<lparr>mode := UpdatingState\<rparr>" theArray 0 1]
      move_always_fails [of "upd_tracker 0 (\<lambda>tr. tr\<lparr>hasChanged := True\<rparr>)
         (array1\<lparr>mode := UpdatingState\<rparr>)" theArray 0 1]
    by (simp add: upd_tracker_def)
qed

section \<open>Adjacency symmetry and reclamation\<close>

lemma reachable_diamond: "reachable diamond"
  unfolding diamond_def diamond4_def diamond3_def diamond2_def diamond1_def
  using reachable_perform [of _ 5 "CallState (Num 1)"]
    reachable_perform [of _ 5 "CallDerive p" for p]
    reachable_perform [of _ 5 "CallEffect [3]"]
    reachable_empty
  by (simp add: perform_def)

text \<open>
  C9.  In every world reached from the empty one by public operations (creating
  states, derivations and effects, reading handles, mutating outside or inside
  \<^verbatim>\<open>updateState\<close>, running \<^verbatim>\<open>updateState\<close>, array states and projections, and the
  host's cleanup of a reclaimed derived tracker), whether the operations returned or
  threw, tracker \<open>a\<close> is in the upstream set of \<open>b\<close> if and only if \<open>b\<close> is in the
  downstream set of \<open>a\<close>.
\<close>

theorem adjacency_symmetric_between_operations:
  assumes "reachable \<sigma>"
  shows "adjacency_symmetric \<sigma>"
  using reachable_graph_inv [OF assms] by (simp add: graph_inv_def)

theorem adjacency_symmetric_between_operations_witness:
  "reachable diamond
   \<and> adjacency_symmetric diamond
   \<and> upstreamSignals (trackers diamond 3) = [2]
   \<and> downstreamSignals (trackers diamond 2) = [3]"
proof -
  have "upstreamSignals (trackers diamond 3) = [2] \<and> downstreamSignals (trackers diamond 2) = [3]"
    by code_simp
  then show ?thesis
    using reachable_diamond adjacency_symmetric_between_operations [OF reachable_diamond]
    by simp
qed



section \<open>The law itself\<close>




















end
